(* ===== verification/Prelude.thy ===== *)
theory Prelude
  imports Main "HOL-Library.Char_ord" "HOL-Library.List_Lexorder" "HOL-Library.Multiset"
begin

text \<open>
  What every component shares: fallible results as sums, the pieces of the JavaScript
  standard library the sources call (truncating division, \<open>String(n)\<close>, \<open>padStart\<close>,
  \<open>Array.prototype.sort\<close>, insertion-ordered \<open>Map\<close>), and the interface a comparator has to
  satisfy before a sort with it means anything, stated as a locale.

  Strings are lists of characters (bytes of the UTF-8 encoding). The library's lexicographic
  order on them agrees with JavaScript's order by UTF-16 code units for every string of
  characters below the surrogate range, which the identifiers compared by the sources are.
\<close>

section \<open>Fallible results\<close>

text \<open>\<open>Inl\<close> is a thrown error, \<open>Inr\<close> a returned value.\<close>

primrec bind_res :: "'e + 'a \<Rightarrow> ('a \<Rightarrow> 'e + 'b) \<Rightarrow> 'e + 'b" where
  "bind_res (Inl e) f = Inl e"
| "bind_res (Inr a) f = f a"

lemma bind_res_Inr_iff: "bind_res m f = Inr b \<longleftrightarrow> (\<exists>a. m = Inr a \<and> f a = Inr b)"
  by (cases m) auto

lemma bind_res_Inl_iff:
  "bind_res m f = Inl e \<longleftrightarrow> m = Inl e \<or> (\<exists>a. m = Inr a \<and> f a = Inl e)"
  by (cases m) auto

lemma bind_res_InrE [elim?]:
  assumes "bind_res m f = Inr b"
  obtains a where "m = Inr a" and "f a = Inr b"
  using assms by (cases m) auto

lemma bind_res_assoc: "bind_res (bind_res m f) g = bind_res m (\<lambda>a. bind_res (f a) g)"
  by (cases m) simp_all

lemma bind_res_cong [fundef_cong]:
  "m = m' \<Longrightarrow> (\<And>a. m' = Inr a \<Longrightarrow> f a = f' a) \<Longrightarrow> bind_res m f = bind_res m' f'"
  by (cases m') auto

text \<open>A loop that may throw, over the elements of a list in order.\<close>

primrec map_res :: "('a \<Rightarrow> 'e + 'b) \<Rightarrow> 'a list \<Rightarrow> 'e + 'b list" where
  "map_res f [] = Inr []"
| "map_res f (x # xs) = bind_res (f x) (\<lambda>y. bind_res (map_res f xs) (\<lambda>ys. Inr (y # ys)))"

lemma map_res_Inr_iff:
  "map_res f xs = Inr ys \<longleftrightarrow> list_all2 (\<lambda>x y. f x = Inr y) xs ys"
  by (induction xs arbitrary: ys) (auto simp: bind_res_Inr_iff list_all2_Cons1)

lemma map_res_total: "(\<And>x. x \<in> set xs \<Longrightarrow> f x = Inr (g x)) \<Longrightarrow> map_res f xs = Inr (map g xs)"
  by (induction xs) auto

section \<open>Numbers\<close>

text \<open>
  \<open>Math.floor(a / b)\<close> on integers is HOL's flooring \<open>div\<close>. JavaScript's \<open>%\<close>, and the division
  and remainder of \<open>bigint\<close>, truncate towards zero instead.
\<close>

definition js_rem :: "int \<Rightarrow> int \<Rightarrow> int" where
  "js_rem a b = sgn a * (\<bar>a\<bar> mod \<bar>b\<bar>)"

definition js_quot :: "int \<Rightarrow> int \<Rightarrow> int" where
  "js_quot a b = sgn a * sgn b * (\<bar>a\<bar> div \<bar>b\<bar>)"

lemma js_rem_nonneg: "0 \<le> a \<Longrightarrow> 0 < b \<Longrightarrow> js_rem a b = a mod b"
  by (cases "a = 0") (simp_all add: js_rem_def)

lemma js_quot_nonneg: "0 \<le> a \<Longrightarrow> 0 < b \<Longrightarrow> js_quot a b = a div b"
  by (cases "a = 0") (simp_all add: js_quot_def)

lemma js_quot_rem: "b \<noteq> 0 \<Longrightarrow> js_quot a b * b + js_rem a b = a"
proof -
  assume "b \<noteq> 0"
  have "js_quot a b * b + js_rem a b = sgn a * (\<bar>a\<bar> div \<bar>b\<bar> * \<bar>b\<bar> + \<bar>a\<bar> mod \<bar>b\<bar>)"
    by (simp add: js_quot_def js_rem_def algebra_simps abs_sgn)
  also have "\<dots> = a" by (simp add: sgn_mult_abs)
  finally show ?thesis .
qed

lemma js_rem_range: "0 < b \<Longrightarrow> - b < js_rem a b \<and> js_rem a b < b"
proof -
  assume "0 < b"
  then have r: "0 \<le> \<bar>a\<bar> mod b" "\<bar>a\<bar> mod b < b" by simp_all
  have "js_rem a b = sgn a * (\<bar>a\<bar> mod b)" using \<open>0 < b\<close> by (simp add: js_rem_def)
  moreover have "sgn a = 0 \<or> sgn a = 1 \<or> sgn a = - 1" by (simp add: sgn_if)
  ultimately show ?thesis using r \<open>0 < b\<close> by (elim disjE; simp; linarith)
qed

lemma js_rem_cong_mod: "0 < b \<Longrightarrow> js_rem a b mod b = a mod b"
proof -
  assume "0 < b"
  then have "js_quot a b * b + js_rem a b = a" by (simp add: js_quot_rem)
  then have "(js_rem a b + js_quot a b * b) mod b = a mod b" by (simp add: add.commute)
  then show ?thesis by simp
qed

section \<open>Strings\<close>

definition digit_char :: "nat \<Rightarrow> char" where
  "digit_char d = char_of (48 + d)"

definition is_digit :: "char \<Rightarrow> bool" where
  "is_digit c \<longleftrightarrow> 48 \<le> (of_char c :: nat) \<and> (of_char c :: nat) \<le> 57"

definition digit_val :: "char \<Rightarrow> nat" where
  "digit_val c = of_char c - 48"

lemma of_digit_char: "d < 10 \<Longrightarrow> (of_char (digit_char d) :: nat) = 48 + d"
  by (simp add: digit_char_def)

lemma digit_val_digit_char [simp]: "d < 10 \<Longrightarrow> digit_val (digit_char d) = d"
  by (simp add: digit_val_def of_digit_char)

lemma is_digit_digit_char [simp]: "d < 10 \<Longrightarrow> is_digit (digit_char d)"
  by (simp add: is_digit_def of_digit_char)

lemma digit_char_digit_val: "is_digit c \<Longrightarrow> digit_char (digit_val c) = c"
  by (simp add: is_digit_def digit_char_def digit_val_def)

lemma digit_val_less: "is_digit c \<Longrightarrow> digit_val c < 10"
  by (auto simp: is_digit_def digit_val_def)

text \<open>The bytes of a text given by its code points below \<open>0x10000\<close>.\<close>

definition utf8 :: "nat list \<Rightarrow> string" where
  "utf8 cs = concat (map (\<lambda>c. if c < 0x80 then [char_of c]
     else if c < 0x800 then [char_of (0xC0 + c div 0x40), char_of (0x80 + c mod 0x40)]
     else [char_of (0xE0 + c div 0x1000), char_of (0x80 + c div 0x40 mod 0x40),
           char_of (0x80 + c mod 0x40)]) cs)"

text \<open>\<open>String(n)\<close> and \<open>n.toString()\<close> of a non-negative integer.\<close>

fun show_nat :: "nat \<Rightarrow> string" where
  "show_nat n = (if n < 10 then [digit_char n] else show_nat (n div 10) @ [digit_char (n mod 10)])"

declare show_nat.simps [simp del]

definition show_int :: "int \<Rightarrow> string" where
  "show_int i = (if i < 0 then CHR ''-'' # show_nat (nat (- i)) else show_nat (nat i))"

text \<open>The value of a numeral, read from its most significant digit.\<close>

definition digits_val :: "string \<Rightarrow> nat" where
  "digits_val s = foldl (\<lambda>acc c. 10 * acc + digit_val c) 0 s"

lemma digits_val_snoc: "digits_val (s @ [c]) = 10 * digits_val s + digit_val c"
  by (simp add: digits_val_def)

lemma digits_val_Nil [simp]: "digits_val [] = 0"
  by (simp add: digits_val_def)

lemma foldl_digits_val:
  "foldl (\<lambda>acc c. 10 * acc + digit_val c) a s = a * 10 ^ length s + digits_val s"
proof (induction s arbitrary: a)
  case Nil
  then show ?case by (simp add: digits_val_def)
next
  case (Cons c s)
  from Cons.IH [of "10 * a + digit_val c"] Cons.IH [of "digit_val c"]
  show ?case by (simp add: digits_val_def algebra_simps)
qed

lemma digits_val_Cons: "digits_val (c # s) = digit_val c * 10 ^ length s + digits_val s"
  using foldl_digits_val [of "digit_val c" s] by (simp add: digits_val_def)

lemma digits_val_append: "digits_val (s @ t) = digits_val s * 10 ^ length t + digits_val t"
  using foldl_digits_val [of "digits_val s" t] by (simp add: digits_val_def)

lemma digits_val_show_nat [simp]: "digits_val (show_nat n) = n"
proof (induction n rule: show_nat.induct)
  case (1 n)
  show ?case
  proof (cases "n < 10")
    case True
    then show ?thesis by (subst show_nat.simps) (simp add: digits_val_def)
  next
    case False
    with "1.IH" have "digits_val (show_nat (n div 10)) = n div 10" by simp
    with False show ?thesis by (subst show_nat.simps) (simp add: digits_val_snoc)
  qed
qed

lemma show_nat_inj: "show_nat m = show_nat n \<longleftrightarrow> m = n"
  by (metis digits_val_show_nat)

lemma show_nat_digits: "c \<in> set (show_nat n) \<Longrightarrow> is_digit c"
proof (induction n rule: show_nat.induct)
  case (1 n)
  then show ?case
    by (cases "n < 10") (auto simp: show_nat.simps [of n])
qed

lemma show_nat_nonempty [simp]: "show_nat n \<noteq> []"
  by (subst show_nat.simps) simp

lemma minus_not_digit: "\<not> is_digit (CHR ''-'')"
  by (simp add: is_digit_def)

lemma show_int_inj: "show_int i = show_int j \<longleftrightarrow> i = j"
proof
  assume eq: "show_int i = show_int j"
  have neg: "show_nat n \<noteq> CHR ''-'' # s" for n s
    using show_nat_digits [of "CHR ''-''" n] minus_not_digit by fastforce
  show "i = j"
    using eq neg neg [symmetric] by (auto simp: show_int_def show_nat_inj split: if_splits)
qed simp

lemma length_show_nat_pos: "0 < length (show_nat n)"
  by simp

lemma length_show_nat: "n < 10 ^ k \<Longrightarrow> 0 < k \<Longrightarrow> length (show_nat n) \<le> k"
proof (induction n arbitrary: k rule: show_nat.induct)
  case (1 n)
  show ?case
  proof (cases "n < 10")
    case True
    then show ?thesis using "1.prems" by (subst show_nat.simps) simp
  next
    case False
    then obtain j where k: "k = Suc j" using "1.prems" by (cases k) auto
    have "0 < j" using False "1.prems" k by (cases j) auto
    moreover have "n div 10 < 10 ^ j" using "1.prems" k by auto
    ultimately have "length (show_nat (n div 10)) \<le> j" using "1.IH" False by blast
    with False k show ?thesis by (subst show_nat.simps) simp
  qed
qed

text \<open>\<open>padStart\<close> and \<open>padEnd\<close> with a one-character filler.\<close>

definition pad_start :: "char \<Rightarrow> nat \<Rightarrow> string \<Rightarrow> string" where
  "pad_start c w s = replicate (w - length s) c @ s"

definition pad_end :: "char \<Rightarrow> nat \<Rightarrow> string \<Rightarrow> string" where
  "pad_end c w s = s @ replicate (w - length s) c"

lemma length_pad_start [simp]: "length (pad_start c w s) = max w (length s)"
  by (simp add: pad_start_def)

lemma length_pad_end [simp]: "length (pad_end c w s) = max w (length s)"
  by (simp add: pad_end_def)

lemma digit_val_zero [simp]: "digit_val (CHR ''0'') = 0"
  by (simp add: digit_val_def)

lemma is_digit_zero [simp]: "is_digit (CHR ''0'')"
  by (simp add: is_digit_def)

lemma digits_val_replicate_zero [simp]: "digits_val (replicate n (CHR ''0'')) = 0"
  by (induction n) (simp_all add: digits_val_Cons)

lemma digits_val_pad_start [simp]: "digits_val (pad_start (CHR ''0'') w s) = digits_val s"
  by (simp add: pad_start_def digits_val_append)

lemma pad_start_digits:
  "c \<in> set (pad_start (CHR ''0'') w s) \<Longrightarrow> c \<in> set s \<or> is_digit c"
  by (auto simp: pad_start_def)

text \<open>\<open>String(n).padStart(w, '0')\<close>.\<close>

definition pad0 :: "nat \<Rightarrow> int \<Rightarrow> string" where
  "pad0 w n = pad_start (CHR ''0'') w (show_int n)"

lemma pad0_nonneg: "0 \<le> n \<Longrightarrow> pad0 w n = pad_start (CHR ''0'') w (show_nat (nat n))"
  by (simp add: pad0_def show_int_def)

lemma digits_val_pad0 [simp]: "0 \<le> n \<Longrightarrow> digits_val (pad0 w n) = nat n"
  by (simp add: pad0_nonneg)

lemma pad0_digits: "0 \<le> n \<Longrightarrow> c \<in> set (pad0 w n) \<Longrightarrow> is_digit c"
  using pad_start_digits [of c w "show_nat (nat n)"] show_nat_digits [of c "nat n"]
  by (auto simp: pad0_nonneg)

lemma length_pad0: "0 \<le> n \<Longrightarrow> n < 10 ^ w \<Longrightarrow> 0 < w \<Longrightarrow> length (pad0 w n) = w"
  using length_show_nat [of "nat n" w] by (simp add: pad0_nonneg nat_less_iff)

lemma pad0_inj: "0 \<le> m \<Longrightarrow> 0 \<le> n \<Longrightarrow> pad0 w m = pad0 w n \<longleftrightarrow> m = n"
  by (metis digits_val_pad0 nat_eq_iff2)

section \<open>Insertion-ordered maps\<close>

text \<open>
  JavaScript's \<open>Map.set\<close>: a key that is present keeps its place and gets the new value, a
  new key goes to the end. \<open>entries\<close> is the list itself.
\<close>

primrec map_set :: "'k \<Rightarrow> 'v \<Rightarrow> ('k \<times> 'v) list \<Rightarrow> ('k \<times> 'v) list" where
  "map_set k v [] = [(k, v)]"
| "map_set k v (p # ps) = (if fst p = k then (k, v) # ps else p # map_set k v ps)"

lemma map_of_map_set: "map_of (map_set k v ps) = (map_of ps)(k \<mapsto> v)"
  by (induction ps) (auto simp: fun_eq_iff)

lemma keys_map_set: "fst ` set (map_set k v ps) = insert k (fst ` set ps)"
  by (induction ps) auto

lemma distinct_map_set: "distinct (map fst ps) \<Longrightarrow> distinct (map fst (map_set k v ps))"
proof (induction ps)
  case (Cons p ps)
  have "fst p \<notin> fst ` set (map_set k v ps)" if "fst p \<noteq> k"
    using that Cons.prems by (simp add: keys_map_set)
  with Cons show ?case by auto
qed simp

text \<open>Setting every pair of a list, in order: the last value written for a key wins.\<close>

definition map_set_all :: "('k \<times> 'v) list \<Rightarrow> ('k \<times> 'v) list \<Rightarrow> ('k \<times> 'v) list" where
  "map_set_all kvs ps = fold (\<lambda>(k, v). map_set k v) kvs ps"

lemma map_of_map_set_all: "map_of (map_set_all kvs ps) = map_of ps ++ map_of (rev kvs)"
  by (induction kvs arbitrary: ps) (auto simp: map_set_all_def map_of_map_set map_add_def fun_eq_iff split: option.splits)

lemma distinct_map_set_all:
  "distinct (map fst ps) \<Longrightarrow> distinct (map fst (map_set_all kvs ps))"
  by (induction kvs arbitrary: ps) (auto simp: map_set_all_def distinct_map_set)

lemma keys_map_set_all: "fst ` set (map_set_all kvs ps) = fst ` set ps \<union> fst ` set kvs"
proof (induction kvs arbitrary: ps)
  case (Cons kv kvs)
  obtain k v where "kv = (k, v)" by (cases kv)
  with Cons.IH [of "map_set k v ps"] show ?case
    by (simp add: map_set_all_def keys_map_set)
qed (simp add: map_set_all_def)

section \<open>Sorting with a comparator\<close>

text \<open>
  \<open>Array.prototype.sort(cmp)\<close> is a stable sort. With a consistent comparator the result
  of a stable sort is determined, so an insertion sort models every engine's.
\<close>

primrec js_insert :: "('a \<Rightarrow> 'a \<Rightarrow> int) \<Rightarrow> 'a \<Rightarrow> 'a list \<Rightarrow> 'a list" where
  "js_insert cmp x [] = [x]"
| "js_insert cmp x (y # ys) = (if cmp x y \<le> 0 then x # y # ys else y # js_insert cmp x ys)"

primrec js_sort :: "('a \<Rightarrow> 'a \<Rightarrow> int) \<Rightarrow> 'a list \<Rightarrow> 'a list" where
  "js_sort cmp [] = []"
| "js_sort cmp (x # xs) = js_insert cmp x (js_sort cmp xs)"

lemma mset_js_insert [simp]: "mset (js_insert cmp x xs) = {#x#} + mset xs"
  by (induction xs) auto

lemma mset_js_sort [simp]: "mset (js_sort cmp xs) = mset xs"
  by (induction xs) auto

lemma set_js_sort [simp]: "set (js_sort cmp xs) = set xs"
  by (metis mset_js_sort set_mset_mset)

lemma length_js_sort [simp]: "length (js_sort cmp xs) = length xs"
  by (metis mset_js_sort size_mset)

lemma distinct_js_sort [simp]: "distinct (js_sort cmp xs) \<longleftrightarrow> distinct xs"
  by (metis mset_js_sort mset_eq_imp_distinct_iff)

lemma js_sort_Nil_iff [simp]: "js_sort cmp xs = [] \<longleftrightarrow> xs = []"
  by (metis length_0_conv length_js_sort)

locale comparator =
  fixes cmp :: "'a \<Rightarrow> 'a \<Rightarrow> int"
  assumes cmp_flip: "cmp b a < 0 \<longleftrightarrow> 0 < cmp a b"
    and cmp_trans: "cmp a b \<le> 0 \<Longrightarrow> cmp b c \<le> 0 \<Longrightarrow> cmp a c \<le> 0"
begin

lemma cmp_total: "cmp a b \<le> 0 \<or> cmp b a \<le> 0"
  using cmp_flip [of a b] by linarith

lemma cmp_refl: "cmp a a = 0"
  using cmp_flip [of a a] by linarith

lemma cmp_zero_sym: "cmp a b = 0 \<longleftrightarrow> cmp b a = 0"
  using cmp_flip [of a b] cmp_flip [of b a] by linarith

lemma cmp_gt: "\<not> cmp a b \<le> 0 \<Longrightarrow> cmp b a \<le> 0"
  using cmp_total by blast

lemma sorted_js_insert:
  "sorted_wrt (\<lambda>a b. cmp a b \<le> 0) xs \<Longrightarrow> sorted_wrt (\<lambda>a b. cmp a b \<le> 0) (js_insert cmp x xs)"
proof (induction xs)
  case (Cons y ys)
  have set_ins: "set (js_insert cmp x ys) = insert x (set ys)"
    by (metis mset_js_insert set_mset_mset set_mset_add_mset_insert add_mset_add_single add.commute)
  show ?case
  proof (cases "cmp x y \<le> 0")
    case True
    with Cons.prems show ?thesis by (auto intro: cmp_trans)
  next
    case False
    then have "cmp y x \<le> 0" by (rule cmp_gt)
    with Cons False show ?thesis by (auto simp: set_ins)
  qed
qed simp

theorem sorted_js_sort: "sorted_wrt (\<lambda>a b. cmp a b \<le> 0) (js_sort cmp xs)"
  by (induction xs) (simp_all add: sorted_js_insert)

lemma hd_js_sort_least: "x \<in> set xs \<Longrightarrow> cmp (hd (js_sort cmp xs)) x \<le> 0"
proof -
  assume x: "x \<in> set xs"
  then obtain y ys where ys: "js_sort cmp xs = y # ys"
    by (metis js_sort_Nil_iff list.exhaust list.set_cases empty_iff empty_set)
  with x have "x = y \<or> x \<in> set ys" by (metis set_js_sort set_ConsD)
  moreover have "\<forall>z \<in> set ys. cmp y z \<le> 0"
    using sorted_js_sort [of xs] ys by simp
  ultimately show ?thesis using ys by (auto simp: cmp_refl)
qed

lemma hd_js_sort_mem: "xs \<noteq> [] \<Longrightarrow> hd (js_sort cmp xs) \<in> set xs"
  by (metis hd_in_set js_sort_Nil_iff set_js_sort)

lemma js_sort_sorted: "sorted_wrt (\<lambda>a b. cmp a b \<le> 0) xs \<Longrightarrow> js_sort cmp xs = xs"
proof (induction xs)
  case (Cons x xs)
  then show ?case by (cases xs) auto
qed simp

end

text \<open>
  A comparator that tells two elements apart whenever their keys differ: then a sort of
  elements with distinct keys does not depend on the order they came in.
\<close>

locale keyed_comparator = comparator cmp for cmp :: "'a \<Rightarrow> 'a \<Rightarrow> int" +
  fixes key :: "'a \<Rightarrow> 'k"
  assumes cmp_zero_key: "cmp a b = 0 \<Longrightarrow> key a = key b"
begin

lemma sorted_unique:
  assumes "sorted_wrt (\<lambda>a b. cmp a b \<le> 0) xs" and "sorted_wrt (\<lambda>a b. cmp a b \<le> 0) ys"
    and "mset xs = mset ys" and "inj_on key (set xs)"
  shows "xs = ys"
  using assms
proof (induction xs arbitrary: ys)
  case (Cons x xs)
  then obtain y ys' where ys: "ys = y # ys'" by (cases ys) auto
  have sets: "set (x # xs) = set ys" by (rule mset_eq_setD) (rule Cons.prems)
  have mem: "y = x \<or> y \<in> set xs" "x = y \<or> x \<in> set ys'" using sets ys by auto
  have "cmp x y \<le> 0" using Cons.prems(1) mem(1) cmp_refl by auto
  moreover have "cmp y x \<le> 0" using Cons.prems(2) ys mem(2) cmp_refl by auto
  ultimately have "cmp x y = 0" using cmp_flip [of x y] cmp_flip [of y x] by linarith
  then have "key x = key y" by (rule cmp_zero_key)
  then have xy: "x = y" using Cons.prems(4) sets ys by (auto dest: inj_onD)
  have "xs = ys'"
  proof (rule Cons.IH)
    show "inj_on key (set xs)" using Cons.prems(4) by simp
  qed (use Cons.prems ys xy in auto)
  with xy ys show ?case by simp
qed simp

theorem js_sort_perm:
  "mset xs = mset ys \<Longrightarrow> inj_on key (set xs) \<Longrightarrow> js_sort cmp xs = js_sort cmp ys"
  by (rule sorted_unique) (simp_all add: sorted_js_sort)

end

end
