(* ===== verification/Currencies.thy ===== *)
theory Currencies
  imports Prelude
begin

text \<open>
  \<open>packages/shared/src/currencies.ts\<close>: the ISO 4217 table of minor-unit exponents, in the
  order of the source, the table of ICU's cash-rounding exponents, and the lookup that refuses
  an unknown code. A JavaScript record used as a table is an association list here; the names
  every JavaScript object inherits (\<open>toString\<close> and the like) are not modelled as keys.
\<close>

datatype money_error =
    UnknownCurrency string
  | CurrencyMismatch string string
  | NotWholeUnits
  | DenominatorZero
  | NoWeights
  | NegativeWeight
  | ZeroWeights
  | NotAnAmount string
  | AmbiguousAmount string
  | TooManyDecimals string nat nat

definition CURRENCY_MINOR_UNITS :: "(string \<times> nat) list" where
  "CURRENCY_MINOR_UNITS =
    [(''AED'', 2), (''AFN'', 2), (''ALL'', 2), (''AMD'', 2), (''ANG'', 2),
     (''AOA'', 2), (''ARS'', 2), (''AUD'', 2), (''AWG'', 2), (''AZN'', 2),
     (''BAM'', 2), (''BBD'', 2), (''BDT'', 2), (''BGN'', 2), (''BHD'', 3),
     (''BIF'', 0), (''BMD'', 2), (''BND'', 2), (''BOB'', 2), (''BRL'', 2),
     (''BSD'', 2), (''BTN'', 2), (''BWP'', 2), (''BYN'', 2), (''BZD'', 2),
     (''CAD'', 2), (''CDF'', 2), (''CHF'', 2), (''CLF'', 4), (''CLP'', 0),
     (''CNY'', 2), (''COP'', 2), (''CRC'', 2), (''CUP'', 2), (''CVE'', 2),
     (''CZK'', 2), (''DJF'', 0), (''DKK'', 2), (''DOP'', 2), (''DZD'', 2),
     (''EGP'', 2), (''ERN'', 2), (''ETB'', 2), (''EUR'', 2), (''FJD'', 2),
     (''FKP'', 2), (''GBP'', 2), (''GEL'', 2), (''GHS'', 2), (''GIP'', 2),
     (''GMD'', 2), (''GNF'', 0), (''GTQ'', 2), (''GYD'', 2), (''HKD'', 2),
     (''HNL'', 2), (''HTG'', 2), (''HUF'', 2), (''IDR'', 2), (''ILS'', 2),
     (''INR'', 2), (''IQD'', 3), (''IRR'', 2), (''ISK'', 0), (''JMD'', 2),
     (''JOD'', 3), (''JPY'', 0), (''KES'', 2), (''KGS'', 2), (''KHR'', 2),
     (''KMF'', 0), (''KPW'', 2), (''KRW'', 0), (''KWD'', 3), (''KYD'', 2),
     (''KZT'', 2), (''LAK'', 2), (''LBP'', 2), (''LKR'', 2), (''LRD'', 2),
     (''LSL'', 2), (''LYD'', 3), (''MAD'', 2), (''MDL'', 2), (''MGA'', 2),
     (''MKD'', 2), (''MMK'', 2), (''MNT'', 2), (''MOP'', 2), (''MRU'', 2),
     (''MUR'', 2), (''MVR'', 2), (''MWK'', 2), (''MXN'', 2), (''MYR'', 2),
     (''MZN'', 2), (''NAD'', 2), (''NGN'', 2), (''NIO'', 2), (''NOK'', 2),
     (''NPR'', 2), (''NZD'', 2), (''OMR'', 3), (''PAB'', 2), (''PEN'', 2),
     (''PGK'', 2), (''PHP'', 2), (''PKR'', 2), (''PLN'', 2), (''PYG'', 0),
     (''QAR'', 2), (''RON'', 2), (''RSD'', 2), (''RUB'', 2), (''RWF'', 0),
     (''SAR'', 2), (''SBD'', 2), (''SCR'', 2), (''SDG'', 2), (''SEK'', 2),
     (''SGD'', 2), (''SHP'', 2), (''SLE'', 2), (''SOS'', 2), (''SRD'', 2),
     (''SSP'', 2), (''STN'', 2), (''SVC'', 2), (''SYP'', 2), (''SZL'', 2),
     (''THB'', 2), (''TJS'', 2), (''TMT'', 2), (''TND'', 3), (''TOP'', 2),
     (''TRY'', 2), (''TTD'', 2), (''TWD'', 2), (''TZS'', 2), (''UAH'', 2),
     (''UGX'', 0), (''USD'', 2), (''UYU'', 2), (''UZS'', 2), (''VES'', 2),
     (''VND'', 0), (''VUV'', 0), (''WST'', 2), (''XAF'', 0), (''XCD'', 2),
     (''XOF'', 0), (''XPF'', 0), (''YER'', 2), (''ZAR'', 2), (''ZMW'', 2),
     (''ZWG'', 2)]"

definition CURRENCY_CODES :: "string list" where
  "CURRENCY_CODES = map fst CURRENCY_MINOR_UNITS"

definition ICU_CASH_ROUNDING :: "(string \<times> nat) list" where
  "ICU_CASH_ROUNDING =
    [(''AFN'', 0), (''ALL'', 0), (''COP'', 0), (''HUF'', 0), (''IDR'', 0),
     (''IQD'', 0), (''IRR'', 0), (''KPW'', 0), (''LAK'', 0), (''LBP'', 0),
     (''MGA'', 0), (''MMK'', 0), (''PKR'', 0), (''SOS'', 0), (''SYP'', 0),
     (''YER'', 0)]"

definition isCurrencyCode :: "string \<Rightarrow> bool" where
  "isCurrencyCode value \<longleftrightarrow> map_of CURRENCY_MINOR_UNITS value \<noteq> None"

definition minorUnitsFor :: "string \<Rightarrow> money_error + nat" where
  "minorUnitsFor code =
     (case map_of CURRENCY_MINOR_UNITS code of
        None \<Rightarrow> Inl (UnknownCurrency code)
      | Some units \<Rightarrow> Inr units)"

lemma minorUnitsFor_Inr_iff: "minorUnitsFor c = Inr u \<longleftrightarrow> map_of CURRENCY_MINOR_UNITS c = Some u"
  by (simp add: minorUnitsFor_def split: option.splits)

lemma minorUnitsFor_known: "isCurrencyCode c \<longleftrightarrow> (\<exists>u. minorUnitsFor c = Inr u)"
  by (auto simp: minorUnitsFor_def isCurrencyCode_def split: option.splits)

lemma minorUnitsFor_Inl_iff: "minorUnitsFor c = Inl e \<longleftrightarrow> \<not> isCurrencyCode c \<and> e = UnknownCurrency c"
  by (auto simp: minorUnitsFor_def isCurrencyCode_def split: option.splits)

text \<open>The list of codes is sorted and without repetition, as the comment on it says.\<close>

lemma CURRENCY_CODES_sorted: "sorted_wrt (<) CURRENCY_CODES"
proof -
  have "successively (<) CURRENCY_CODES"
    by (simp add: CURRENCY_CODES_def CURRENCY_MINOR_UNITS_def)
  then show ?thesis by (simp add: successively_conv_sorted_wrt)
qed

lemma CURRENCY_MINOR_UNITS_le_4: "list_all (\<lambda>(c, u). u \<le> 4 \<and> length c = 3) CURRENCY_MINOR_UNITS"
  by (simp add: CURRENCY_MINOR_UNITS_def)

text \<open>
  Every divergence recorded against ICU is about a code of the table, and is a divergence.
\<close>

lemma ICU_CASH_ROUNDING_diverges:
  "list_all (\<lambda>(c, u). case map_of CURRENCY_MINOR_UNITS c of Some v \<Rightarrow> u < v | None \<Rightarrow> False)
     ICU_CASH_ROUNDING"
  by code_simp

lemma minorUnitsFor_EUR [simp]: "minorUnitsFor ''EUR'' = Inr 2"
  by code_simp

end
