(* ===== verification/Money.thy ===== *)
theory Money
  imports Currencies Complex_Main
begin

text \<open>
  \<open>packages/shared/src/money.ts\<close>: amounts as \<open>bigint\<close> minor units (HOL's unbounded \<open>int\<close>) with
  their currency, the arithmetic that refuses a currency mismatch, rounding half to even,
  largest-remainder allocation, and the decimal strings a person reads and types.
  \<open>formatMoney\<close> only calls \<open>Intl.NumberFormat\<close> and is not modelled. A \<open>number\<close> argument is a
  rational (a finite double); white space is the ASCII white space of \<open>\\s\<close>.
\<close>

record money =
  amount :: int
  currency :: string

datatype js_numeric = BigInt int | Number rat

definition money :: "js_numeric \<Rightarrow> string \<Rightarrow> money_error + money" where
  "money a cur =
     bind_res (minorUnitsFor cur) (\<lambda>_.
       case a of
         Number r \<Rightarrow> if r \<notin> \<int> then Inl NotWholeUnits else Inr \<lparr>amount = \<lfloor>r\<rfloor>, currency = cur\<rparr>
       | BigInt n \<Rightarrow> Inr \<lparr>amount = n, currency = cur\<rparr>)"

definition zeroMoney :: "string \<Rightarrow> money_error + money" where
  "zeroMoney cur = money (BigInt 0) cur"

definition assertSameCurrency :: "money \<Rightarrow> money \<Rightarrow> money_error + unit" where
  "assertSameCurrency a b =
     (if currency a \<noteq> currency b then Inl (CurrencyMismatch (currency a) (currency b)) else Inr ())"

definition addMoney :: "money \<Rightarrow> money \<Rightarrow> money_error + money" where
  "addMoney a b = bind_res (assertSameCurrency a b)
     (\<lambda>_. Inr \<lparr>amount = amount a + amount b, currency = currency a\<rparr>)"

definition subtractMoney :: "money \<Rightarrow> money \<Rightarrow> money_error + money" where
  "subtractMoney a b = bind_res (assertSameCurrency a b)
     (\<lambda>_. Inr \<lparr>amount = amount a - amount b, currency = currency a\<rparr>)"

definition negateMoney :: "money \<Rightarrow> money" where
  "negateMoney a = \<lparr>amount = - amount a, currency = currency a\<rparr>"

fun sumMoney_loop :: "int \<Rightarrow> money list \<Rightarrow> string \<Rightarrow> money_error + int" where
  "sumMoney_loop tot [] cur = Inr tot"
| "sumMoney_loop tot (m # ms) cur =
     (if currency m \<noteq> cur then Inl (CurrencyMismatch (currency m) cur)
      else sumMoney_loop (tot + amount m) ms cur)"

definition sumMoney :: "money list \<Rightarrow> string \<Rightarrow> money_error + money" where
  "sumMoney items cur =
     bind_res (sumMoney_loop 0 items cur) (\<lambda>t. Inr \<lparr>amount = t, currency = cur\<rparr>)"

definition compareMoney :: "money \<Rightarrow> money \<Rightarrow> money_error + int" where
  "compareMoney a b = bind_res (assertSameCurrency a b)
     (\<lambda>_. Inr (if amount a < amount b then -1 else if amount a > amount b then 1 else 0))"

definition isZeroMoney :: "money \<Rightarrow> bool" where
  "isZeroMoney a \<longleftrightarrow> amount a = 0"

section \<open>Rounding\<close>

definition multiplyRounded :: "int \<Rightarrow> int \<Rightarrow> int \<Rightarrow> money_error + int" where
  "multiplyRounded amt numerator denominator =
     (if denominator = 0 then Inl DenominatorZero
      else
        let negative = (((amt < 0) \<noteq> (numerator < 0)) \<noteq> (denominator < 0));
            a = (if amt < 0 then - amt else amt);
            n = (if numerator < 0 then - numerator else numerator);
            d = (if denominator < 0 then - denominator else denominator);
            product = a * n;
            quotient = js_quot product d;
            remainder = js_rem product d;
            twice = remainder * 2;
            result = (if twice > d then quotient + 1
                      else if twice = d \<and> js_rem quotient 2 = 1 then quotient + 1
                      else quotient)
        in Inr (if negative then - result else result))"

definition multiplyMoney :: "money \<Rightarrow> int \<Rightarrow> int \<Rightarrow> money_error + money" where
  "multiplyMoney m numerator denominator =
     bind_res (multiplyRounded (amount m) numerator denominator)
       (\<lambda>a. Inr \<lparr>amount = a, currency = currency m\<rparr>)"

section \<open>Allocation\<close>

definition js_trunc :: "rat \<Rightarrow> int" where
  "js_trunc r = (if r < 0 then - \<lfloor>- r\<rfloor> else \<lfloor>r\<rfloor>)"

definition weight_of :: "js_numeric \<Rightarrow> money_error + int" where
  "weight_of x =
     (let b = (case x of BigInt n \<Rightarrow> n | Number r \<Rightarrow> js_trunc r)
      in if b < 0 then Inl NegativeWeight else Inr b)"

record remainder_entry =
  re_index :: nat
  re_remainder :: int

definition compare_remainders :: "remainder_entry \<Rightarrow> remainder_entry \<Rightarrow> int" where
  "compare_remainders a b =
     (if re_remainder a = re_remainder b then int (re_index a) - int (re_index b)
      else if re_remainder a > re_remainder b then -1 else 1)"

fun hand_out :: "int \<Rightarrow> remainder_entry list \<Rightarrow> int list \<Rightarrow> int list" where
  "hand_out leftover [] parts = parts"
| "hand_out leftover (r # rs) parts =
     (if leftover \<le> 0 then parts
      else hand_out (leftover - 1) rs (parts[re_index r := parts ! re_index r + 1]))"

definition allocate_magnitude :: "int \<Rightarrow> int list \<Rightarrow> int list" where
  "allocate_magnitude magnitude w =
     (let total = sum_list w;
          parts = map (\<lambda>x. js_quot (magnitude * x) total) w;
          remainders = map (\<lambda>i. \<lparr>re_index = i, re_remainder = js_rem (magnitude * w ! i) total\<rparr>)
                         [0..<length w];
          distributed = sum_list parts
      in hand_out (magnitude - distributed) (js_sort compare_remainders remainders) parts)"

definition allocate :: "int \<Rightarrow> js_numeric list \<Rightarrow> money_error + int list" where
  "allocate amt weights =
     (if weights = [] then Inl NoWeights
      else bind_res (map_res weight_of weights) (\<lambda>w.
        if sum_list w = 0 then Inl ZeroWeights
        else let negative = amt < 0;
                 magnitude = (if negative then - amt else amt);
                 parts = allocate_magnitude magnitude w
             in Inr (if negative then map uminus parts else parts)))"

definition allocateMoney :: "money \<Rightarrow> js_numeric list \<Rightarrow> money_error + money list" where
  "allocateMoney m weights =
     bind_res (allocate (amount m) weights)
       (\<lambda>as. Inr (map (\<lambda>a. \<lparr>amount = a, currency = currency m\<rparr>) as))"

section \<open>Decimal strings\<close>

definition toDecimalString :: "money \<Rightarrow> money_error + string" where
  "toDecimalString m =
     bind_res (minorUnitsFor (currency m)) (\<lambda>units.
       let negative = amount m < 0;
           digits = pad_start (CHR ''0'') (units + 1)
                      (show_nat (nat (if negative then - amount m else amount m)));
           whole = take (length digits - units) digits;
           fraction = (if units = 0 then [] else CHR ''.'' # drop (length digits - units) digits)
       in Inr ((if negative then ''-'' else []) @ whole @ fraction))"

datatype decimal_separator = SepDot | SepComma | SepAuto

definition is_space :: "char \<Rightarrow> bool" where
  "is_space c \<longleftrightarrow> (of_char c :: nat) \<in> {9, 10, 11, 12, 13, 32}"

definition is_sep :: "char \<Rightarrow> bool" where
  "is_sep c \<longleftrightarrow> c = CHR ''.'' \<or> c = CHR '',''"

text \<open>
  \<open>[0-9]+(?:[.,][0-9]+)*\<close> as a recogniser: the flag says whether a digit came just before.
\<close>

fun amount_body :: "bool \<Rightarrow> string \<Rightarrow> bool" where
  "amount_body p [] = p"
| "amount_body p (c # cs) =
     (if is_digit c then amount_body True cs
      else if is_sep c then p \<and> amount_body False cs
      else False)"

fun last_index :: "char \<Rightarrow> string \<Rightarrow> nat option" where
  "last_index c [] = None"
| "last_index c (x # xs) =
     (case last_index c xs of
        Some i \<Rightarrow> Some (Suc i)
      | None \<Rightarrow> if x = c then Some 0 else None)"

definition max_index :: "nat option \<Rightarrow> nat option \<Rightarrow> nat option" where
  "max_index a b =
     (case (a, b) of (None, j) \<Rightarrow> j | (i, None) \<Rightarrow> i | (Some i, Some j) \<Rightarrow> Some (max i j))"

definition strip_seps :: "string \<Rightarrow> string" where
  "strip_seps s = filter (\<lambda>c. \<not> is_sep c) s"

definition is_grouping ::
    "string \<Rightarrow> nat \<Rightarrow> decimal_separator \<Rightarrow> string \<Rightarrow> char \<Rightarrow> string \<Rightarrow> bool \<Rightarrow> money_error + bool" where
  "is_grouping input units separator head sepChar tail both =
     (if sepChar \<in> set head then Inr True
      else if both then Inr False
      else if separator \<noteq> SepAuto
        then Inr (sepChar \<noteq> (if separator = SepDot then CHR ''.'' else CHR '',''))
      else if length tail = 3 \<and> units \<noteq> 3 then Inl (AmbiguousAmount input)
      else Inr False)"

definition split_amount ::
    "string \<Rightarrow> nat \<Rightarrow> decimal_separator \<Rightarrow> string \<Rightarrow> money_error + string \<times> string" where
  "split_amount input units separator body =
     (let dot = last_index (CHR ''.'') body;
          comma = last_index (CHR '','') body
      in case max_index dot comma of
           None \<Rightarrow> Inr (body, [])
         | Some lastSep \<Rightarrow>
             let sepChar = body ! lastSep;
                 tail = drop (lastSep + 1) body;
                 head = take lastSep body;
                 bothKindsPresent = (dot \<noteq> None \<and> comma \<noteq> None)
             in bind_res (is_grouping input units separator head sepChar tail bothKindsPresent)
                  (\<lambda>g. Inr (if g then (strip_seps body, []) else (strip_seps head, tail))))"

definition parseMoney :: "string \<Rightarrow> string \<Rightarrow> decimal_separator \<Rightarrow> money_error + money" where
  "parseMoney input cur separator =
     bind_res (minorUnitsFor cur) (\<lambda>units.
       let cleaned = filter (\<lambda>c. \<not> is_space c) input;
           negative = (cleaned \<noteq> [] \<and> hd cleaned = CHR ''-'');
           body = (if negative then tl cleaned else cleaned)
       in if \<not> amount_body False body then Inl (NotAnAmount input)
          else bind_res (split_amount input units separator body) (\<lambda>(whole, fraction).
            if length fraction > units then Inl (TooManyDecimals input (length fraction) units)
            else let padded = pad_end (CHR ''0'') units fraction;
                     magnitude = int (digits_val ((if whole = [] then ''0'' else whole) @ padded))
                 in Inr \<lparr>amount = (if negative then - 1 else 1) * magnitude, currency = cur\<rparr>))"

section \<open>Arithmetic refuses a currency mismatch and is exact otherwise\<close>

lemma assertSameCurrency_Inr [simp]: "assertSameCurrency a b = Inr u \<longleftrightarrow> currency a = currency b"
  by (simp add: assertSameCurrency_def)

lemma addMoney_Inr_iff:
  "addMoney a b = Inr c \<longleftrightarrow>
     currency a = currency b \<and> c = \<lparr>amount = amount a + amount b, currency = currency a\<rparr>"
  by (auto simp: addMoney_def bind_res_Inr_iff)

lemma subtractMoney_Inr_iff:
  "subtractMoney a b = Inr c \<longleftrightarrow>
     currency a = currency b \<and> c = \<lparr>amount = amount a - amount b, currency = currency a\<rparr>"
  by (auto simp: subtractMoney_def bind_res_Inr_iff)

lemma add_negate: "addMoney a (negateMoney b) = subtractMoney a b"
  by (simp add: addMoney_def subtractMoney_def negateMoney_def assertSameCurrency_def)

lemma sumMoney_loop_Inr:
  "sumMoney_loop t ms cur = Inr r \<longleftrightarrow>
     (\<forall>m \<in> set ms. currency m = cur) \<and> r = t + (\<Sum>m \<leftarrow> ms. amount m)"
  by (induction t ms cur rule: sumMoney_loop.induct) (auto simp: add.assoc)

lemma sumMoney_Inr_iff:
  "sumMoney ms cur = Inr r \<longleftrightarrow>
     (\<forall>m \<in> set ms. currency m = cur) \<and> r = \<lparr>amount = (\<Sum>m \<leftarrow> ms. amount m), currency = cur\<rparr>"
  by (auto simp: sumMoney_def bind_res_Inr_iff sumMoney_loop_Inr)

section \<open>Rounding half to even\<close>

text \<open>What rounding a quotient half to even means, without the algorithm.\<close>

definition half_even :: "int \<Rightarrow> int \<Rightarrow> int \<Rightarrow> bool" where
  "half_even p d r \<longleftrightarrow> 2 * \<bar>r * d - p\<bar> \<le> \<bar>d\<bar> \<and> (2 * \<bar>r * d - p\<bar> = \<bar>d\<bar> \<longrightarrow> even r)"

lemma half_even_magnitude:
  fixes p d :: int
  assumes "0 \<le> p" and "0 < d"
  defines "q \<equiv> p div d" and "m \<equiv> p mod d"
  shows "half_even p d (if m * 2 > d then q + 1 else if m * 2 = d \<and> q mod 2 = 1 then q + 1 else q)"
proof -
  have p: "p = q * d + m" by (simp add: q_def m_def)
  have m: "0 \<le> m" "m < d" using assms by (simp_all add: m_def)
  have up: "(q + 1) * d - p = d - m" using p by (simp add: algebra_simps)
  have dn: "q * d - p = - m" using p by simp
  consider "m * 2 > d" | "m * 2 = d" "q mod 2 = 1" | "m * 2 = d" "q mod 2 \<noteq> 1" | "m * 2 < d"
    by linarith
  then show ?thesis
  proof cases
    case 1 then show ?thesis using m assms(2) by (simp add: half_even_def up)
  next
    case 2 then have "even (q + 1)" by presburger
    with 2 show ?thesis using m assms(2) by (simp add: half_even_def up)
  next
    case 3 then have "even q" by presburger
    with 3 show ?thesis using m assms(2) by (simp add: half_even_def dn)
  next
    case 4 then show ?thesis using m assms(2) by (simp add: half_even_def dn)
  qed
qed

lemma half_even_sign:
  assumes "half_even (\<bar>a\<bar> * \<bar>n\<bar>) \<bar>d\<bar> r" and "a = 0 \<or> n = 0 \<Longrightarrow> r = 0"
  shows "half_even (a * n) d (if ((a < 0) \<noteq> (n < 0)) \<noteq> (d < 0) then - r else r)"
proof (cases "a = 0 \<or> n = 0")
  case True
  with assms(2) have "r = 0" by simp
  with True show ?thesis by (auto simp: half_even_def)
next
  case False
  let ?r = "if ((a < 0) \<noteq> (n < 0)) \<noteq> (d < 0) then - r else r"
  have "\<bar>?r * d - a * n\<bar> = \<bar>r * \<bar>d\<bar> - \<bar>a\<bar> * \<bar>n\<bar>\<bar>"
    using False by (auto simp: abs_if algebra_simps)
  moreover have "even ?r \<longleftrightarrow> even r" by simp
  ultimately show ?thesis using assms(1) unfolding half_even_def by simp
qed

lemma multiplyRounded_half_even:
  assumes "multiplyRounded a n d = Inr r"
  shows "half_even (a * n) d r"
proof -
  from assms have d: "d \<noteq> 0" by (auto simp: multiplyRounded_def)
  let ?p = "\<bar>a\<bar> * \<bar>n\<bar>" let ?q = "?p div \<bar>d\<bar>" let ?m = "?p mod \<bar>d\<bar>"
  let ?R = "if ?m * 2 > \<bar>d\<bar> then ?q + 1 else if ?m * 2 = \<bar>d\<bar> \<and> ?q mod 2 = 1 then ?q + 1 else ?q"
  have abs: "(if x < 0 then - x else x) = \<bar>x\<bar>" for x :: int by simp
  have p0: "0 \<le> ?p" and d0: "0 < \<bar>d\<bar>" using d by simp_all
  have q2: "js_rem ?q 2 = ?q mod 2"
    using p0 d0 by (simp add: js_rem_nonneg pos_imp_zdiv_nonneg_iff)
  from assms d have "r = (if ((a < 0) \<noteq> (n < 0)) \<noteq> (d < 0) then - ?R else ?R)"
    by (simp only: multiplyRounded_def Let_def abs js_quot_nonneg [OF p0 d0] js_rem_nonneg [OF p0 d0]
        q2 if_False sum.inject)
  moreover have "half_even ?p \<bar>d\<bar> ?R" using p0 d0 by (rule half_even_magnitude)
  moreover have "?R = 0" if "a = 0 \<or> n = 0" using that by auto
  ultimately show ?thesis using half_even_sign [of a n d ?R] by simp
qed

lemma half_even_unique:
  assumes d: "d \<noteq> 0" and r: "half_even p d r" and s: "half_even p d s"
  shows "r = s"
proof (rule ccontr)
  assume "r \<noteq> s"
  have "\<bar>(r - s) * d\<bar> = \<bar>(r * d - p) - (s * d - p)\<bar>" by (simp add: algebra_simps)
  also have "\<dots> \<le> \<bar>r * d - p\<bar> + \<bar>s * d - p\<bar>" by (rule abs_triangle_ineq4)
  finally have le: "\<bar>r - s\<bar> * \<bar>d\<bar> \<le> \<bar>r * d - p\<bar> + \<bar>s * d - p\<bar>" by (simp add: abs_mult)
  have bnd: "2 * \<bar>r * d - p\<bar> \<le> \<bar>d\<bar>" "2 * \<bar>s * d - p\<bar> \<le> \<bar>d\<bar>"
    using r s by (simp_all add: half_even_def)
  have one: "1 \<le> \<bar>r - s\<bar>" using \<open>r \<noteq> s\<close> by linarith
  then have ge: "\<bar>d\<bar> \<le> \<bar>r - s\<bar> * \<bar>d\<bar>" by (simp add: mult_le_cancel_right1)
  from le bnd ge have ties: "2 * \<bar>r * d - p\<bar> = \<bar>d\<bar>" "2 * \<bar>s * d - p\<bar> = \<bar>d\<bar>"
    and "\<bar>r - s\<bar> * \<bar>d\<bar> = \<bar>d\<bar>" by linarith+
  then have "\<bar>r - s\<bar> = 1" using d by simp
  moreover have "even r" "even s" using r s ties by (simp_all add: half_even_def)
  ultimately show False by presburger
qed

section \<open>Allocation\<close>

interpretation remainders: keyed_comparator compare_remainders re_index
  by unfold_locales (auto simp: compare_remainders_def split: if_splits)

lemma length_hand_out [simp]: "length (hand_out l rs ps) = length ps"
  by (induction l rs ps rule: hand_out.induct) auto

text \<open>The units handed out go, one each, to the first \<open>leftover\<close> entries of the order.\<close>

lemma hand_out_nth:
  assumes "distinct (map re_index rs)" and "\<forall>r \<in> set rs. re_index r < length ps"
    and "i < length ps"
  shows "hand_out l rs ps ! i =
           ps ! i + (if i \<in> re_index ` set (take (nat l) rs) then 1 else 0)"
  using assms
proof (induction l rs ps rule: hand_out.induct)
  case (2 l r rs ps)
  show ?case
  proof (cases "l \<le> 0")
    case False
    then have n: "nat l = Suc (nat (l - 1))" by simp
    have "hand_out (l - 1) rs (ps[re_index r := ps ! re_index r + 1]) ! i =
        ps[re_index r := ps ! re_index r + 1] ! i
          + (if i \<in> re_index ` set (take (nat (l - 1)) rs) then 1 else 0)"
      using 2 False by simp
    moreover have "re_index r \<notin> re_index ` set (take (nat (l - 1)) rs)"
      using "2.prems"(1) by (auto dest: in_set_takeD)
    ultimately show ?thesis using False n "2.prems"(3)
      by (cases "i = re_index r") auto
  qed simp
qed simp

lemma sum_list_update_int:
  fixes xs :: "int list"
  shows "k < length xs \<Longrightarrow> sum_list (xs[k := x]) = sum_list xs + x - xs ! k"
  by (induction xs arbitrary: k) (auto split: nat.split)

lemma hand_out_sum:
  assumes "\<forall>r \<in> set rs. re_index r < length ps" and "0 \<le> l" and "l \<le> int (length rs)"
  shows "sum_list (hand_out l rs ps) = sum_list ps + l"
  using assms
proof (induction l rs ps rule: hand_out.induct)
  case (2 l r rs ps)
  have "sum_list (ps[re_index r := ps ! re_index r + 1]) = sum_list ps + 1"
    using "2.prems"(1) by (simp add: sum_list_update_int)
  with 2 show ?case by (cases "l \<le> 0") auto
qed simp

definition remainder_entries :: "int \<Rightarrow> int list \<Rightarrow> remainder_entry list" where
  "remainder_entries mag w =
     map (\<lambda>i. \<lparr>re_index = i, re_remainder = (mag * w ! i) mod sum_list w\<rparr>) [0..<length w]"

lemma allocate_magnitude_mod:
  assumes "0 \<le> mag" and "\<forall>x \<in> set w. 0 \<le> x" and "0 < sum_list w"
  shows "allocate_magnitude mag w =
    hand_out (mag - (\<Sum>x \<leftarrow> w. mag * x div sum_list w))
      (js_sort compare_remainders (remainder_entries mag w)) (map (\<lambda>x. mag * x div sum_list w) w)"
proof -
  have q: "js_quot (mag * x) (sum_list w) = mag * x div sum_list w" if "x \<in> set w" for x
    using that assms by (simp add: js_quot_nonneg)
  have "map (\<lambda>x. js_quot (mag * x) (sum_list w)) w = map (\<lambda>x. mag * x div sum_list w) w"
    using q by simp
  moreover have "map (\<lambda>i. \<lparr>re_index = i, re_remainder = js_rem (mag * w ! i) (sum_list w)\<rparr>) [0..<length w]
      = remainder_entries mag w"
    unfolding remainder_entries_def
    by (rule map_cong) (use assms in \<open>simp_all add: js_rem_nonneg\<close>)
  ultimately show ?thesis
    by (simp add: allocate_magnitude_def Let_def cong: map_cong)
qed

text \<open>
  What is left after the floors is the sum of the remainders divided by the total weight; it is
  less than the number of parts, and every unit of it finds a part with a positive remainder.
\<close>

lemma leftover_remainders:
  fixes mag :: int and w :: "int list"
  assumes "0 < sum_list w"
  shows "(mag - (\<Sum>x \<leftarrow> w. mag * x div sum_list w)) * sum_list w
           = (\<Sum>x \<leftarrow> w. (mag * x) mod sum_list w)"
proof -
  let ?t = "sum_list w"
  have "(\<Sum>x \<leftarrow> v. mag * x) = (\<Sum>x \<leftarrow> v. mag * x div ?t) * ?t + (\<Sum>x \<leftarrow> v. (mag * x) mod ?t)" for v
    by (induction v) (simp_all add: algebra_simps)
  from this [of w] have "mag * ?t = (\<Sum>x \<leftarrow> w. mag * x div ?t) * ?t + (\<Sum>x \<leftarrow> w. (mag * x) mod ?t)"
    by (simp add: sum_list_const_mult)
  then show ?thesis by (simp add: left_diff_distrib)
qed

lemma sum_remainder_bound:
  fixes t :: int
  assumes "0 < t" and "\<forall>x \<in> set xs. 0 \<le> x \<and> x < t"
  shows "0 \<le> sum_list xs" and "sum_list xs \<le> int (length (filter (\<lambda>x. x \<noteq> 0) xs)) * (t - 1)"
  using assms by (induction xs) (auto simp: algebra_simps)

lemma leftover_bounds:
  fixes mag :: int and w :: "int list"
  assumes t: "0 < sum_list w"
  defines "l \<equiv> mag - (\<Sum>x \<leftarrow> w. mag * x div sum_list w)"
  defines "k \<equiv> length (filter (\<lambda>x. (mag * x) mod sum_list w \<noteq> 0) w)"
  shows "0 \<le> l" and "l \<le> int k" and "l \<le> int (length w)"
proof -
  let ?rs = "map (\<lambda>x. (mag * x) mod sum_list w) w"
  have rng: "\<forall>x \<in> set ?rs. 0 \<le> x \<and> x < sum_list w" using t by auto
  have k: "length (filter (\<lambda>x. x \<noteq> 0) ?rs) = k" by (simp add: k_def filter_map comp_def)
  have l: "l * sum_list w = sum_list ?rs" using leftover_remainders [OF t] by (simp add: l_def)
  show "0 \<le> l"
    using sum_remainder_bound(1) [OF t rng] l t by (metis zero_le_mult_iff not_less)
  have "l * sum_list w \<le> int k * (sum_list w - 1)"
    using sum_remainder_bound(2) [OF t rng] l k by simp
  also have "\<dots> \<le> int k * sum_list w" by (simp add: algebra_simps)
  finally show "l \<le> int k" using t by simp
  moreover have "k \<le> length w" by (simp add: k_def)
  ultimately show "l \<le> int (length w)" by linarith
qed

lemma length_allocate_magnitude [simp]: "length (allocate_magnitude mag w) = length w"
  by (simp add: allocate_magnitude_def Let_def)

lemma remainder_entries_index: "r \<in> set (remainder_entries mag w) \<Longrightarrow> re_index r < length w"
  by (auto simp: remainder_entries_def)

lemma map_re_index_entries: "map re_index (remainder_entries mag w) = [0..<length w]"
  by (simp add: remainder_entries_def comp_def)

lemma distinct_sorted_entries:
  "distinct (map re_index (js_sort compare_remainders (remainder_entries mag w)))"
proof -
  have "mset (map re_index (js_sort compare_remainders (remainder_entries mag w)))
      = mset [0..<length w]"
    by (simp flip: map_re_index_entries [of mag w])
  then show ?thesis by (metis distinct_upt mset_eq_imp_distinct_iff)
qed

lemma allocate_magnitude_sum:
  assumes "0 \<le> mag" and "\<forall>x \<in> set w. 0 \<le> x" and "0 < sum_list w"
  shows "sum_list (allocate_magnitude mag w) = mag"
proof -
  have "length (remainder_entries mag w) = length w" by (simp add: remainder_entries_def)
  then show ?thesis
    using assms leftover_bounds(1,3) [OF assms(3), of mag]
    by (subst allocate_magnitude_mod) (simp_all add: hand_out_sum remainder_entries_index)
qed

lemma prefix_nonzero:
  assumes srt: "sorted_wrt (\<lambda>a b. compare_remainders a b \<le> 0) S"
    and nn: "\<forall>r \<in> set S. 0 \<le> re_remainder r"
    and k: "n \<le> length (filter (\<lambda>r. re_remainder r \<noteq> 0) S)"
    and r: "r \<in> set (take n S)"
  shows "re_remainder r \<noteq> 0"
proof
  assume z: "re_remainder r = 0"
  from r obtain j where j: "j < n" "j < length S" "r = S ! j" by (auto simp: in_set_conv_nth)
  have "filter (\<lambda>r. re_remainder r \<noteq> 0) (drop j S) = []"
  proof (rule filter_False, rule ballI)
    fix x assume "x \<in> set (drop j S)"
    then obtain i where i: "x = S ! (j + i)" "j + i < length S" by (auto simp: in_set_conv_nth)
    have "re_remainder x \<le> re_remainder (S ! j)"
      using sorted_wrt_nth_less [OF srt, of j "j + i"] i
      by (cases "i = 0") (auto simp: compare_remainders_def split: if_splits)
    moreover have "0 \<le> re_remainder x" using nn i by simp
    ultimately show "\<not> re_remainder x \<noteq> 0" using z j by simp
  qed
  then have "filter (\<lambda>r. re_remainder r \<noteq> 0) S = filter (\<lambda>r. re_remainder r \<noteq> 0) (take j S)"
    by (metis append_Nil2 append_take_drop_id filter_append)
  then have "length (filter (\<lambda>r. re_remainder r \<noteq> 0) S) \<le> j"
    by (metis length_filter_le length_take le_trans min.cobounded2)
  with k j show False by simp
qed

lemma nonzero_entries_count:
  "length (filter (\<lambda>r. re_remainder r \<noteq> 0) (js_sort compare_remainders (remainder_entries mag w)))
     = length (filter (\<lambda>x. (mag * x) mod sum_list w \<noteq> 0) w)"
proof -
  let ?P = "\<lambda>r. re_remainder r \<noteq> 0"
  have "size (filter_mset ?P (mset (js_sort compare_remainders (remainder_entries mag w))))
      = size (filter_mset ?P (mset (remainder_entries mag w)))" by simp
  then have "length (filter ?P (js_sort compare_remainders (remainder_entries mag w)))
      = length (filter ?P (remainder_entries mag w))"
    by (simp only: mset_filter [symmetric] size_mset)
  also have "\<dots> = length (filter (\<lambda>x. x \<noteq> 0) (map re_remainder (remainder_entries mag w)))"
    by (simp add: filter_map comp_def)
  also have "map re_remainder (remainder_entries mag w) = map (\<lambda>x. (mag * x) mod sum_list w) w"
    by (rule nth_equalityI) (simp_all add: remainder_entries_def)
  finally show ?thesis by (simp add: filter_map comp_def)
qed

lemma allocate_magnitude_quota:
  assumes "0 \<le> mag" and "\<forall>x \<in> set w. 0 \<le> x" and t: "0 < sum_list w" and i: "i < length w"
  shows "allocate_magnitude mag w ! i = mag * w ! i div sum_list w \<or>
         allocate_magnitude mag w ! i = mag * w ! i div sum_list w + 1 \<and>
           (mag * w ! i) mod sum_list w \<noteq> 0"
proof -
  let ?S = "js_sort compare_remainders (remainder_entries mag w)"
  let ?l = "mag - (\<Sum>x \<leftarrow> w. mag * x div sum_list w)"
  have nth: "allocate_magnitude mag w ! i = mag * w ! i div sum_list w
      + (if i \<in> re_index ` set (take (nat ?l) ?S) then 1 else 0)"
    using assms distinct_sorted_entries [of mag w]
    by (simp add: allocate_magnitude_mod hand_out_nth remainder_entries_index)
  have n: "nat ?l \<le> length (filter (\<lambda>r. re_remainder r \<noteq> 0) ?S)"
    using leftover_bounds(1,2) [OF t, of mag] by (simp add: nonzero_entries_count)
  have nn: "\<forall>r \<in> set ?S. 0 \<le> re_remainder r"
    using t by (auto simp: remainder_entries_def)
  have "(mag * w ! i) mod sum_list w \<noteq> 0" if "i \<in> re_index ` set (take (nat ?l) ?S)"
  proof -
    from that obtain r where r: "r \<in> set (take (nat ?l) ?S)" "i = re_index r" by auto
    then have "r \<in> set (remainder_entries mag w)" by (metis in_set_takeD set_js_sort)
    then have "re_remainder r = (mag * w ! i) mod sum_list w"
      using r(2) by (auto simp: remainder_entries_def)
    with prefix_nonzero [OF remainders.sorted_js_sort nn n r(1)] show ?thesis by simp
  qed
  with nth show ?thesis by auto
qed

text \<open>The accepted weights, and what \<open>allocate\<close> answers for each input.\<close>

definition weight_value :: "js_numeric \<Rightarrow> int" where
  "weight_value x = (case x of BigInt n \<Rightarrow> n | Number r \<Rightarrow> js_trunc r)"

lemma weight_of_Inr: "weight_of x = Inr b \<longleftrightarrow> 0 \<le> weight_value x \<and> b = weight_value x"
  by (auto simp: weight_of_def weight_value_def Let_def)

lemma map_weight_of_Inr:
  "map_res weight_of ws = Inr bs \<longleftrightarrow>
     (\<forall>x \<in> set ws. 0 \<le> weight_value x) \<and> bs = map weight_value ws"
  by (induction ws arbitrary: bs) (auto simp: bind_res_Inr_iff weight_of_Inr)

lemma allocate_Inr_iff:
  "allocate a ws = Inr ps \<longleftrightarrow>
     ws \<noteq> [] \<and> (\<forall>x \<in> set ws. 0 \<le> weight_value x) \<and> sum_list (map weight_value ws) \<noteq> 0 \<and>
     ps = (if a < 0 then map uminus (allocate_magnitude \<bar>a\<bar> (map weight_value ws))
           else allocate_magnitude \<bar>a\<bar> (map weight_value ws))"
  by (auto simp: allocate_def bind_res_Inr_iff map_weight_of_Inr Let_def)

lemma sum_list_uminus: "sum_list (map uminus xs) = - sum_list (xs :: int list)"
  by (induction xs) simp_all

lemma weights_pos:
  assumes "\<forall>x \<in> set ws. 0 \<le> weight_value x" and "sum_list (map weight_value ws) \<noteq> 0"
  shows "\<forall>x \<in> set (map weight_value ws). 0 \<le> x" and "0 < sum_list (map weight_value ws)"
proof -
  show w: "\<forall>x \<in> set (map weight_value ws). 0 \<le> x" using assms(1) by auto
  have "0 \<le> sum_list (map weight_value ws)" using w by (intro sum_list_nonneg) auto
  with assms(2) show "0 < sum_list (map weight_value ws)" by simp
qed

section \<open>Printing and parsing\<close>

lemma is_digit_not_sep: "is_digit c \<Longrightarrow> \<not> is_sep c"
  by (auto simp: is_digit_def is_sep_def)

lemma is_digit_not_space: "is_digit c \<Longrightarrow> \<not> is_space c"
  by (auto simp: is_digit_def is_space_def)

lemma amount_body_digits:
  "list_all is_digit s \<Longrightarrow> amount_body p (s @ t) = amount_body (p \<or> s \<noteq> []) t"
  by (induction s arbitrary: p) auto

lemma amount_body_all_digits: "list_all is_digit s \<Longrightarrow> amount_body False s \<longleftrightarrow> s \<noteq> []"
  using amount_body_digits [of s False "[]"] by simp

lemma last_index_None_iff: "last_index c s = None \<longleftrightarrow> c \<notin> set s"
  by (induction s) (auto split: option.splits)

lemma last_index_middle: "c \<notin> set t \<Longrightarrow> last_index c (s @ c # t) = Some (length s)"
  by (induction s) (auto split: option.splits simp: last_index_None_iff)

lemma strip_seps_digits: "list_all is_digit s \<Longrightarrow> strip_seps s = s"
  by (induction s) (auto simp: strip_seps_def is_digit_not_sep)

lemma digit_notin: "list_all is_digit s \<Longrightarrow> \<not> is_digit c \<Longrightarrow> c \<notin> set s"
  by (auto simp: list_all_iff)

lemma seps_not_digit [simp]: "\<not> is_digit (CHR ''.'')" "\<not> is_digit (CHR '','')"
  by (simp_all add: is_digit_def)

lemma split_amount_whole:
  "list_all is_digit s \<Longrightarrow> split_amount input units sep s = Inr (s, [])"
proof -
  assume "list_all is_digit s"
  then have "last_index (CHR ''.'') s = None" "last_index (CHR '','') s = None"
    by (simp_all add: last_index_None_iff digit_notin)
  then show ?thesis by (simp add: split_amount_def max_index_def)
qed

lemma split_amount_fraction:
  assumes w: "list_all is_digit w" and f: "list_all is_digit f"
    and len: "length f = units" and sep: "sep \<noteq> SepComma"
  shows "split_amount input units sep (w @ CHR ''.'' # f) = Inr (w, f)"
proof -
  have dot: "last_index (CHR ''.'') (w @ CHR ''.'' # f) = Some (length w)"
    using f by (simp add: last_index_middle digit_notin)
  have comma: "last_index (CHR '','') (w @ CHR ''.'' # f) = None"
    using w f by (simp add: last_index_None_iff digit_notin)
  have "is_grouping input units sep w (CHR ''.'') f False = Inr False"
    using w len sep by (cases sep) (simp_all add: is_grouping_def digit_notin)
  then show ?thesis
    using w by (simp add: split_amount_def dot comma max_index_def strip_seps_digits)
qed

lemma sep_not_space [simp]: "\<not> is_space (CHR ''.'')" "\<not> is_space (CHR ''-'')"
  by (simp_all add: is_space_def)

lemma filter_no_space: "\<forall>c \<in> set s. \<not> is_space c \<Longrightarrow> filter (\<lambda>c. \<not> is_space c) s = s"
  by (simp add: filter_id_conv)

lemma parse_body:
  assumes u: "minorUnitsFor cur = Inr units"
    and w: "list_all is_digit w" "w \<noteq> []" and f: "list_all is_digit f"
    and len: "length f = units" and sep: "sep \<noteq> SepComma"
    and body: "body = w @ (if units = 0 then [] else CHR ''.'' # f)"
    and sign: "pre = (if neg then ''-'' else [])"
  shows "parseMoney (pre @ body) cur sep =
           Inr \<lparr>amount = (if neg then - 1 else 1) * int (digits_val (w @ f)), currency = cur\<rparr>"
proof -
  have "\<forall>c \<in> set (pre @ body). \<not> is_space c"
    using w(1) f is_digit_not_space sep_not_space
    by (auto simp: sign body list_all_iff split: if_splits)
  then have cl: "filter (\<lambda>c. \<not> is_space c) (pre @ body) = pre @ body" by (rule filter_no_space)
  have ne: "body \<noteq> []" "hd body \<noteq> CHR ''-''"
    using w minus_not_digit by (cases w; auto simp: body)+
  have neg: "(pre @ body \<noteq> [] \<and> hd (pre @ body) = CHR ''-'') = neg"
    using ne by (simp add: sign)
  have rest: "(if neg then tl (pre @ body) else pre @ body) = body" by (simp add: sign)
  have ok: "amount_body False body"
    using w f len by (cases "units = 0")
      (auto simp: body amount_body_digits amount_body_all_digits is_sep_def)
  have sp: "split_amount (pre @ body) units sep body = Inr (w, f)"
    using w f len sep by (cases "units = 0") (simp_all add: body split_amount_whole split_amount_fraction)
  show ?thesis
    unfolding parseMoney_def u bind_res.simps Let_def cl neg rest sp
    using w(2) len by (simp add: ok pad_end_def)
qed

lemma show_nat_list_all: "list_all is_digit (show_nat n)"
  by (auto simp: list_all_iff intro: show_nat_digits)

lemma toDecimalString_shape:
  assumes u: "minorUnitsFor (currency m) = Inr units"
  obtains w f where "list_all is_digit w" "w \<noteq> []" "list_all is_digit f" "length f = units"
    "digits_val (w @ f) = nat \<bar>amount m\<bar>"
    "toDecimalString m = Inr ((if amount m < 0 then ''-'' else [])
       @ w @ (if units = 0 then [] else CHR ''.'' # f))"
proof -
  let ?n = "nat (if amount m < 0 then - amount m else amount m)"
  let ?d = "pad_start (CHR ''0'') (units + 1) (show_nat ?n)"
  let ?w = "take (length ?d - units) ?d" and ?f = "drop (length ?d - units) ?d"
  have n: "?n = nat \<bar>amount m\<bar>" by simp
  have d: "list_all is_digit ?d"
    using show_nat_list_all by (auto simp: pad_start_def list_all_iff)
  have len: "units < length ?d" by simp
  show thesis
  proof (rule that [of ?w ?f])
    show "list_all is_digit ?w" "list_all is_digit ?f"
      using d by (auto simp: list_all_iff dest: in_set_takeD in_set_dropD)
    have "?d \<noteq> []" using len by (metis less_nat_zero_code list.size(3))
    with len show "?w \<noteq> []" "length ?f = units" by auto
    show "digits_val (?w @ ?f) = nat \<bar>amount m\<bar>"
      by (simp only: append_take_drop_id digits_val_pad_start digits_val_show_nat n)
    show "toDecimalString m = Inr ((if amount m < 0 then ''-'' else [])
       @ ?w @ (if units = 0 then [] else CHR ''.'' # ?f))"
      using u by (simp add: toDecimalString_def Let_def)
  qed
qed

lemma decimal_round_trip:
  assumes m: "isCurrencyCode (currency m)" and sep: "sep \<noteq> SepComma"
  obtains s where "toDecimalString m = Inr s" and "parseMoney s (currency m) sep = Inr m"
proof -
  from m obtain u where u: "minorUnitsFor (currency m) = Inr u" by (auto simp: minorUnitsFor_known)
  obtain w f where wf: "list_all is_digit w" "w \<noteq> []" "list_all is_digit f" "length f = u"
    "digits_val (w @ f) = nat \<bar>amount m\<bar>"
    and s: "toDecimalString m = Inr ((if amount m < 0 then ''-'' else [])
       @ w @ (if u = 0 then [] else CHR ''.'' # f))"
    by (rule toDecimalString_shape [OF u])
  from parse_body [OF u wf(1-4) sep refl refl, of "amount m < 0"]
  have "parseMoney ((if amount m < 0 then ''-'' else []) @ w @ (if u = 0 then [] else CHR ''.'' # f))
      (currency m) sep = Inr m"
    by (simp add: wf(5) split: if_splits)
  with s show thesis by (rule that)
qed

end
