(* ===== verification/Policy_Types.thy ===== *)
theory Policy_Types
  imports Money
begin

text \<open>
  \<open>packages/circ-policy/src/types.ts\<close>: the vocabulary of circulation policy. Object types are
  records (a type that extends another by intersection is a record extension, so functions over
  the smaller one apply to both), string unions are datatypes, \<open>T | null\<close> and optional fields
  are \<open>option\<close>, \<open>number\<close> fields that hold counts, minutes and days are \<open>int\<close>, instants
  (\<open>Date\<close>) are \<open>int\<close> milliseconds since 1970-01-01T00:00:00Z, and tables keyed by id are partial
  maps. A thrown \<open>PolicyResolutionError\<close> is its code and its subject; its message is not kept.
\<close>

type_synonym instant = int

section \<open>Durations, dates, times\<close>

datatype duration_unit = Minutes | Hours | Days | Weeks | Months

record duration =
  dur_value :: int
  dur_unit :: duration_unit

record money_json =
  minorUnits :: int
  mj_currency :: string

record civil_date =
  year :: int
  month :: int
  day :: int

record civil_date_time = civil_date +
  hour :: int
  minute :: int
  second :: int

record time_of_day =
  tod_hour :: int
  tod_minute :: int

section \<open>Calendars\<close>

record opening_interval =
  iv_open :: int
  iv_close :: int

record day_hours =
  weekday :: int
  dh_intervals :: "opening_interval list"

record calendar_exception =
  ex_date :: civil_date
  ex_intervals :: "opening_interval list"
  ex_name :: string

record calendar =
  cal_id :: string
  timezone :: string
  weekly :: "day_hours list"
  exceptions :: "calendar_exception list"
  definedFrom :: civil_date
  definedTo :: civil_date

section \<open>Rules\<close>

record rule_selectors =
  rs_patronCategoryId :: "string option"
  rs_itemTypeId :: "string option"
  rs_owningBranchId :: "string option"
  rs_shelvingLocationId :: "string option"
  rs_checkoutBranchId :: "string option"
  rs_pickupBranchId :: "string option"

datatype selector_name =
  PatronCategoryId | ItemTypeId | OwningBranchId | ShelvingLocationId | CheckoutBranchId | PickupBranchId

record circulation_rule = rule_selectors +
  rule_id :: string
  rule_name :: string
  loanPolicyId :: string
  overdueFinePolicyId :: string
  lostItemFeePolicyId :: string
  holdPolicyId :: string
  noticePolicyId :: string
  maxLoansForRule :: "int option"
  maxHoldsForRule :: "int option"
  ageRestrictionMinYears :: "int option"
  priority :: int
  enabled :: bool
  effectiveFrom :: "string option"
  effectiveTo :: "string option"

section \<open>The five policies\<close>

datatype loan_profile = Rolling | Fixed | Indefinite

datatype closed_day_handling =
  Keep | EndOfPreviousOpenDay | StartOfNextOpenDay | EndOfNextOpenDay | EndOfCurrentOpenHours

datatype renew_from = CurrentDueDate | SystemDate
datatype relative_to = DueDate | Now

record loan_policy =
  lp_id :: string
  lp_name :: string
  loanable :: bool
  profile :: loan_profile
  period :: "duration option"
  fixedDueDateSetId :: "string option"
  dueTimeOfDay :: "time_of_day option"
  closedDayHandling :: closed_day_handling
  openingTimeOffset :: "duration option"
  maxPeriod :: "duration option"
  renewable :: bool
  renewalsAllowed :: "int option"
  renewalPeriod :: "duration option"
  renewFrom :: renew_from
  noRenewalBefore :: "duration option"
  noRenewalBeforeRelativeTo :: relative_to
  renewWithOutstandingHolds :: bool
  alternateCheckoutPeriodWithHolds :: "duration option"
  alternateRenewalPeriodWithHolds :: "duration option"
  itemLimitForPolicy :: "int option"

datatype charge_at = IntervalEnd | IntervalStart
datatype forgive_trigger = OnRenewal | OnClaimedReturned | OnDeclaredLost | OnFoundAfterLost

record suspension_terms =
  daysPerOverdueDay :: int
  maxDays :: "int option"
  resetOnReturn :: bool

record overdue_fine_policy =
  ofp_id :: string
  ofp_name :: string
  interval :: duration
  amountPerInterval :: money_json
  chargeAt :: charge_at
  gracePeriod :: "duration option"
  graceSuppressesNotice :: bool
  countClosedDays :: bool
  maximumFine :: "money_json option"
  minimumFine :: "money_json option"
  capAtReplacementCost :: bool
  forgiveOn :: "forgive_trigger list"
  suspension :: "suspension_terms option"

datatype charge_basis = ReplacementPrice | ItemTypeDefault | FixedAmount | ActualCost

record lost_item_fee_policy =
  lif_id :: string
  lif_name :: string
  chargeBasis :: charge_basis
  fixedAmount :: "money_json option"
  processingFee :: money_json
  agedToLostAfter :: duration
  refundReplacementOnReturn :: bool
  refundProcessingFeeOnReturn :: bool
  refundWindow :: "duration option"
  stopOverdueAccrualOnLost :: bool
  chargeOverdueUpToLost :: bool

datatype request_type = Page | Hold | Recall
datatype on_shelf_holds = ShelfAllow | ShelfDeny | IfAnyUnavailable | IfAllUnavailable
datatype item_level_holds = LevelAllow | LevelDeny | LevelForce
datatype pickup_policy = AnyBranch | OwningBranch | PatronHomeBranch | HoldingBranch | ExplicitSet

record hold_policy =
  hp_id :: string
  hp_name :: string
  holdsAllowed :: bool
  requestTypes :: "request_type list"
  onShelfHolds :: on_shelf_holds
  itemLevelHolds :: item_level_holds
  maxHoldsPerRecord :: "int option"
  maxHoldsTotal :: "int option"
  pickupPolicy :: pickup_policy
  pickupBranchIds :: "string list"
  holdShelfExpiry :: duration
  shelfExpiryUsesCalendar :: bool
  unfilledRequestExpiry :: "duration option"
  suspensionAllowed :: bool
  maxSuspension :: "duration option"
  placementFee :: "money_json option"
  notPickedUpFee :: "money_json option"
  transitAllowed :: bool
  maxTransitDays :: "int option"

datatype notice_trigger =
  Checkout | Checkin | DueSoon | Overdue | HoldAvailable | HoldExpiring | FeeCharged

record notice_template_binding =
  ntb_id :: string
  trigger :: notice_trigger
  templateId :: string
  ntb_branchId :: "string option"
  ntb_patronCategoryId :: "string option"
  offset :: "duration option"

record notice_policy =
  np_id :: string
  np_name :: string
  templates :: "notice_template_binding list"

record fixed_due_date_range =
  fr_from :: civil_date
  fr_to :: civil_date
  fr_dueDate :: civil_date
  fr_dueTimeOfDay :: "time_of_day option"

record fixed_due_date_set =
  fds_id :: string
  fds_name :: string
  ranges :: "fixed_due_date_range list"

record patron_category_limit =
  pcl_patronCategoryId :: string
  maxLoans :: "int option"
  maxHolds :: "int option"
  maxOverdues :: "int option"
  maxFineBalance :: "money_json option"

section \<open>The snapshot, the context, the answer\<close>

record policy_snapshot =
  version :: int
  rules :: "circulation_rule list"
  loanPolicies :: "string \<rightharpoonup> loan_policy"
  overdueFinePolicies :: "string \<rightharpoonup> overdue_fine_policy"
  lostItemFeePolicies :: "string \<rightharpoonup> lost_item_fee_policy"
  holdPolicies :: "string \<rightharpoonup> hold_policy"
  noticePolicies :: "string \<rightharpoonup> notice_policy"
  fixedDueDateSets :: "string \<rightharpoonup> fixed_due_date_set"
  patronCategoryLimits :: "string \<rightharpoonup> patron_category_limit"
  calendars :: "string \<rightharpoonup> calendar"

record resolve_context =
  cx_patronCategoryId :: "string option"
  cx_itemTypeId :: "string option"
  cx_owningBranchId :: "string option"
  cx_shelvingLocationId :: "string option"
  cx_checkoutBranchId :: "string option"
  cx_pickupBranchId :: "string option"
  cx_at :: instant

datatype roll_reason =
    ClosedDay | ClosedHours | Holiday | DstGap | DstAmbiguous | HoldShortened | FixedDueDate
  | MaxPeriodCap | OpeningOffset

record calendar_roll =
  reason :: roll_reason
  roll_from :: string
  roll_to :: string
  detail :: "string option"

record rule_trace =
  snapshotVersion :: int
  matchedRuleId :: string
  beatenRuleIds :: "string list"
  selectorsUsedBy :: "selector_name list"
  wildcardsUsedBy :: "selector_name list"
  calendarRolls :: "calendar_roll list"

record resolved_policy =
  rp_rule :: circulation_rule
  rp_loan :: loan_policy
  rp_overdueFine :: overdue_fine_policy
  rp_lostItemFee :: lost_item_fee_policy
  rp_hold :: hold_policy
  rp_notice :: notice_policy
  categoryLimit :: "patron_category_limit option"
  rp_trace :: rule_trace

section \<open>Refusals\<close>

datatype policy_error_code =
    NoMatchingRule
  | PolicyNotInSnapshot
  | AmbiguousRule
  | NoFixedDueDateRange
  | CalendarNotDefinedFor
  | CalendarExhausted
  | NonexistentLocalTime
  | AmbiguousLocalTime
  | NoReplacementPrice
  | PolicyIncomplete

datatype policy_error = PolicyResolutionError (pe_code: policy_error_code) (pe_subject: "string option")

section \<open>Money across the boundary\<close>

text \<open>
  \<open>Number(m.amount)\<close> rounds a \<open>bigint\<close> to the nearest IEEE-754 double, ties to even: exact up to
  53 significant bits. \<open>bit_length\<close> counts the bits of the magnitude.
\<close>

fun bit_length :: "nat \<Rightarrow> nat" where
  "bit_length n = (if n = 0 then 0 else Suc (bit_length (n div 2)))"

declare bit_length.simps [simp del]

definition number_of_bigint :: "int \<Rightarrow> int" where
  "number_of_bigint n =
     (let ulp = 2 ^ (bit_length (nat \<bar>n\<bar>) - 53)
      in case multiplyRounded n 1 ulp of Inr q \<Rightarrow> q * ulp | Inl _ \<Rightarrow> n)"

definition toMoney :: "money_json \<Rightarrow> money" where
  "toMoney m = \<lparr>amount = minorUnits m, currency = mj_currency m\<rparr>"

definition toMoneyJson :: "money \<Rightarrow> money_json" where
  "toMoneyJson m = \<lparr>minorUnits = number_of_bigint (amount m), mj_currency = currency m\<rparr>"

lemma toMoney_simps [simp]: "amount (toMoney m) = minorUnits m" "currency (toMoney m) = mj_currency m"
  by (simp_all add: toMoney_def)

lemma bit_length_le: "n < 2 ^ k \<Longrightarrow> bit_length n \<le> k"
proof (induction n arbitrary: k rule: bit_length.induct)
  case (1 n)
  show ?case
  proof (cases "n = 0")
    case True then show ?thesis by (simp add: bit_length.simps)
  next
    case False
    with "1.prems" obtain j where k: "k = Suc j" by (cases k) auto
    with False "1.prems" have "bit_length (n div 2) \<le> j" by (intro "1.IH") auto
    with k show ?thesis by (simp add: bit_length.simps [of n])
  qed
qed

lemma number_of_bigint_exact: "\<bar>n\<bar> < 2 ^ 53 \<Longrightarrow> number_of_bigint n = n"
proof -
  assume n: "\<bar>n\<bar> < 2 ^ 53"
  then have "nat \<bar>n\<bar> < 2 ^ 53" by (simp add: nat_less_iff)
  then have "bit_length (nat \<bar>n\<bar>) \<le> 53" by (rule bit_length_le)
  then have ulp: "(2::int) ^ (bit_length (nat \<bar>n\<bar>) - 53) = 1" by simp
  obtain q where q: "multiplyRounded n 1 1 = Inr q" by (auto simp: multiplyRounded_def Let_def)
  then have "half_even n 1 q" using multiplyRounded_half_even by fastforce
  moreover have "half_even n 1 n" by (simp add: half_even_def)
  ultimately have "q = n" using half_even_unique [of 1 n q n] by simp
  with q show ?thesis by (simp add: number_of_bigint_def ulp)
qed

lemma toMoney_toMoneyJson:
  "\<bar>amount m\<bar> < 2 ^ 53 \<Longrightarrow> toMoney (toMoneyJson m) = m"
  by (simp add: toMoney_def toMoneyJson_def number_of_bigint_exact)

end
