(* ===== verification/Civil_Time.thy ===== *)
theory Civil_Time
  imports Policy_Types
begin

text \<open>
  The first half of \<open>packages/circ-policy/src/calendar.ts\<close>: integer civil arithmetic
  (\<open>daysFromCivil\<close>, \<open>civilFromDays\<close>, \<open>weekdayOf\<close>) and the two crossings between an instant and
  a wall clock (\<open>zonedCivil\<close>, \<open>instantFromCivil\<close>).

  \<open>Intl.DateTimeFormat\<close> answers from the time-zone database, which is data outside the
  repository: it is the parameter \<open>intl\<close>, a zone name and an instant to the parts
  \<open>formatToParts\<close> returns. What the code relies on is the predicate \<open>wall_clock\<close> below. The
  formatter cache of the source does not change any answer and is not modelled. \<open>Date.UTC\<close> and
  \<open>toISOString\<close> are those of the language; instants beyond its range of 8.64e15 ms are not.
\<close>

section \<open>The Gregorian calendar\<close>

definition is_leap :: "int \<Rightarrow> bool" where
  "is_leap y \<longleftrightarrow> y mod 4 = 0 \<and> (y mod 100 \<noteq> 0 \<or> y mod 400 = 0)"

definition month_length :: "int \<Rightarrow> int \<Rightarrow> int" where
  "month_length y m =
     (if m = 2 then (if is_leap y then 29 else 28)
      else if m = 4 \<or> m = 6 \<or> m = 9 \<or> m = 11 then 30 else 31)"

definition valid_civil :: "'a civil_date_scheme \<Rightarrow> bool" where
  "valid_civil d \<longleftrightarrow> 1 \<le> month d \<and> month d \<le> 12 \<and> 1 \<le> day d \<and> day d \<le> month_length (year d) (month d)"

text \<open>
  The day number by counting: whole years, their leap days, whole months, days. Day 0 is
  1970-01-01.
\<close>

definition days_before_month :: "int \<Rightarrow> int \<Rightarrow> int" where
  "days_before_month y m = (\<Sum>k \<leftarrow> [1..m - 1]. month_length y k)"

definition gregorian_day :: "int \<Rightarrow> int \<Rightarrow> int \<Rightarrow> int" where
  "gregorian_day y m d =
     365 * (y - 1) + (y - 1) div 4 - (y - 1) div 100 + (y - 1) div 400
       + days_before_month y m + d - 719163"

section \<open>Integer civil arithmetic\<close>

definition daysFromCivil :: "'a civil_date_scheme \<Rightarrow> int" where
  "daysFromCivil d =
     (let y = (if month d \<le> 2 then year d - 1 else year d);
          era = (if y \<ge> 0 then y else y - 399) div 400;
          yoe = y - era * 400;
          doy = (153 * (month d + (if month d > 2 then -3 else 9)) + 2) div 5 + day d - 1;
          doe = yoe * 365 + yoe div 4 - yoe div 100 + doy
      in era * 146097 + doe - 719468)"

definition civilFromDays :: "int \<Rightarrow> civil_date" where
  "civilFromDays z =
     (let zz = z + 719468;
          era = (if zz \<ge> 0 then zz else zz - 146096) div 146097;
          doe = zz - era * 146097;
          yoe = (doe - doe div 1460 + doe div 36524 - doe div 146096) div 365;
          y = yoe + era * 400;
          doy = doe - (365 * yoe + yoe div 4 - yoe div 100);
          mp = (5 * doy + 2) div 153;
          d = doy - (153 * mp + 2) div 5 + 1;
          m = mp + (if mp < 10 then 3 else -9)
      in \<lparr>year = (if m \<le> 2 then y + 1 else y), month = m, day = d\<rparr>)"

definition weekdayOf :: "int \<Rightarrow> int" where
  "weekdayOf days = js_rem (js_rem days 7 + 4 + 7) 7"

definition civilKey :: "'a civil_date_scheme \<Rightarrow> string" where
  "civilKey d = pad0 4 (year d) @ ''-'' @ pad0 2 (month d) @ ''-'' @ pad0 2 (day d)"

subsection \<open>The weekday\<close>

lemma weekdayOf_mod: "weekdayOf n = (n + 4) mod 7"
proof -
  have r: "- 7 < js_rem n 7" "js_rem n 7 mod 7 = n mod 7"
    using js_rem_range [of 7 n] js_rem_cong_mod [of 7 n] by auto
  have "weekdayOf n = (js_rem n 7 + 4 + 7) mod 7"
    using r(1) by (simp add: weekdayOf_def js_rem_nonneg)
  also have "\<dots> = (js_rem n 7 mod 7 + 11) mod 7" by (simp add: mod_simps add.commute)
  also have "\<dots> = (n + 11) mod 7" unfolding r(2) by (simp add: mod_simps)
  also have "\<dots> = (n + 4) mod 7" by presburger
  finally show ?thesis .
qed

lemma weekdayOf_range: "0 \<le> weekdayOf n \<and> weekdayOf n \<le> 6"
  using pos_mod_bound [of 7 "n + 4"] by (simp add: weekdayOf_mod)

subsection \<open>The day of the era\<close>

lemma yoe_recovered:
  fixes c q r doy :: int
  assumes "0 \<le> c" "c \<le> 3" "0 \<le> q" "q \<le> 24" "0 \<le> r" "r \<le> 3" "0 \<le> doy" "doy \<le> 365"
    and leap: "doy = 365 \<Longrightarrow> r = 3 \<and> (q = 24 \<longrightarrow> c = 3)"
    and doe: "doe = 36524 * c + 1461 * q + 365 * r + doy"
  shows "(doe - doe div 1460 + doe div 36524 - doe div 146096) div 365 = 100 * c + 4 * q + r"
proof (cases "c = 3 \<and> q = 24 \<and> r = 3 \<and> doy = 365")
  case True
  then show ?thesis by (simp add: doe)
next
  case False
  then have lt: "1461 * q + 365 * r + doy < 36524" using assms by (cases "doy = 365") auto
  have e1: "doe div 36524 = c"
    using lt assms by (intro int_div_pos_eq [where r = "1461 * q + 365 * r + doy"]) auto
  have e2: "doe div 146096 = 0"
    using lt assms by (intro div_pos_pos_trivial) auto
  define w where "w = (24 * c + q + 365 * r + doy) div 1460"
  have w: "w = (if 24 * c + q + 365 * r + doy < 1460 then 0 else 1)"
    using assms unfolding w_def by (auto intro!: int_div_pos_eq [where r = "24 * c + q + 365 * r + doy - 1460"])
  have "doe = 1460 * (25 * c + q) + (24 * c + q + 365 * r + doy)" using doe by simp
  then have e3: "doe div 1460 = 25 * c + q + w" by (simp add: w_def)
  have "0 \<le> doy - w \<and> doy - w < 365"
    using w assms leap by (cases "doy = 365") (auto split: if_splits)
  then show ?thesis
    unfolding e1 e2 e3 by (intro int_div_pos_eq [where r = "doy - w"]) (auto simp: doe)
qed

lemma doe_decomposition:
  fixes doe :: int
  assumes "0 \<le> doe" "doe \<le> 146096"
  obtains c q r doy where "0 \<le> c" "c \<le> 3" "0 \<le> q" "q \<le> 24" "0 \<le> r" "r \<le> 3" "0 \<le> doy" "doy \<le> 365"
    and "doy = 365 \<Longrightarrow> r = 3 \<and> (q = 24 \<longrightarrow> c = 3)"
    and "doe = 36524 * c + 1461 * q + 365 * r + doy"
proof -
  define c where "c = min 3 (doe div 36524)"
  define rest where "rest = doe - 36524 * c"
  define q where "q = rest div 1461"
  define rest2 where "rest2 = rest mod 1461"
  define r where "r = min 3 (rest2 div 365)"
  define doy where "doy = rest2 - 365 * r"
  have c: "0 \<le> c" "c \<le> 3" using assms by (auto simp: c_def)
  have rest: "0 \<le> rest" "rest \<le> 36524" "rest = 36524 \<longrightarrow> c = 3"
    using assms by (auto simp: rest_def c_def min_def)
  have q: "0 \<le> q" "q \<le> 24" using rest by (auto simp: q_def)
  have rest2: "0 \<le> rest2" "rest2 \<le> 1460" "rest = 1461 * q + rest2"
    by (auto simp: rest2_def q_def)
  have r: "0 \<le> r" "r \<le> 3" using rest2 by (auto simp: r_def)
  have doy: "0 \<le> doy" "doy \<le> 365" "doy = 365 \<longrightarrow> r = 3 \<and> rest2 = 1460"
    using rest2 by (auto simp: doy_def r_def min_def)
  have leap: "doy = 365 \<Longrightarrow> r = 3 \<and> (q = 24 \<longrightarrow> c = 3)"
    using doy(3) rest(3) rest2(3) by auto
  have "doe = 36524 * c + 1461 * q + 365 * r + doy"
    using rest2(3) by (simp add: doy_def rest_def)
  with c q r doy(1,2) leap show thesis by (intro that) auto
qed

subsection \<open>The month within the year\<close>

text \<open>
  Both conversions count the year from March. \<open>march_year\<close> is the year a date belongs to on
  that count, \<open>march_doy\<close> the day within it.
\<close>

definition march_year :: "'a civil_date_scheme \<Rightarrow> int" where
  "march_year d = (if month d \<le> 2 then year d - 1 else year d)"

definition march_doy :: "int \<Rightarrow> int \<Rightarrow> int" where
  "march_doy m d = (153 * (m + (if m > 2 then -3 else 9)) + 2) div 5 + d - 1"

lemma month_cases:
  assumes "1 \<le> (m::int)" "m \<le> 12"
  obtains "m = 1" | "m = 2" | "m = 3" | "m = 4" | "m = 5" | "m = 6" | "m = 7" | "m = 8"
    | "m = 9" | "m = 10" | "m = 11" | "m = 12"
  using assms by (atomize_elim) presburger

lemma march_doy_bounds:
  assumes "valid_civil d"
  shows "0 \<le> march_doy (month d) (day d)" and "march_doy (month d) (day d) \<le> 365"
    and "march_doy (month d) (day d) = 365 \<Longrightarrow> month d = 2 \<and> is_leap (year d)"
proof -
  have "1 \<le> month d" "month d \<le> 12" "1 \<le> day d" "day d \<le> month_length (year d) (month d)"
    using assms by (simp_all add: valid_civil_def)
  then show "0 \<le> march_doy (month d) (day d)" and "march_doy (month d) (day d) \<le> 365"
    and "march_doy (month d) (day d) = 365 \<Longrightarrow> month d = 2 \<and> is_leap (year d)"
    by (cases rule: month_cases [of "month d"];
        auto simp: march_doy_def month_length_def split: if_splits)+
qed

lemma month_recovered:
  assumes "valid_civil d"
  defines "doy \<equiv> march_doy (month d) (day d)"
  defines "mp \<equiv> (5 * doy + 2) div 153"
  shows "mp + (if mp < 10 then 3 else -9) = month d"
    and "doy - (153 * mp + 2) div 5 + 1 = day d"
proof -
  have v: "1 \<le> month d" "month d \<le> 12" "1 \<le> day d" "day d \<le> 31"
    "month d \<in> {4, 6, 9, 11} \<longrightarrow> day d \<le> 30" "month d = 2 \<longrightarrow> day d \<le> 29"
    using assms(1) by (auto simp: valid_civil_def month_length_def split: if_splits)
  have mp: "mp = month d + (if month d > 2 then -3 else 9)"
    unfolding mp_def doy_def using v
    by (cases rule: month_cases [of "month d"]) (auto simp: march_doy_def intro!: int_div_pos_eq
        [where r = "5 * (day d - 1) + 2"])
  then show "mp + (if mp < 10 then 3 else -9) = month d"
    and "doy - (153 * mp + 2) div 5 + 1 = day d"
    using v by (auto simp: doy_def march_doy_def)
qed

subsection \<open>The two conversions are inverse\<close>

lemma march_year_parts:
  fixes Y :: int
  defines "yoe \<equiv> Y mod 400"
  defines "c \<equiv> yoe div 100" and "q \<equiv> yoe mod 100 div 4" and "r \<equiv> yoe mod 4"
  shows "0 \<le> c" "c \<le> 3" "0 \<le> q" "q \<le> 24" "0 \<le> r" "r \<le> 3" "yoe = 100 * c + 4 * q + r"
    and "yoe * 365 + yoe div 4 - yoe div 100 = 36524 * c + 1461 * q + 365 * r"
    and "is_leap (Y + 1) \<Longrightarrow> r = 3 \<and> (q = 24 \<longrightarrow> c = 3)"
proof -
  have y: "0 \<le> yoe" "yoe < 400" by (simp_all add: yoe_def)
  have mr: "yoe mod 100 mod 4 = r" unfolding r_def by (simp add: mod_mod_cancel)
  show b: "0 \<le> c" "c \<le> 3" "0 \<le> q" "q \<le> 24" "0 \<le> r" "r \<le> 3"
    using y pos_mod_bound [of 100 yoe] by (auto simp: c_def q_def r_def)
  show e: "yoe = 100 * c + 4 * q + r"
    using mr div_mult_mod_eq [of yoe 100] div_mult_mod_eq [of "yoe mod 100" 4]
    unfolding c_def q_def by linarith
  then have "yoe div 4 = 25 * c + q" "yoe div 100 = c"
    using b by (auto intro!: int_div_pos_eq [where r = r] int_div_pos_eq [where r = "4 * q + r"])
  then show "yoe * 365 + yoe div 4 - yoe div 100 = 36524 * c + 1461 * q + 365 * r"
    using e by simp
  show "r = 3 \<and> (q = 24 \<longrightarrow> c = 3)" if "is_leap (Y + 1)"
  proof -
    define k where "k = Y div 400"
    have Y: "Y + 1 = 400 * k + 100 * c + 4 * q + r + 1"
      using e div_mult_mod_eq [of Y 400] by (simp add: k_def yoe_def)
    have m: "(Y + 1) mod 4 = 0" "(Y + 1) mod 100 \<noteq> 0 \<or> (Y + 1) mod 400 = 0"
      using that by (auto simp: is_leap_def)
    have "Y + 1 = r + 1 + 4 * (100 * k + 25 * c + q)" using Y by simp
    then have "(Y + 1) mod 4 = (r + 1) mod 4" by (metis mod_mult_self2)
    then have r3: "r = 3" using m(1) b by presburger
    have "c = 3" if "q = 24"
    proof -
      have "Y + 1 = 100 * (4 * k + c + 1)" using Y r3 that by simp
      then have "(Y + 1) mod 100 = 0" by simp
      with m(2) have "(Y + 1) mod 400 = 0" by simp
      moreover have "Y + 1 = 100 * (c + 1) + 400 * k" using Y r3 that by simp
      then have "(Y + 1) mod 400 = (100 * (c + 1)) mod 400" by (metis mod_mult_self2)
      moreover have "c = 0 \<or> c = 1 \<or> c = 2 \<or> c = 3" using b by linarith
      ultimately show ?thesis by auto
    qed
    with r3 show ?thesis by simp
  qed
qed

text \<open>A day number splits into an era of 400 years and a day of that era.\<close>

lemma daysFromCivil_era:
  assumes "- 1 \<le> march_year d"
  shows "daysFromCivil d = march_year d div 400 * 146097 +
    (march_year d mod 400 * 365 + march_year d mod 400 div 4 - march_year d mod 400 div 100
      + march_doy (month d) (day d)) - 719468"
proof -
  have era: "(if march_year d \<ge> 0 then march_year d else march_year d - 399) div 400 = march_year d div 400"
    using assms by (cases "march_year d = -1") auto
  have "march_year d - march_year d div 400 * 400 = march_year d mod 400"
    by (simp add: minus_div_mult_eq_mod)
  then show ?thesis
    unfolding daysFromCivil_def Let_def march_year_def [symmetric] era march_doy_def [symmetric]
    by simp
qed

lemma civilFromDays_doe:
  assumes z: "z + 719468 = era * 146097 + doe" and doe: "0 \<le> doe" "doe \<le> 146096" and era: "0 \<le> era"
  shows "civilFromDays z =
     (let yoe = (doe - doe div 1460 + doe div 36524 - doe div 146096) div 365;
          doy = doe - (365 * yoe + yoe div 4 - yoe div 100);
          mp = (5 * doy + 2) div 153;
          m = mp + (if mp < 10 then 3 else -9)
      in \<lparr>year = (if m \<le> 2 then yoe + era * 400 + 1 else yoe + era * 400), month = m,
          day = doy - (153 * mp + 2) div 5 + 1\<rparr>)"
proof -
  have e: "(if z + 719468 \<ge> 0 then z + 719468 else z + 719468 - 146096) div 146097 = era"
    using assms by (simp add: z)
  have d: "z + 719468 - era * 146097 = doe" using z by simp
  show ?thesis unfolding civilFromDays_def Let_def e d by (rule refl)
qed

text \<open>Reading a date back from its day number gives the same date, from year 1 on.\<close>

lemma civilFromDays_daysFromCivil:
  fixes d :: civil_date
  assumes v: "valid_civil d" and y: "1 \<le> year d"
  shows "civilFromDays (daysFromCivil d) = d"
proof -
  define Y where "Y = march_year d"
  define doy where "doy = march_doy (month d) (day d)"
  define yoe c q r where "yoe = Y mod 400" and "c = yoe div 100" and "q = yoe mod 100 div 4"
    and "r = yoe mod 4"
  define doe where "doe = 36524 * c + 1461 * q + 365 * r + doy"
  have P: "0 \<le> c" "c \<le> 3" "0 \<le> q" "q \<le> 24" "0 \<le> r" "r \<le> 3" "yoe = 100 * c + 4 * q + r"
    "yoe * 365 + yoe div 4 - yoe div 100 = 36524 * c + 1461 * q + 365 * r"
    "is_leap (Y + 1) \<Longrightarrow> r = 3 \<and> (q = 24 \<longrightarrow> c = 3)"
    unfolding r_def q_def c_def yoe_def by (rule march_year_parts)+
  have Y: "0 \<le> Y" using y by (simp add: Y_def march_year_def)
  have b: "0 \<le> doy" "doy \<le> 365" unfolding doy_def by (rule march_doy_bounds [OF v])+
  have leap: "doy = 365 \<Longrightarrow> r = 3 \<and> (q = 24 \<longrightarrow> c = 3)"
    using march_doy_bounds(3) [OF v] P(9) by (simp add: Y_def doy_def march_year_def)
  have yoe: "(doe - doe div 1460 + doe div 36524 - doe div 146096) div 365 = yoe"
    unfolding P(7) by (rule yoe_recovered [OF P(1-6) b leap]) (auto simp: doe_def)
  have doe: "0 \<le> doe" "doe \<le> 146096"
    using P(1-6) b leap unfolding doe_def by (cases "doy = 365"; auto)+
  have dy: "doe - (365 * yoe + yoe div 4 - yoe div 100) = doy"
    using P(8) unfolding doe_def by linarith
  have "daysFromCivil d = Y div 400 * 146097 + (yoe * 365 + yoe div 4 - yoe div 100 + doy) - 719468"
    using Y unfolding yoe_def Y_def doy_def by (intro daysFromCivil_era) simp
  then have z: "daysFromCivil d + 719468 = Y div 400 * 146097 + doe"
    using P(8) unfolding doe_def by linarith
  have era: "0 \<le> Y div 400" using Y by simp
  note M = month_recovered [OF v, folded doy_def]
  define k where "k = Y div 400"
  have "Y = yoe + k * 400" unfolding yoe_def k_def by simp
  then have "year d = (if month d \<le> 2 then yoe + k * 400 + 1 else yoe + k * 400)"
    by (simp add: Y_def march_year_def split: if_splits)
  then show ?thesis
    unfolding civilFromDays_doe [OF z doe era] Let_def yoe dy M k_def [symmetric] by simp
qed

text \<open>Every day number from 0000-03-01 on is the day number of a valid date.\<close>

lemma doy_date:
  fixes doy :: int
  assumes "0 \<le> doy" "doy \<le> 365"
  defines "mp \<equiv> (5 * doy + 2) div 153"
  defines "m \<equiv> mp + (if mp < 10 then 3 else -9)" and "dd \<equiv> doy - (153 * mp + 2) div 5 + 1"
  shows "1 \<le> m" "m \<le> 12" "1 \<le> dd" "march_doy m dd = doy"
    and "doy \<le> 364 \<or> is_leap y \<Longrightarrow> dd \<le> month_length y m"
proof -
  have mp: "0 \<le> mp" "mp \<le> 11" using assms by (auto simp: mp_def)
  have bnd: "153 * mp \<le> 5 * doy + 2" "5 * doy + 2 < 153 * mp + 153"
    using div_mult_mod_eq [of "5 * doy + 2" 153] pos_mod_bound [of 153 "5 * doy + 2"]
      pos_mod_sign [of 153 "5 * doy + 2"] unfolding mp_def by linarith+
  have "mp = 0 \<or> mp = 1 \<or> mp = 2 \<or> mp = 3 \<or> mp = 4 \<or> mp = 5 \<or> mp = 6 \<or> mp = 7 \<or> mp = 8 \<or> mp = 9
      \<or> mp = 10 \<or> mp = 11" using mp by presburger
  then show "1 \<le> m" "m \<le> 12" "1 \<le> dd" "march_doy m dd = doy"
    and "doy \<le> 364 \<or> is_leap y \<Longrightarrow> dd \<le> month_length y m"
    using bnd assms(1,2) unfolding m_def dd_def
    by (elim disjE; force simp: march_doy_def month_length_def)+
qed

lemma leap_from_parts:
  fixes k c q r :: int
  assumes "0 \<le> c" "c \<le> 3" "0 \<le> q" "q \<le> 24" "0 \<le> r" "r \<le> 3" "r = 3" "q = 24 \<longrightarrow> c = 3"
  shows "is_leap (100 * c + 4 * q + r + k * 400 + 1)"
proof (cases "q = 24")
  case True
  with assms have y: "100 * c + 4 * q + r + k * 400 + 1 = 400 * (k + 1)" by simp
  show ?thesis unfolding y by (simp add: is_leap_def)
next
  case False
  then have q: "0 < q + 1" "q + 1 < 25" using assms by auto
  let ?y = "100 * c + 4 * q + r + k * 400 + 1"
  have "?y = 4 * (25 * c + q + 1 + 100 * k)" using assms by simp
  then have "?y mod 4 = 0" by simp
  moreover have "?y = 4 * (q + 1) + 100 * (c + 4 * k)" using assms by simp
  then have "?y mod 100 = (4 * (q + 1)) mod 100" by (metis mod_mult_self2)
  then have "?y mod 100 \<noteq> 0" using q by simp
  ultimately show ?thesis by (simp add: is_leap_def)
qed

lemma civilFromDays_valid:
  assumes "- 719468 \<le> z"
  shows "valid_civil (civilFromDays z)" and "daysFromCivil (civilFromDays z) = z"
    and "0 \<le> march_year (civilFromDays z)"
proof -
  define era where "era = (z + 719468) div 146097"
  define doe where "doe = (z + 719468) mod 146097"
  have z: "z + 719468 = era * 146097 + doe" by (simp add: era_def doe_def)
  have doe: "0 \<le> doe" "doe \<le> 146096"
    using pos_mod_bound [of 146097 "z + 719468"] by (simp_all add: doe_def)
  have era: "0 \<le> era" using assms by (simp add: era_def)
  obtain c q r doy where b: "0 \<le> c" "c \<le> 3" "0 \<le> q" "q \<le> 24" "0 \<le> r" "r \<le> 3"
    and doy: "0 \<le> doy" "doy \<le> 365" and leap: "doy = 365 \<Longrightarrow> r = 3 \<and> (q = 24 \<longrightarrow> c = 3)"
    and doe_eq: "doe = 36524 * c + 1461 * q + 365 * r + doy"
    by (rule doe_decomposition [OF doe]) blast
  define yoe where "yoe = 100 * c + 4 * q + r"
  define mp where "mp = (5 * doy + 2) div 153"
  define m where "m = mp + (if mp < 10 then 3 else -9)"
  define dd where "dd = doy - (153 * mp + 2) div 5 + 1"
  have yoe: "(doe - doe div 1460 + doe div 36524 - doe div 146096) div 365 = yoe"
    unfolding yoe_def by (rule yoe_recovered [OF b doy leap doe_eq])
  have y4: "yoe div 4 = 25 * c + q" "yoe div 100 = c"
    using b by (auto simp: yoe_def intro!: int_div_pos_eq [where r = r] int_div_pos_eq [where r = "4 * q + r"])
  have dy: "doe - (365 * yoe + yoe div 4 - yoe div 100) = doy"
    unfolding y4 by (simp add: doe_eq yoe_def)
  define y where "y = (if m \<le> 2 then yoe + era * 400 + 1 else yoe + era * 400)"
  have cf: "civilFromDays z = \<lparr>year = y, month = m, day = dd\<rparr>"
    unfolding civilFromDays_doe [OF z doe era] Let_def yoe dy mp_def [symmetric] m_def [symmetric]
      dd_def [symmetric] y_def by (rule refl)
  have D: "1 \<le> m" "m \<le> 12" "1 \<le> dd" "march_doy m dd = doy"
    unfolding m_def dd_def mp_def by (rule doy_date [OF doy])+
  have dl: "doy \<le> 364 \<or> is_leap y \<Longrightarrow> dd \<le> month_length y m"
    unfolding m_def dd_def mp_def by (rule doy_date(5) [OF doy])
  have "doy \<le> 364 \<or> is_leap y"
  proof (cases "doy = 365")
    case True
    then have "m \<le> 2" by (simp add: m_def mp_def)
    with True show ?thesis
      using leap_from_parts [OF b, of era] leap by (simp add: y_def yoe_def)
  qed (use doy in simp)
  with D dl show "valid_civil (civilFromDays z)" by (simp add: valid_civil_def cf)
  have Y: "march_year (civilFromDays z) = yoe + era * 400" by (simp add: march_year_def cf y_def)
  have yb: "0 \<le> yoe" "yoe < 400" using b by (auto simp: yoe_def)
  with Y era show "0 \<le> march_year (civilFromDays z)" by simp
  have dm: "(yoe + era * 400) div 400 = era" "(yoe + era * 400) mod 400 = yoe" using yb by simp_all
  have "daysFromCivil (civilFromDays z)
      = era * 146097 + (yoe * 365 + yoe div 4 - yoe div 100 + doy) - 719468"
    using daysFromCivil_era [of "civilFromDays z"] D(4) Y era yb by (simp add: cf dm)
  then show "daysFromCivil (civilFromDays z) = z" using dy z by simp
qed

text \<open>The day number of the source is the one obtained by counting, from year 0 on.\<close>

lemma days_before_month_eq:
  assumes "1 \<le> m" "m \<le> 12"
  shows "days_before_month y m = (367 * m - 362) div 12
           - (if m \<le> 2 then 0 else if is_leap y then 1 else 2)"
  using assms by (cases rule: month_cases [of m])
    (simp_all add: days_before_month_def upto.simps month_length_def)

lemma march_doy_eq:
  assumes "1 \<le> m" "m \<le> 12"
  shows "march_doy m d = days_before_month y m + d - 1
           + (if m \<le> 2 then 306 else if is_leap y then - 60 else - 59)"
  using assms by (cases rule: month_cases [of m])
    (simp_all add: days_before_month_eq march_doy_def)

lemma era_years:
  fixes Y :: int
  shows "Y div 400 * 146097 + (Y mod 400 * 365 + Y mod 400 div 4 - Y mod 400 div 100)
           = 365 * Y + Y div 4 - Y div 100 + Y div 400"
proof -
  define k where "k = Y div 400"
  define x where "x = Y mod 400"
  have Y: "Y = x + 400 * k" by (simp add: k_def x_def)
  have "Y div 4 = x div 4 + 100 * k"
  proof -
    have "Y = x + 4 * (100 * k)" using Y by simp
    then show ?thesis by (metis div_mult_self2 zero_neq_numeral add.commute)
  qed
  moreover have "Y div 100 = x div 100 + 4 * k"
  proof -
    have "Y = x + 100 * (4 * k)" using Y by simp
    then show ?thesis by (metis div_mult_self2 zero_neq_numeral add.commute)
  qed
  ultimately show ?thesis unfolding k_def [symmetric] x_def [symmetric] using Y by simp
qed

lemma div_pred: "0 < (k::int) \<Longrightarrow> y div k - (y - 1) div k = (if y mod k = 0 then 1 else 0)"
proof -
  assume k: "0 < k"
  define q where "q = y div k"
  define r where "r = y mod k"
  have y: "y = q * k + r" by (simp add: q_def r_def)
  have r: "0 \<le> r" "r < k" using k by (simp_all add: r_def)
  have "(y - 1) div k = (if r = 0 then q - 1 else q)"
  proof (cases "r = 0")
    case True
    have "(y - 1) div k = q - 1"
      by (rule int_div_pos_eq [where r = "k - 1"]) (use y True k in \<open>simp_all add: algebra_simps\<close>)
    with True show ?thesis by simp
  next
    case False
    have "(y - 1) div k = q"
      by (rule int_div_pos_eq [where r = "r - 1"]) (use y False r in \<open>simp_all add: algebra_simps\<close>)
    with False show ?thesis by simp
  qed
  then show ?thesis by (simp add: q_def r_def)
qed

text \<open>The leap days up to a year; kept folded so that arithmetic does not split its divisions.\<close>

definition leap_days :: "int \<Rightarrow> int" where
  "leap_days y = y div 4 - y div 100 + y div 400"

lemma leap_days_step: "leap_days y = leap_days (y - 1) + (if is_leap y then 1 else 0)"
proof -
  have step: "y div k = (y - 1) div k + (if y mod k = 0 then 1 else 0)" if "0 < k" for k
    using div_pred [OF that, of y] by (simp only: diff_eq_eq add.commute)
  have "y mod 400 mod 100 = y mod 100" "y mod 100 mod 4 = y mod 4"
    by (rule mod_mod_cancel, simp)+
  then have imp: "y mod 400 = 0 \<longrightarrow> y mod 100 = 0" "y mod 100 = 0 \<longrightarrow> y mod 4 = 0" by auto
  have arith: "a + x - (b + u) + (c + v) = a - b + c + w" if "x - u + v = w" for a b c x u v w :: int
    using that by linarith
  show ?thesis
    unfolding leap_days_def step [OF zero_less_numeral]
    by (rule arith)
      (use imp in \<open>cases "y mod 4 = 0"; cases "y mod 100 = 0"; cases "y mod 400 = 0"; simp only: is_leap_def; simp\<close>)
qed

lemma daysFromCivil_leap_days:
  assumes "- 1 \<le> march_year d"
  shows "daysFromCivil d =
    365 * march_year d + leap_days (march_year d) + march_doy (month d) (day d) - 719468"
proof -
  have aux: "x = a + (b + m) - k \<Longrightarrow> a + b = c \<Longrightarrow> x = c + m - k" for x a b c m k :: int by simp
  have "365 * Y + Y div 4 - Y div 100 + Y div 400 = 365 * Y + leap_days Y" for Y
    by (simp only: leap_days_def algebra_simps)
  with era_years [of "march_year d"] show ?thesis
    by (intro aux [OF daysFromCivil_era [OF assms]]) simp
qed

lemma gregorian_day_leap_days:
  "gregorian_day y m d = 365 * (y - 1) + leap_days (y - 1) + days_before_month y m + d - 719163"
  by (simp only: gregorian_day_def leap_days_def algebra_simps)

lemma daysFromCivil_counts:
  assumes "0 \<le> year d" and m: "1 \<le> month d" "month d \<le> 12"
  shows "daysFromCivil d = gregorian_day (year d) (month d) (day d)"
proof -
  have "- 1 \<le> march_year d" using assms(1) by (simp add: march_year_def)
  note L = daysFromCivil_leap_days [OF this]
  show ?thesis
  proof (cases "month d \<le> 2")
    case True
    then show ?thesis
      unfolding L gregorian_day_leap_days march_doy_eq [OF m, of _ "year d"] by (simp add: march_year_def)
  next
    case False
    then show ?thesis
      unfolding L gregorian_day_leap_days march_doy_eq [OF m, of _ "year d"]
      using leap_days_step [of "year d"] by (simp add: march_year_def)
  qed
qed

text \<open>
  Before year 0 it is not: flooring the already adjusted quotient takes the era one too low.
\<close>

lemma daysFromCivil_before_year_0:
  "daysFromCivil \<lparr>year = - 3, month = 3, day = 1\<rparr> = gregorian_day (- 3) 3 1 - 1"
  by (simp add: daysFromCivil_def gregorian_day_def days_before_month_eq is_leap_def Let_def)

subsection \<open>Keys of dates\<close>

lemma append_Cons_notin:
  "c \<notin> set s \<Longrightarrow> c \<notin> set s' \<Longrightarrow> s @ c # t = s' @ c # t' \<longleftrightarrow> s = s' \<and> t = t'"
proof (induction s arbitrary: s')
  case Nil
  then show ?case by (cases s') auto
next
  case (Cons x s)
  then show ?case by (cases s') auto
qed

lemma minus_notin_pad0: "0 \<le> n \<Longrightarrow> CHR ''-'' \<notin> set (pad0 w n)"
  using pad0_digits minus_not_digit by blast

lemma civilKey_inj:
  assumes "0 \<le> year a" "0 \<le> month a" "0 \<le> day a" "0 \<le> year b" "0 \<le> month b" "0 \<le> day b"
  shows "civilKey a = civilKey b \<longleftrightarrow> year a = year b \<and> month a = month b \<and> day a = day b"
  using assms by (simp add: civilKey_def append_Cons_notin minus_notin_pad0 pad0_inj)

lemma valid_civil_nonneg: "valid_civil d \<Longrightarrow> 0 \<le> month d \<and> 0 \<le> day d"
  by (simp add: valid_civil_def)

lemma civilKey_days:
  fixes a b :: civil_date
  assumes "valid_civil a" "valid_civil b" "1 \<le> year a" "1 \<le> year b"
  shows "civilKey a = civilKey b \<longleftrightarrow> daysFromCivil a = daysFromCivil b"
proof
  assume "civilKey a = civilKey b"
  then have "a = b" using assms by (simp add: civilKey_inj valid_civil_nonneg)
  then show "daysFromCivil a = daysFromCivil b" by simp
next
  assume "daysFromCivil a = daysFromCivil b"
  then have "a = b" using assms by (metis civilFromDays_daysFromCivil)
  then show "civilKey a = civilKey b" by simp
qed

lemma civilFromDays_year: "- 719162 \<le> z \<Longrightarrow> 1 \<le> year (civilFromDays z)"
proof (rule ccontr)
  assume z: "- 719162 \<le> z" and "\<not> 1 \<le> year (civilFromDays z)"
  let ?d = "civilFromDays z"
  have v: "valid_civil ?d" "daysFromCivil ?d = z" "0 \<le> march_year ?d"
    using z by (simp_all add: civilFromDays_valid)
  have "year ?d = 0" "march_year ?d = 0"
    using v(3) \<open>\<not> 1 \<le> year ?d\<close> by (auto simp: march_year_def split: if_splits)
  then have "z = march_doy (month ?d) (day ?d) - 719468" "2 < month ?d"
    using daysFromCivil_leap_days [of ?d] v by (auto simp: leap_days_def march_year_def split: if_splits)
  moreover have m: "1 \<le> month ?d" "month ?d \<le> 12" "day ?d \<le> month_length (year ?d) (month ?d)"
    using v(1) by (simp_all add: valid_civil_def)
  then have "march_doy (month ?d) (day ?d) \<le> 305"
    using \<open>2 < month ?d\<close> by (cases rule: month_cases [of "month ?d"])
      (auto simp: march_doy_def month_length_def)
  ultimately show False using z by simp
qed

section \<open>\<open>Date.UTC\<close> and \<open>toISOString\<close>\<close>

definition DAY_MS :: int where
  "DAY_MS = 86400000"

definition ROLL_HORIZON_DAYS :: nat where
  "ROLL_HORIZON_DAYS = 45"

text \<open>
  \<open>Date.UTC(y, m, d, h, mi, s)\<close> with \<open>m\<close> counted from 0: a year from 0 to 99 means 1900 to
  1999, and every field may overflow into the next larger one.
\<close>

definition date_utc :: "int \<Rightarrow> int \<Rightarrow> int \<Rightarrow> int \<Rightarrow> int \<Rightarrow> int \<Rightarrow> instant" where
  "date_utc y m d h mi s =
     (let yr = (if 0 \<le> y \<and> y \<le> 99 then 1900 + y else y)
      in (gregorian_day (yr + m div 12) (m mod 12 + 1) 1 + d - 1) * 86400000
           + h * 3600000 + mi * 60000 + s * 1000)"

definition toISOString :: "instant \<Rightarrow> string" where
  "toISOString ms =
     (let d = civilFromDays (ms div 86400000);
          t = ms mod 86400000;
          y = (if 0 \<le> year d \<and> year d \<le> 9999 then pad0 4 (year d)
               else (if year d < 0 then ''-'' else ''+'') @ pad0 6 \<bar>year d\<bar>)
      in y @ ''-'' @ pad0 2 (month d) @ ''-'' @ pad0 2 (day d) @ ''T''
           @ pad0 2 (t div 3600000) @ '':'' @ pad0 2 (t div 60000 mod 60) @ '':''
           @ pad0 2 (t div 1000 mod 60) @ ''.'' @ pad0 3 (t mod 1000) @ ''Z'')"

lemma gregorian_day_add: "gregorian_day y m 1 + d - 1 = gregorian_day y m d"
  by (simp add: gregorian_day_def)

lemma date_utc_civil:
  assumes "100 \<le> year c" "1 \<le> month c" "month c \<le> 12"
  shows "date_utc (year c) (month c - 1) (day c) h mi s =
           daysFromCivil c * 86400000 + h * 3600000 + mi * 60000 + s * 1000"
  using assms
  by (simp add: date_utc_def Let_def gregorian_day_add daysFromCivil_counts)

text \<open>
  \<open>Date.parse\<close> of a string in the 24-character form \<open>toISOString\<close> writes, the only form the
  snapshot loader stores; any other string is taken for \<open>NaN\<close>, here \<open>None\<close>.
\<close>

definition field :: "nat \<Rightarrow> nat \<Rightarrow> string \<Rightarrow> string" where
  "field i n s = take n (drop i s)"

definition field_val :: "nat \<Rightarrow> nat \<Rightarrow> string \<Rightarrow> int" where
  "field_val i n s = int (digits_val (field i n s))"

definition iso_shape :: "string \<Rightarrow> bool" where
  "iso_shape s \<longleftrightarrow> length s = 24 \<and>
     list_all is_digit (field 0 4 s) \<and> field 4 1 s = ''-'' \<and>
     list_all is_digit (field 5 2 s) \<and> field 7 1 s = ''-'' \<and>
     list_all is_digit (field 8 2 s) \<and> field 10 1 s = ''T'' \<and>
     list_all is_digit (field 11 2 s) \<and> field 13 1 s = '':'' \<and>
     list_all is_digit (field 14 2 s) \<and> field 16 1 s = '':'' \<and>
     list_all is_digit (field 17 2 s) \<and> field 19 1 s = ''.'' \<and>
     list_all is_digit (field 20 3 s) \<and> field 23 1 s = ''Z''"

definition date_parse :: "string \<Rightarrow> instant option" where
  "date_parse s =
     (if \<not> iso_shape s then None
      else let d = \<lparr>year = field_val 0 4 s, month = field_val 5 2 s, day = field_val 8 2 s\<rparr>;
               h = field_val 11 2 s; mi = field_val 14 2 s; sec = field_val 17 2 s
           in if valid_civil d \<and> h \<le> 23 \<and> mi \<le> 59 \<and> sec \<le> 59
              then Some (gregorian_day (year d) (month d) (day d) * 86400000
                     + h * 3600000 + mi * 60000 + sec * 1000 + field_val 20 3 s)
              else None)"

lemma pad0_list_all: "0 \<le> n \<Longrightarrow> list_all is_digit (pad0 w n)"
  using pad0_digits by (auto simp: list_all_iff)

lemma iso_fields:
  assumes len: "length y = 4" "length mo = 2" "length d = 2" "length h = 2" "length mi = 2"
      "length sec = 2" "length f = 3"
  defines "s \<equiv> y @ ''-'' @ mo @ ''-'' @ d @ ''T'' @ h @ '':'' @ mi @ '':'' @ sec @ ''.'' @ f @ ''Z''"
  shows "length s = 24" "field 0 4 s = y" "field 4 1 s = ''-''" "field 5 2 s = mo" "field 7 1 s = ''-''"
    "field 8 2 s = d" "field 10 1 s = ''T''" "field 11 2 s = h" "field 13 1 s = '':''" "field 14 2 s = mi"
    "field 16 1 s = '':''" "field 17 2 s = sec" "field 19 1 s = ''.''" "field 20 3 s = f"
    "field 23 1 s = ''Z''"
  using len by (simp_all add: s_def field_def)

lemma day_parts:
  fixes t :: int
  assumes "0 \<le> t" "t < 86400000"
  shows "t div 3600000 * 3600000 + t div 60000 mod 60 * 60000 + t div 1000 mod 60 * 1000 + t mod 1000 = t"
    and "t div 3600000 \<le> 23" "t div 60000 mod 60 \<le> 59" "t div 1000 mod 60 \<le> 59"
proof -
  define a where "a = t div 1000"
  define b where "b = a div 60"
  have "t div 60000 = b" unfolding b_def a_def by (simp add: zdiv_zmult2_eq [symmetric])
  moreover have "t div 3600000 = b div 60" unfolding b_def a_def by (simp add: zdiv_zmult2_eq [symmetric])
  moreover have "b div 60 * 3600000 + b mod 60 * 60000 + a mod 60 * 1000 + t mod 1000 = t"
  proof -
    have "b = b div 60 * 60 + b mod 60" "a = b * 60 + a mod 60" "t = a * 1000 + t mod 1000"
      by (simp_all add: a_def b_def)
    then show ?thesis by linarith
  qed
  ultimately show "t div 3600000 * 3600000 + t div 60000 mod 60 * 60000 + t div 1000 mod 60 * 1000
      + t mod 1000 = t" by (simp add: a_def)
  show "t div 3600000 \<le> 23" using assms by auto
  show "t div 60000 mod 60 \<le> 59" "t div 1000 mod 60 \<le> 59"
    using pos_mod_bound [of 60 "t div 60000"] pos_mod_bound [of 60 "t div 1000"] by simp_all
qed

lemma date_parse_toISOString:
  assumes lo: "- 719162 \<le> ms div 86400000" and hi: "year (civilFromDays (ms div 86400000)) \<le> 9999"
  shows "date_parse (toISOString ms) = Some ms"
proof -
  define d where "d = civilFromDays (ms div 86400000)"
  define t where "t = ms mod 86400000"
  have t: "0 \<le> t" "t < 86400000" by (simp_all add: t_def)
  have v: "valid_civil d" "daysFromCivil d = ms div 86400000" "1 \<le> year d" "year d \<le> 9999"
    using lo hi by (simp_all add: d_def civilFromDays_valid civilFromDays_year)
  then have md: "1 \<le> month d" "month d \<le> 12" "1 \<le> day d" "day d \<le> 31"
    by (auto simp: valid_civil_def month_length_def split: if_splits)
  define h mi sec f where "h = t div 3600000" and "mi = t div 60000 mod 60"
    and "sec = t div 1000 mod 60" and "f = t mod 1000"
  have parts: "h * 3600000 + mi * 60000 + sec * 1000 + f = t" "h \<le> 23" "mi \<le> 59" "sec \<le> 59"
    unfolding h_def mi_def sec_def f_def by (rule day_parts [OF t])+
  have nn: "0 \<le> h" "0 \<le> mi" "0 \<le> sec" "0 \<le> f" "f < 1000"
    unfolding h_def mi_def sec_def f_def using t by (simp_all add: pos_imp_zdiv_nonneg_iff)
  have iso: "toISOString ms = pad0 4 (year d) @ ''-'' @ pad0 2 (month d) @ ''-'' @ pad0 2 (day d) @ ''T''
      @ pad0 2 h @ '':'' @ pad0 2 mi @ '':'' @ pad0 2 sec @ ''.'' @ pad0 3 f @ ''Z''"
    unfolding toISOString_def Let_def d_def [symmetric] t_def [symmetric]
      h_def [symmetric] mi_def [symmetric] sec_def [symmetric] f_def [symmetric]
    using v(3,4) by simp
  have len: "length (pad0 4 (year d)) = 4" "length (pad0 2 (month d)) = 2" "length (pad0 2 (day d)) = 2"
    "length (pad0 2 h) = 2" "length (pad0 2 mi) = 2" "length (pad0 2 sec) = 2" "length (pad0 3 f) = 3"
    using v(3,4) md nn parts(2-4) by (simp_all add: length_pad0)
  note F = iso_fields [OF len, folded iso]
  have shape: "iso_shape (toISOString ms)"
    unfolding iso_shape_def F using v(3) md nn by (simp add: pad0_list_all)
  have vals: "field_val 0 4 (toISOString ms) = year d" "field_val 5 2 (toISOString ms) = month d"
    "field_val 8 2 (toISOString ms) = day d" "field_val 11 2 (toISOString ms) = h"
    "field_val 14 2 (toISOString ms) = mi" "field_val 17 2 (toISOString ms) = sec"
    "field_val 20 3 (toISOString ms) = f"
    unfolding field_val_def F using v(3) md nn by simp_all
  define n where "n = ms div 86400000"
  have ms: "ms = n * 86400000 + t" by (simp add: t_def n_def)
  have "daysFromCivil d = n" using v(2) by (simp add: n_def)
  then have g: "gregorian_day (year d) (month d) (day d) = n"
    using v(3) md by (simp add: daysFromCivil_counts)
  have vc: "valid_civil \<lparr>year = year d, month = month d, day = day d\<rparr>"
    using v(1) by (simp add: valid_civil_def)
  show ?thesis
    unfolding date_parse_def vals Let_def using shape parts vc ms by (simp add: g)
qed

section \<open>Instants and wall clocks\<close>

record intl_parts =
  pt_bc :: bool
  pt_year :: int
  pt_month :: int
  pt_day :: int
  pt_hour :: int
  pt_minute :: int
  pt_second :: int

type_synonym intl = "string \<Rightarrow> instant \<Rightarrow> intl_parts"

definition readParts :: "intl_parts \<Rightarrow> civil_date_time" where
  "readParts p =
     \<lparr>year = (if pt_bc p then 1 - pt_year p else pt_year p), month = pt_month p, day = pt_day p,
      hour = js_rem (pt_hour p) 24, minute = pt_minute p, second = pt_second p\<rparr>"

definition zonedCivil :: "intl \<Rightarrow> instant \<Rightarrow> string \<Rightarrow> civil_date_time" where
  "zonedCivil intl inst tz = readParts (intl tz inst)"

datatype disambiguation = Earlier | Later | Reject
datatype instant_kind = Unique | Gap | Ambiguous

definition asUtc :: "intl \<Rightarrow> string \<Rightarrow> instant \<Rightarrow> instant" where
  "asUtc intl tz ms =
     (let p = readParts (intl tz ms)
      in date_utc (year p) (month p - 1) (day p) (hour p) (minute p) (second p))"

definition offsetAt :: "intl \<Rightarrow> string \<Rightarrow> instant \<Rightarrow> int" where
  "offsetAt intl tz ms = asUtc intl tz ms - ms"

definition wall_of :: "'a civil_date_time_scheme \<Rightarrow> instant" where
  "wall_of c = date_utc (year c) (month c - 1) (day c) (hour c) (minute c) (second c)"

definition probe_candidates :: "intl \<Rightarrow> string \<Rightarrow> instant \<Rightarrow> instant list" where
  "probe_candidates intl tz wall =
     js_sort (\<lambda>a b. a - b)
       (foldl (\<lambda>cs probe.
          let t = wall - offsetAt intl tz probe
          in if asUtc intl tz t = wall \<and> t \<notin> set cs then cs @ [t] else cs)
        [] [wall - DAY_MS, wall + DAY_MS])"

definition instantFromCivil ::
    "intl \<Rightarrow> string \<Rightarrow> 'a civil_date_time_scheme \<Rightarrow> disambiguation \<Rightarrow>
     policy_error + instant \<times> instant_kind" where
  "instantFromCivil intl tz c dis =
     (let wall = wall_of c;
          candidates = probe_candidates intl tz wall
      in if length candidates = 1 then Inr (hd candidates, Unique)
         else if length candidates = 0 then
           (if dis = Reject then Inl (PolicyResolutionError NonexistentLocalTime (Some tz))
            else let after = wall - offsetAt intl tz (wall + DAY_MS);
                     before = wall - offsetAt intl tz (wall - DAY_MS)
                 in Inr (if dis = Later then max after before else min after before, Gap))
         else if dis = Reject then Inl (PolicyResolutionError AmbiguousLocalTime (Some tz))
         else Inr (if dis = Later then last candidates else hd candidates, Ambiguous))"

subsection \<open>What the code relies on of the time-zone database\<close>

text \<open>
  \<open>civil_of_ms\<close> is a count of milliseconds as a date and a time of day. A zone has an offset
  at each instant, a whole number of seconds and less than a day; the formatter shows the
  instant moved by it. This is asked from the year 100 on (\<open>modern\<close>), where \<open>Date.UTC\<close> takes a
  year as written.
\<close>

definition civil_of_ms :: "int \<Rightarrow> civil_date_time" where
  "civil_of_ms ms =
     (let d = civilFromDays (ms div 86400000); t = ms mod 86400000
      in \<lparr>year = year d, month = month d, day = day d,
          hour = t div 3600000, minute = t div 60000 mod 60, second = t div 1000 mod 60\<rparr>)"

definition modern :: "instant \<Rightarrow> bool" where
  "modern ms \<longleftrightarrow> - 58998412800000 \<le> ms"

definition wall_clock :: "intl \<Rightarrow> (string \<Rightarrow> instant \<Rightarrow> int) \<Rightarrow> bool" where
  "wall_clock intl off \<longleftrightarrow>
     (\<forall>tz ms. modern ms \<longrightarrow>
        off tz ms mod 1000 = 0 \<and> \<bar>off tz ms\<bar> < DAY_MS \<and>
        readParts (intl tz ms) = civil_of_ms (ms + off tz ms))"

text \<open>A formatter built from a table of offsets, which satisfies the law.\<close>

definition intl_of_offset :: "(string \<Rightarrow> instant \<Rightarrow> int) \<Rightarrow> intl" where
  "intl_of_offset off tz ms =
     (let c = civil_of_ms (ms + off tz ms)
      in \<lparr>pt_bc = (year c \<le> 0), pt_year = (if year c \<le> 0 then 1 - year c else year c),
          pt_month = month c, pt_day = day c, pt_hour = hour c, pt_minute = minute c,
          pt_second = second c\<rparr>)"

text \<open>Athens in 2026: two hours ahead, three from 29 March 01:00Z to 25 October 01:00Z.\<close>

definition athens_2026 :: "string \<Rightarrow> instant \<Rightarrow> int" where
  "athens_2026 tz ms =
     (if 1774746000000 \<le> ms \<and> ms < 1792890000000 then 10800000 else 7200000)"

lemma civil_of_ms_hour: "0 \<le> hour (civil_of_ms ms) \<and> hour (civil_of_ms ms) < 24"
  using day_parts(2) [of "ms mod 86400000"]
  by (simp add: civil_of_ms_def Let_def pos_imp_zdiv_nonneg_iff)

lemma readParts_intl_of_offset: "readParts (intl_of_offset off tz ms) = civil_of_ms (ms + off tz ms)"
  using civil_of_ms_hour [of "ms + off tz ms"]
  by (simp add: readParts_def intl_of_offset_def Let_def js_rem_nonneg)

lemma wall_clock_intl_of_offset:
  "(\<And>tz ms. off tz ms mod 1000 = 0 \<and> \<bar>off tz ms\<bar> < DAY_MS) \<Longrightarrow> wall_clock (intl_of_offset off) off"
  by (simp add: wall_clock_def readParts_intl_of_offset)

lemma wall_clock_athens: "wall_clock (intl_of_offset athens_2026) athens_2026"
  by (rule wall_clock_intl_of_offset) (simp add: athens_2026_def DAY_MS_def)

lemma civil_date_truncate [simp]:
  "year (civil_date.truncate c) = year c" "month (civil_date.truncate c) = month c"
  "day (civil_date.truncate c) = day c"
  by (simp_all add: civil_date.truncate_def)

lemma daysFromCivil_truncate: "daysFromCivil (civil_date.truncate c) = daysFromCivil c"
  unfolding daysFromCivil_def civil_date_truncate by (rule refl)

lemma valid_civil_truncate: "valid_civil (civil_date.truncate c) = valid_civil c"
  by (simp add: valid_civil_def)

lemma truncate_civil_of_ms: "civil_date.truncate (civil_of_ms ms) = civilFromDays (ms div 86400000)"
  by (simp add: civil_of_ms_def Let_def civil_date.truncate_def)

lemma civil_of_ms_fields:
  assumes "- 62135596800000 \<le> ms"
  shows "valid_civil (civil_of_ms ms)" and "1 \<le> year (civil_of_ms ms)"
    and "daysFromCivil (civil_of_ms ms) = ms div 86400000"
proof -
  define n where "n = ms div 86400000"
  have n: "- 719162 \<le> n" using assms by (simp add: n_def)
  then have v: "valid_civil (civilFromDays n)" "daysFromCivil (civilFromDays n) = n"
    "1 \<le> year (civilFromDays n)"
    by (simp_all add: civilFromDays_valid civilFromDays_year)
  note t = truncate_civil_of_ms [of ms, folded n_def]
  have "valid_civil (civil_date.truncate (civil_of_ms ms))"
    "daysFromCivil (civil_date.truncate (civil_of_ms ms)) = n"
    "1 \<le> year (civil_date.truncate (civil_of_ms ms))"
    using v by (simp_all only: t)
  then show "valid_civil (civil_of_ms ms)" "1 \<le> year (civil_of_ms ms)"
    "daysFromCivil (civil_of_ms ms) = ms div 86400000"
    by (simp_all only: valid_civil_truncate daysFromCivil_truncate civil_date_truncate n_def)
qed

lemma year_100:
  assumes "valid_civil d" and y: "0 \<le> year d" and n: "- 682900 \<le> daysFromCivil d"
  shows "100 \<le> year d"
proof (rule ccontr)
  assume "\<not> 100 \<le> year d"
  then have Y: "- 1 \<le> march_year d" "march_year d \<le> 99"
    using y by (auto simp: march_year_def)
  have "leap_days (march_year d) \<le> 24"
  proof -
    have "march_year d div 4 \<le> 24" "0 \<le> march_year d div 100 - march_year d div 400"
      using Y by auto
    then show ?thesis unfolding leap_days_def by linarith
  qed
  moreover have "march_doy (month d) (day d) \<le> 365" by (rule march_doy_bounds) fact
  ultimately have "daysFromCivil d \<le> 365 * 99 + 24 + 365 - 719468"
    using Y daysFromCivil_leap_days [OF Y(1)] by simp
  then show False
    using n by simp
qed

lemma wall_of_eq:
  assumes "valid_civil c" "100 \<le> year c"
  shows "wall_of c = daysFromCivil c * 86400000 + hour c * 3600000 + minute c * 60000 + second c * 1000"
  using assms by (simp add: wall_of_def date_utc_civil valid_civil_def)

lemma wall_of_civil_of_ms:
  assumes "- 59000000000000 \<le> ms"
  shows "wall_of (civil_of_ms ms) = ms - ms mod 1000"
proof -
  let ?c = "civil_of_ms ms"
  define n t where "n = ms div 86400000" and "t = ms mod 86400000"
  have ms: "ms = n * 86400000 + t" by (simp add: n_def t_def)
  have t: "0 \<le> t" "t < 86400000" by (simp_all add: t_def)
  have n: "- 682900 \<le> n" using assms ms t by linarith
  have c: "valid_civil ?c" "1 \<le> year ?c" "daysFromCivil ?c = n"
    using assms by (simp_all add: civil_of_ms_fields n_def)
  then have "100 \<le> year ?c" using n by (intro year_100) simp_all
  then have "wall_of ?c = n * 86400000 + hour ?c * 3600000 + minute ?c * 60000 + second ?c * 1000"
    using c by (simp add: wall_of_eq)
  also have "\<dots> = n * 86400000 + t div 3600000 * 3600000 + t div 60000 mod 60 * 60000
      + t div 1000 mod 60 * 1000"
    by (simp only: civil_of_ms_def Let_def t_def civil_date_time.select_convs)
  also have "n * 86400000 + t div 3600000 * 3600000 + t div 60000 mod 60 * 60000
      + t div 1000 mod 60 * 1000 = n * 86400000 + t - t mod 1000"
    using day_parts(1) [OF t] by linarith
  also have "t mod 1000 = ms mod 1000"
    unfolding t_def by (rule mod_mod_cancel) simp
  finally show ?thesis using ms by simp
qed

text \<open>Under the law, the source's \<open>asUtc\<close> and \<open>offsetAt\<close> are the zone's offset.\<close>

lemma asUtc_off:
  assumes law: "wall_clock intl off" and ms: "modern ms" and sec: "ms mod 1000 = 0"
  shows "asUtc intl tz ms = ms + off tz ms" and "offsetAt intl tz ms = off tz ms"
proof -
  have o: "off tz ms mod 1000 = 0" "\<bar>off tz ms\<bar> < DAY_MS"
    "readParts (intl tz ms) = civil_of_ms (ms + off tz ms)"
    using law ms by (auto simp: wall_clock_def)
  have "(ms + off tz ms) mod 1000 = 0" using o(1) sec by (metis add_0 mod_0 mod_add_cong)
  moreover have "- 59000000000000 \<le> ms + off tz ms"
    using ms o(2) by (simp add: modern_def DAY_MS_def)
  ultimately have "wall_of (civil_of_ms (ms + off tz ms)) = ms + off tz ms"
    by (simp add: wall_of_civil_of_ms)
  then show "asUtc intl tz ms = ms + off tz ms"
    by (simp add: asUtc_def Let_def o(3) wall_of_def)
  then show "offsetAt intl tz ms = off tz ms" by (simp add: offsetAt_def)
qed

subsection \<open>The probe a day either side finds every reading of a wall clock\<close>

interpretation instants: keyed_comparator "\<lambda>a b :: int. a - b" "\<lambda>a. a"
  by unfold_locales auto

text \<open>The instants at which a zone's wall clock shows \<open>wall\<close>.\<close>

definition readings :: "(string \<Rightarrow> instant \<Rightarrow> int) \<Rightarrow> string \<Rightarrow> instant \<Rightarrow> instant set" where
  "readings off tz wall = {t. modern t \<and> t + off tz t = wall}"

text \<open>At most one change of offset within a day either side of \<open>wall\<close>.\<close>

definition one_change :: "(string \<Rightarrow> instant \<Rightarrow> int) \<Rightarrow> string \<Rightarrow> instant \<Rightarrow> bool" where
  "one_change off tz wall \<longleftrightarrow>
     (\<exists>T o1 o2. \<forall>ms. \<bar>ms - wall\<bar> \<le> DAY_MS \<longrightarrow> off tz ms = (if ms < T then o1 else o2))"

lemma wall_of_seconds: "wall_of c mod 1000 = 0"
proof -
  have "wall_of c = 1000 * ((gregorian_day ((if 0 \<le> year c \<and> year c \<le> 99 then 1900 + year c else year c)
      + (month c - 1) div 12) ((month c - 1) mod 12 + 1) 1 + day c - 1) * 86400
      + hour c * 3600 + minute c * 60 + second c)"
    by (simp add: wall_of_def date_utc_def Let_def)
  then show ?thesis by simp
qed

lemma set_probe_candidates:
  "set (probe_candidates intl tz wall) =
     {t \<in> {wall - offsetAt intl tz (wall - DAY_MS), wall - offsetAt intl tz (wall + DAY_MS)}.
        asUtc intl tz t = wall}"
  by (auto simp: probe_candidates_def Let_def)

lemma distinct_probe_candidates: "distinct (probe_candidates intl tz wall)"
  by (auto simp: probe_candidates_def Let_def)

lemma sorted_probe_candidates: "sorted_wrt (\<lambda>a b. a - b \<le> 0) (probe_candidates intl tz wall)"
  unfolding probe_candidates_def by (rule instants.sorted_js_sort)

lemma probe_window:
  assumes law: "wall_clock intl off" and lo: "modern (wall - 2 * DAY_MS)" and sec: "wall mod 1000 = 0"
    and near: "\<bar>t - wall\<bar> \<le> DAY_MS" and t: "t mod 1000 = 0"
  shows "modern t" "asUtc intl tz t = t + off tz t" "offsetAt intl tz t = off tz t" "\<bar>off tz t\<bar> < DAY_MS"
    "off tz t mod 1000 = 0"
proof -
  show m: "modern t" using lo near by (simp add: modern_def DAY_MS_def)
  show "asUtc intl tz t = t + off tz t" "offsetAt intl tz t = off tz t"
    using asUtc_off [OF law m t] by simp_all
  show "\<bar>off tz t\<bar> < DAY_MS" "off tz t mod 1000 = 0" using law m by (simp_all add: wall_clock_def)
qed

lemma mod_1000_diff: "a mod 1000 = 0 \<Longrightarrow> b mod 1000 = 0 \<Longrightarrow> (a - b) mod 1000 = (0::int)"
  by (simp add: mod_0_imp_dvd dvd_diff)

lemma probe_ends:
  assumes law: "wall_clock intl off" and lo: "modern (wall - 2 * DAY_MS)" and sec: "wall mod 1000 = 0"
  shows "offsetAt intl tz (wall - DAY_MS) = off tz (wall - DAY_MS)"
    and "offsetAt intl tz (wall + DAY_MS) = off tz (wall + DAY_MS)"
    and "\<And>p. p \<in> {wall - DAY_MS, wall + DAY_MS} \<Longrightarrow>
      asUtc intl tz (wall - off tz p) = wall \<longleftrightarrow> wall - off tz p \<in> readings off tz wall"
proof -
  have d: "DAY_MS mod 1000 = 0" by (simp add: DAY_MS_def)
  have e: "(wall - DAY_MS) mod 1000 = 0" "(wall + DAY_MS) mod 1000 = 0"
    using mod_1000_diff [OF sec, of DAY_MS] mod_1000_diff [OF sec, of "- DAY_MS"]
    by (simp_all add: DAY_MS_def)
  have n: "\<bar>wall - DAY_MS - wall\<bar> \<le> DAY_MS" "\<bar>wall + DAY_MS - wall\<bar> \<le> DAY_MS"
    by (simp_all add: DAY_MS_def)
  note W = probe_window [OF law lo sec]
  show "offsetAt intl tz (wall - DAY_MS) = off tz (wall - DAY_MS)"
    "offsetAt intl tz (wall + DAY_MS) = off tz (wall + DAY_MS)"
    by (rule W(3), fact n, fact e)+
  fix p assume "p \<in> {wall - DAY_MS, wall + DAY_MS}"
  then have pn: "\<bar>p - wall\<bar> \<le> DAY_MS" "p mod 1000 = 0" using n e by auto
  have "\<bar>off tz p\<bar> < DAY_MS" "off tz p mod 1000 = 0"
    by (rule W(4), fact, fact) (rule W(5), fact, fact)
  then have near: "\<bar>wall - off tz p - wall\<bar> \<le> DAY_MS" "(wall - off tz p) mod 1000 = 0"
    by (simp_all add: mod_1000_diff sec)
  show "asUtc intl tz (wall - off tz p) = wall \<longleftrightarrow> wall - off tz p \<in> readings off tz wall"
    using W(1) [OF near] W(2) [OF near, of tz] by (simp add: readings_def)
qed

lemma reading_near:
  assumes "wall_clock intl off" and "t \<in> readings off tz wall"
  shows "\<bar>t - wall\<bar> < DAY_MS"
proof -
  have "\<bar>off tz t\<bar> < DAY_MS" "t + off tz t = wall"
    using assms by (auto simp: wall_clock_def readings_def)
  then show ?thesis by simp
qed

lemma probe_complete:
  assumes law: "wall_clock intl off" and lo: "modern (wall - 2 * DAY_MS)" and sec: "wall mod 1000 = 0"
    and one: "one_change off tz wall"
  shows "set (probe_candidates intl tz wall) = readings off tz wall"
proof
  note E = probe_ends [OF law lo sec]
  show "set (probe_candidates intl tz wall) \<subseteq> readings off tz wall"
  proof
    fix t assume "t \<in> set (probe_candidates intl tz wall)"
    then have "\<exists>p \<in> {wall - DAY_MS, wall + DAY_MS}. t = wall - off tz p" "asUtc intl tz t = wall"
      unfolding set_probe_candidates E(1,2) by auto
    then show "t \<in> readings off tz wall" using E(3) [where tz = tz] by metis
  qed
  show "readings off tz wall \<subseteq> set (probe_candidates intl tz wall)"
  proof
    fix t assume t: "t \<in> readings off tz wall"
    then have near: "\<bar>t - wall\<bar> < DAY_MS" by (rule reading_near [OF law])
    obtain T o1 o2 where ch: "\<And>ms. \<bar>ms - wall\<bar> \<le> DAY_MS \<Longrightarrow> off tz ms = (if ms < T then o1 else o2)"
      using one by (auto simp: one_change_def)
    have "off tz t = off tz (wall - DAY_MS) \<or> off tz t = off tz (wall + DAY_MS)"
      using near ch [of t] ch [of "wall - DAY_MS"] ch [of "wall + DAY_MS"] by auto
    moreover have "t = wall - off tz t" using t by (simp add: readings_def)
    ultimately have "\<exists>p \<in> {wall - DAY_MS, wall + DAY_MS}. t = wall - off tz p" by force
    then obtain p where p: "p \<in> {wall - DAY_MS, wall + DAY_MS}" "t = wall - off tz p" by blast
    have "asUtc intl tz t = wall" using E(3) [OF p(1), where tz = tz] t p(2) by simp
    then show "t \<in> set (probe_candidates intl tz wall)"
      unfolding set_probe_candidates E(1,2) using p by auto
  qed
qed

text \<open>What \<open>instantFromCivil\<close> answers, in terms of the readings of the wall clock.\<close>

definition resolved_reading ::
    "(string \<Rightarrow> instant \<Rightarrow> int) \<Rightarrow> string \<Rightarrow> instant \<Rightarrow> disambiguation \<Rightarrow> instant \<Rightarrow> instant_kind \<Rightarrow> bool" where
  "resolved_reading off tz wall dis t k \<longleftrightarrow>
     (let S = readings off tz wall
      in case k of
           Unique \<Rightarrow> S = {t}
         | Ambiguous \<Rightarrow> card S = 2 \<and> t \<in> S \<and> (\<forall>u \<in> S. if dis = Later then u \<le> t else t \<le> u)
         | Gap \<Rightarrow> S = {} \<and> (if dis = Later then wall < t + off tz t else t + off tz t < wall))"

lemma sorted_candidates_le:
  "sorted_wrt (\<lambda>a b. a - b \<le> 0) (xs :: int list) \<Longrightarrow> sorted xs"
  by (induction xs) auto

lemma sorted_ends:
  "sorted (xs :: int list) \<Longrightarrow> u \<in> set xs \<Longrightarrow> hd xs \<le> u \<and> u \<le> last xs"
proof (induction xs)
  case (Cons x xs)
  then show ?case by (cases xs) auto
qed simp

lemma card_probe_candidates: "length (probe_candidates intl tz wall) \<le> 2"
proof -
  let ?B = "{wall - offsetAt intl tz (wall - DAY_MS), wall - offsetAt intl tz (wall + DAY_MS)}"
  have "card (set (probe_candidates intl tz wall)) \<le> card ?B"
    unfolding set_probe_candidates by (rule card_mono) auto
  also have "\<dots> \<le> 2" by (simp add: card_insert_if)
  finally show ?thesis by (simp add: distinct_card distinct_probe_candidates)
qed

lemma gap_jump:
  assumes law: "wall_clock intl off" and lo: "modern (wall - 2 * DAY_MS)" and sec: "wall mod 1000 = 0"
    and one: "one_change off tz wall" and none: "readings off tz wall = {}"
  defines "before \<equiv> wall - off tz (wall - DAY_MS)" and "after \<equiv> wall - off tz (wall + DAY_MS)"
  shows "after < before" and "wall < before + off tz before" and "after + off tz after < wall"
proof -
  obtain T o1 o2 where ch: "\<And>ms. \<bar>ms - wall\<bar> \<le> DAY_MS \<Longrightarrow> off tz ms = (if ms < T then o1 else o2)"
    using one by (auto simp: one_change_def)
  have d: "0 < DAY_MS" by (simp add: DAY_MS_def)
  have m: "modern (wall - DAY_MS)" "modern (wall + DAY_MS)"
    using lo by (simp_all add: modern_def DAY_MS_def)
  then have b: "\<bar>off tz (wall - DAY_MS)\<bar> < DAY_MS" "\<bar>off tz (wall + DAY_MS)\<bar> < DAY_MS"
    using law by (simp_all add: wall_clock_def)
  then have nb: "\<bar>before - wall\<bar> \<le> DAY_MS" "\<bar>after - wall\<bar> \<le> DAY_MS"
    by (simp_all add: before_def after_def)
  then have mb: "modern before" "modern after" using lo by (simp_all add: modern_def DAY_MS_def)
  have nr: "before + off tz before \<noteq> wall" "after + off tz after \<noteq> wall"
    using none mb by (auto simp: readings_def)
  have p: "off tz (wall - DAY_MS) = (if wall - DAY_MS < T then o1 else o2)"
    "off tz (wall + DAY_MS) = (if wall + DAY_MS < T then o1 else o2)"
    using ch d by simp_all
  have in1: "wall - DAY_MS < T" and in2: "\<not> wall + DAY_MS < T"
    using nr p ch [OF nb(1)] ch [OF nb(2)] nb d
    by (auto simp: before_def after_def split: if_splits)
  then have e: "before = wall - o1" "after = wall - o2" using p by (simp_all add: before_def after_def)
  have "\<not> before < T" "after < T"
    using nr ch [OF nb(1)] ch [OF nb(2)] e by (auto split: if_splits)
  then show "after < before" "wall < before + off tz before" "after + off tz after < wall"
    using ch [OF nb(1)] ch [OF nb(2)] e by simp_all
qed

lemma instantFromCivil_resolved:
  assumes law: "wall_clock intl off" and lo: "modern (wall_of c - 2 * DAY_MS)"
    and one: "one_change off tz (wall_of c)"
    and res: "instantFromCivil intl tz c dis = Inr (t, k)"
  shows "resolved_reading off tz (wall_of c) dis t k"
proof -
  let ?w = "wall_of c" and ?L = "probe_candidates intl tz (wall_of c)"
  have sec: "?w mod 1000 = 0" by (rule wall_of_seconds)
  have S: "set ?L = readings off tz ?w" by (rule probe_complete [OF law lo sec one])
  note E = probe_ends [OF law lo sec, where tz = tz]
  have srt: "sorted ?L" by (rule sorted_candidates_le [OF sorted_probe_candidates])
  consider "?L = []" | u where "?L = [u]" | "length ?L \<ge> 2"
    by (cases ?L; cases "tl ?L"; auto)
  then show ?thesis
  proof cases
    case 1
    then have none: "readings off tz ?w = {}" using S by simp
    note G = gap_jump [OF law lo sec one none]
    from res 1 have "k = Gap" "t = (if dis = Later then max (?w - off tz (?w + DAY_MS)) (?w - off tz (?w - DAY_MS))
        else min (?w - off tz (?w + DAY_MS)) (?w - off tz (?w - DAY_MS)))"
      by (auto simp: instantFromCivil_def Let_def E(1,2) split: if_splits)
    with G none show ?thesis by (auto simp: resolved_reading_def)
  next
    case 2
    with res S show ?thesis by (auto simp: instantFromCivil_def resolved_reading_def Let_def)
  next
    case 3
    have "length ?L = card (set ?L)" by (simp add: distinct_card distinct_probe_candidates)
    then have c2: "card (readings off tz ?w) = 2"
      using 3 S card_probe_candidates [of intl tz ?w] by simp
    have ne: "?L \<noteq> []" using 3 by auto
    then have mem: "hd ?L \<in> set ?L" "last ?L \<in> set ?L" by simp_all
    from res 3 ne have "k = Ambiguous" "t = (if dis = Later then last ?L else hd ?L)"
      by (auto simp: instantFromCivil_def Let_def split: if_splits)
    then show ?thesis using c2 mem sorted_ends [OF srt] unfolding S
      by (simp add: resolved_reading_def)
  qed
qed

section \<open>Dates on a line of day numbers\<close>

text \<open>
  The due-date arithmetic and the holiday seeder use only this of the conversions: between the
  accepted dates and the day numbers from \<open>lo\<close> on they are inverse to one another.
\<close>

locale civil_line =
  fixes to_day :: "'d \<Rightarrow> int" and of_day :: "int \<Rightarrow> 'd" and ok :: "'d \<Rightarrow> bool" and lo :: int
  assumes of_to: "ok d \<Longrightarrow> of_day (to_day d) = d"
    and to_of: "lo \<le> n \<Longrightarrow> to_day (of_day n) = n"
    and ok_of: "lo \<le> n \<Longrightarrow> ok (of_day n)"
    and lo_le: "ok d \<Longrightarrow> lo \<le> to_day d"
begin

lemma to_day_inj: "ok d \<Longrightarrow> ok e \<Longrightarrow> to_day d = to_day e \<longleftrightarrow> d = e"
  by (metis of_to)

lemma of_day_inj: "lo \<le> m \<Longrightarrow> lo \<le> n \<Longrightarrow> of_day m = of_day n \<longleftrightarrow> m = n"
  by (metis to_of)

lemma add_days_to_day: "ok d \<Longrightarrow> 0 \<le> k \<Longrightarrow> to_day (of_day (to_day d + k)) = to_day d + k"
  using lo_le [of d] by (simp add: to_of)

lemma add_days_add:
  "ok d \<Longrightarrow> 0 \<le> j \<Longrightarrow> of_day (to_day (of_day (to_day d + j)) + k) = of_day (to_day d + (j + k))"
  by (simp add: add_days_to_day add.assoc)

lemma add_days_zero: "ok d \<Longrightarrow> of_day (to_day d + 0) = d"
  by (simp add: of_to)

end

definition anno_domini :: "civil_date \<Rightarrow> bool" where
  "anno_domini d \<longleftrightarrow> valid_civil d \<and> 1 \<le> year d"

lemma anno_domini_lo: "valid_civil d \<Longrightarrow> 1 \<le> year d \<Longrightarrow> - 719162 \<le> daysFromCivil d"
proof -
  assume v: "valid_civil d" and y: "1 \<le> year d"
  have Y: "0 \<le> march_year d" using y by (simp add: march_year_def)
  have L: "daysFromCivil d = 365 * march_year d + leap_days (march_year d)
      + march_doy (month d) (day d) - 719468"
    by (rule daysFromCivil_leap_days) (use Y in simp)
  have leap: "0 \<le> leap_days (march_year d)"
  proof -
    have "march_year d div 100 \<le> march_year d div 4" using Y by (simp add: zdiv_mono2)
    moreover have "0 \<le> march_year d div 400" using Y by simp
    ultimately show ?thesis unfolding leap_days_def by linarith
  qed
  have doy: "0 \<le> march_doy (month d) (day d)" by (rule march_doy_bounds(1) [OF v])
  show ?thesis
  proof (cases "march_year d = 0")
    case True
    then have two: "month d \<le> 2" using y by (simp add: march_year_def split: if_splits)
    have m: "1 \<le> month d" "month d \<le> 12" and one: "1 \<le> day d" using v by (auto simp: valid_civil_def)
    have "306 \<le> march_doy (month d) (day d)"
      using m two one by (cases rule: month_cases [of "month d"]) (auto simp: march_doy_def)
    with L leap Y show ?thesis by simp
  next
    case False
    with L leap Y doy show ?thesis by simp
  qed
qed

interpretation civil: civil_line daysFromCivil civilFromDays anno_domini "- 719162"
  by unfold_locales
    (simp_all add: anno_domini_def civilFromDays_daysFromCivil civilFromDays_valid
      civilFromDays_year anno_domini_lo)

end

