(* ===== verification/Calendar.thy ===== *)
theory Calendar
  imports Civil_Time
begin

text \<open>
  The second half of \<open>packages/circ-policy/src/calendar.ts\<close>: the hours a calendar is open on a
  date, the searches for the next and the previous open minute within the horizon of 45 days,
  the ends of the open day, and the counts of open and calendar days between two instants.
  A loop bounded by the horizon is a recursion on the days that remain; a date the calendar does
  not cover is an error at the point where the source would throw it.
\<close>

definition assertDefined :: "calendar \<Rightarrow> 'a civil_date_scheme \<Rightarrow> policy_error + unit" where
  "assertDefined cal date =
     (let n = daysFromCivil date
      in if n < daysFromCivil (definedFrom cal) \<or> n > daysFromCivil (definedTo cal)
         then Inl (PolicyResolutionError CalendarNotDefinedFor (Some (cal_id cal)))
         else Inr ())"

definition exceptionOn :: "calendar \<Rightarrow> 'a civil_date_scheme \<Rightarrow> calendar_exception option" where
  "exceptionOn cal date = find (\<lambda>e. civilKey (ex_date e) = civilKey date) (exceptions cal)"

definition hoursOn :: "calendar \<Rightarrow> 'a civil_date_scheme \<Rightarrow> policy_error + opening_interval list" where
  "hoursOn cal date =
     bind_res (assertDefined cal date) (\<lambda>_.
       let key = civilKey date
       in case find (\<lambda>e. civilKey (ex_date e) = key) (exceptions cal) of
            Some e \<Rightarrow> Inr (ex_intervals e)
          | None \<Rightarrow>
              (let wd = weekdayOf (daysFromCivil date)
               in case find (\<lambda>d. weekday d = wd) (weekly cal) of
                    Some d \<Rightarrow> Inr (dh_intervals d)
                  | None \<Rightarrow> Inr []))"

definition covers :: "int \<Rightarrow> opening_interval \<Rightarrow> bool" where
  "covers m i \<longleftrightarrow> m \<ge> iv_open i \<and> m < iv_close i"

definition isOpenAtCivil :: "calendar \<Rightarrow> 'a civil_date_scheme \<Rightarrow> int \<Rightarrow> policy_error + bool" where
  "isOpenAtCivil cal date minuteOfDay =
     bind_res (hoursOn cal date) (\<lambda>hs. Inr (list_ex (covers minuteOfDay) hs))"

definition isOpenAt :: "intl \<Rightarrow> calendar \<Rightarrow> instant \<Rightarrow> policy_error + bool" where
  "isOpenAt intl cal inst =
     (let c = zonedCivil intl inst (timezone cal)
      in isOpenAtCivil cal c (hour c * 60 + minute c))"

definition isOpenDay :: "calendar \<Rightarrow> 'a civil_date_scheme \<Rightarrow> policy_error + bool" where
  "isOpenDay cal date = bind_res (hoursOn cal date) (\<lambda>hs. Inr (length hs > 0))"

section \<open>Searching for an open minute\<close>

fun first_open :: "int \<Rightarrow> opening_interval list \<Rightarrow> int option" where
  "first_open m [] = None"
| "first_open m (iv # ivs) =
     (if m < iv_open iv then Some (iv_open iv)
      else if m < iv_close iv then Some m
      else first_open m ivs)"

fun next_open_loop :: "nat \<Rightarrow> calendar \<Rightarrow> int \<Rightarrow> int \<Rightarrow> policy_error + civil_date \<times> int" where
  "next_open_loop 0 cal d m = Inl (PolicyResolutionError CalendarExhausted (Some (cal_id cal)))"
| "next_open_loop (Suc n) cal d m =
     (let date = civilFromDays d
      in bind_res (hoursOn cal date) (\<lambda>hs.
           case first_open m hs of
             Some m' \<Rightarrow> Inr (date, m')
           | None \<Rightarrow> next_open_loop n cal (d + 1) 0))"

definition nextOpenCivil :: "calendar \<Rightarrow> 'a civil_date_scheme \<Rightarrow> int \<Rightarrow> policy_error + civil_date \<times> int" where
  "nextOpenCivil cal from minuteOfDay =
     next_open_loop ROLL_HORIZON_DAYS cal (daysFromCivil from) minuteOfDay"

fun last_open :: "int \<Rightarrow> opening_interval list \<Rightarrow> int option" where
  "last_open m [] = None"
| "last_open m (iv # ivs) =
     (if m \<ge> iv_close iv then Some (iv_close iv)
      else if m \<ge> iv_open iv then Some m
      else last_open m ivs)"

fun previous_open_loop :: "nat \<Rightarrow> calendar \<Rightarrow> int \<Rightarrow> int \<Rightarrow> policy_error + civil_date \<times> int" where
  "previous_open_loop 0 cal d m = Inl (PolicyResolutionError CalendarExhausted (Some (cal_id cal)))"
| "previous_open_loop (Suc n) cal d m =
     (let date = civilFromDays d
      in bind_res (hoursOn cal date) (\<lambda>hs.
           case last_open m (rev hs) of
             Some m' \<Rightarrow> Inr (date, m')
           | None \<Rightarrow> previous_open_loop n cal (d - 1) (24 * 60)))"

definition previousOpenCivil ::
    "calendar \<Rightarrow> 'a civil_date_scheme \<Rightarrow> int \<Rightarrow> policy_error + civil_date \<times> int" where
  "previousOpenCivil cal from minuteOfDay =
     previous_open_loop ROLL_HORIZON_DAYS cal (daysFromCivil from) minuteOfDay"

definition endOfOpenDay :: "calendar \<Rightarrow> 'a civil_date_scheme \<Rightarrow> policy_error + int option" where
  "endOfOpenDay cal date = bind_res (hoursOn cal date)
     (\<lambda>h. Inr (if length h = 0 then None else Some (iv_close (last h))))"

definition startOfOpenDay :: "calendar \<Rightarrow> 'a civil_date_scheme \<Rightarrow> policy_error + int option" where
  "startOfOpenDay cal date = bind_res (hoursOn cal date)
     (\<lambda>h. Inr (if length h = 0 then None else Some (iv_open (hd h))))"

definition endOfCurrentInterval ::
    "calendar \<Rightarrow> 'a civil_date_scheme \<Rightarrow> int \<Rightarrow> policy_error + int option" where
  "endOfCurrentInterval cal date minuteOfDay = bind_res (hoursOn cal date)
     (\<lambda>h. Inr (map_option iv_close (find (covers minuteOfDay) h)))"

section \<open>Counting days\<close>

fun count_open_days :: "nat \<Rightarrow> calendar \<Rightarrow> int \<Rightarrow> int \<Rightarrow> policy_error + int" where
  "count_open_days 0 cal d n = Inr n"
| "count_open_days (Suc k) cal d n =
     bind_res (isOpenDay cal (civilFromDays d)) (\<lambda>open_day.
       count_open_days k cal (d + 1) (if open_day then n + 1 else n))"

definition openDaysBetween ::
    "intl \<Rightarrow> calendar \<Rightarrow> instant \<Rightarrow> instant \<Rightarrow> bool \<Rightarrow> policy_error + int" where
  "openDaysBetween intl cal from upto_inst countClosed =
     (let a = daysFromCivil (zonedCivil intl from (timezone cal));
          b = daysFromCivil (zonedCivil intl upto_inst (timezone cal))
      in if b \<le> a then Inr 0
         else if countClosed then Inr (b - a)
         else count_open_days (nat (b - a)) cal (a + 1) 0)"

definition calendarDaysBetween :: "intl \<Rightarrow> string \<Rightarrow> instant \<Rightarrow> instant \<Rightarrow> int" where
  "calendarDaysBetween intl tz from upto_inst =
     (let a = daysFromCivil (zonedCivil intl from tz);
          b = daysFromCivil (zonedCivil intl upto_inst tz)
      in max 0 (b - a))"


section \<open>Well-formed hours\<close>

definition wf_hours :: "opening_interval list \<Rightarrow> bool" where
  "wf_hours hs \<longleftrightarrow> (\<forall>i \<in> set hs. 0 \<le> iv_open i \<and> iv_open i < iv_close i \<and> iv_close i \<le> 24 * 60) \<and>
     sorted_wrt (\<lambda>i j. iv_close i \<le> iv_open j) hs"

definition wf_calendar :: "calendar \<Rightarrow> bool" where
  "wf_calendar cal \<longleftrightarrow> list_all (\<lambda>d. wf_hours (dh_intervals d)) (weekly cal) \<and>
     list_all (\<lambda>e. wf_hours (ex_intervals e)) (exceptions cal)"

lemma wf_hours_Nil [simp]: "wf_hours []"
  by (simp add: wf_hours_def)

lemma wf_hours_Cons:
  "wf_hours (i # hs) \<longleftrightarrow> 0 \<le> iv_open i \<and> iv_open i < iv_close i \<and> iv_close i \<le> 24 * 60 \<and>
     (\<forall>j \<in> set hs. iv_close i \<le> iv_open j) \<and> wf_hours hs"
  by (auto simp: wf_hours_def)

lemma wf_hoursOn: "wf_calendar cal \<Longrightarrow> hoursOn cal date = Inr hs \<Longrightarrow> wf_hours hs"
  unfolding hoursOn_def wf_calendar_def
  by (auto simp: bind_res_Inr_iff Let_def list_all_iff find_Some_iff split: option.splits)

lemma assertDefined_Inr_iff:
  "assertDefined cal date = Inr u \<longleftrightarrow>
     daysFromCivil (definedFrom cal) \<le> daysFromCivil date \<and> daysFromCivil date \<le> daysFromCivil (definedTo cal)"
  by (auto simp: assertDefined_def Let_def)

lemma hoursOn_defined_iff:
  "(\<exists>hs. hoursOn cal date = Inr hs) \<longleftrightarrow>
     daysFromCivil (definedFrom cal) \<le> daysFromCivil date \<and> daysFromCivil date \<le> daysFromCivil (definedTo cal)"
  by (auto simp: hoursOn_def bind_res_Inr_iff assertDefined_Inr_iff Let_def split: option.splits)

lemma hoursOn_exception:
  assumes "exceptionOn cal date = Some e" "hoursOn cal date = Inr hs"
  shows "hs = ex_intervals e"
  using assms by (auto simp: hoursOn_def exceptionOn_def bind_res_Inr_iff Let_def)

lemma isOpenAtCivil_Inr_iff:
  "isOpenAtCivil cal date m = Inr b \<longleftrightarrow> (\<exists>hs. hoursOn cal date = Inr hs \<and> b = list_ex (covers m) hs)"
  by (auto simp: isOpenAtCivil_def bind_res_Inr_iff)

lemma open_minute_open_day: "isOpenAtCivil cal date m = Inr True \<Longrightarrow> isOpenDay cal date = Inr True"
  by (auto simp: isOpenAtCivil_Inr_iff isOpenDay_def list_ex_iff)

section \<open>The search finds the first open minute\<close>

lemma first_open_covers: "first_open m hs = Some n \<Longrightarrow> wf_hours hs \<Longrightarrow> list_ex (covers n) hs"
  by (induction hs) (auto simp: wf_hours_Cons covers_def split: if_splits)

lemma first_open_ge: "first_open m hs = Some n \<Longrightarrow> m \<le> n"
  by (induction hs) (auto split: if_splits)

lemma first_open_least:
  "first_open m hs = Some n \<Longrightarrow> wf_hours hs \<Longrightarrow> m \<le> x \<Longrightarrow> x < n \<Longrightarrow> \<not> list_ex (covers x) hs"
proof (induction hs)
  case (Cons i hs)
  then show ?case
    by (fastforce simp: wf_hours_Cons covers_def list_ex_iff split: if_splits)
qed simp

lemma first_open_covered: "list_ex (covers m) hs \<Longrightarrow> wf_hours hs \<Longrightarrow> first_open m hs = Some m"
proof (induction hs)
  case (Cons i hs)
  then show ?case by (fastforce simp: wf_hours_Cons covers_def list_ex_iff)
qed simp

lemma first_open_None:
  "first_open m hs = None \<Longrightarrow> wf_hours hs \<Longrightarrow> m \<le> x \<Longrightarrow> \<not> list_ex (covers x) hs"
  by (induction hs) (auto simp: wf_hours_Cons covers_def split: if_splits)

definition searched :: "int \<Rightarrow> nat \<Rightarrow> int \<Rightarrow> bool" where
  "searched m k x \<longleftrightarrow> (if k = 0 then m \<le> x else 0 \<le> x)"

definition open_on_day :: "calendar \<Rightarrow> int \<Rightarrow> int \<Rightarrow> bool" where
  "open_on_day cal d x \<longleftrightarrow> isOpenAtCivil cal (civilFromDays d) x = Inr True"

lemma open_on_day_hours:
  "hoursOn cal (civilFromDays d) = Inr hs \<Longrightarrow> open_on_day cal d x \<longleftrightarrow> list_ex (covers x) hs"
  by (auto simp: open_on_day_def isOpenAtCivil_Inr_iff)

lemma next_open_loop_first:
  assumes "wf_calendar cal" "next_open_loop n cal d m = Inr (date, m')"
  shows "\<exists>k < n. date = civilFromDays (d + int k) \<and> searched m k m' \<and> open_on_day cal (d + int k) m' \<and>
    (\<forall>j x. searched m j x \<and> (j < k \<or> j = k \<and> x < m') \<longrightarrow> \<not> open_on_day cal (d + int j) x)"
  using assms(2)
proof (induction n arbitrary: d m)
  case (Suc n)
  obtain hs where hs: "hoursOn cal (civilFromDays d) = Inr hs"
    using Suc.prems by (auto simp: Let_def bind_res_Inr_iff)
  have wf: "wf_hours hs" by (rule wf_hoursOn [OF assms(1) hs])
  note today = open_on_day_hours [OF hs]
  show ?case
  proof (cases "first_open m hs")
    case (Some m0)
    then have "date = civilFromDays d" "m' = m0" using Suc.prems hs by (auto simp: Let_def)
    with Some wf show ?thesis
      by (intro exI [of _ 0])
        (auto simp: searched_def today first_open_covers first_open_ge dest: first_open_least)
  next
    case None
    then have "next_open_loop n cal (d + 1) 0 = Inr (date, m')" using Suc.prems hs by (auto simp: Let_def)
    from Suc.IH [OF this] obtain k where k: "k < n" "date = civilFromDays (d + 1 + int k)"
      "searched 0 k m'" "open_on_day cal (d + 1 + int k) m'"
      "\<And>j x. searched 0 j x \<Longrightarrow> j < k \<or> j = k \<and> x < m' \<Longrightarrow> \<not> open_on_day cal (d + 1 + int j) x"
      by blast
    have "\<not> open_on_day cal (d + int j) x"
      if "searched m j x" "j < Suc k \<or> j = Suc k \<and> x < m'" for j x
    proof (cases j)
      case 0
      with that first_open_None [OF None wf] show ?thesis by (simp add: searched_def today)
    next
      case (Suc i)
      with that k(5) [of i x] show ?thesis by (simp add: searched_def add.assoc)
    qed
    with k show ?thesis
      by (intro exI [of _ "Suc k"]) (auto simp: searched_def add.assoc)
  qed
qed simp

lemma next_open_loop_Inl:
  assumes "wf_calendar cal" "next_open_loop n cal d m = Inl e"
    and "\<forall>k < n. \<exists>hs. hoursOn cal (civilFromDays (d + int k)) = Inr hs"
  shows "e = PolicyResolutionError CalendarExhausted (Some (cal_id cal)) \<and>
    (\<forall>k < n. \<forall>x. searched m k x \<longrightarrow> \<not> open_on_day cal (d + int k) x)"
  using assms(2,3)
proof (induction n arbitrary: d m)
  case (Suc n)
  obtain hs where hs: "hoursOn cal (civilFromDays d) = Inr hs"
    using Suc.prems(2) by (metis add.right_neutral of_nat_0 zero_less_Suc)
  have wf: "wf_hours hs" by (rule wf_hoursOn [OF assms(1) hs])
  have none: "first_open m hs = None"
    using Suc.prems(1) hs by (auto simp: Let_def split: option.splits)
  have nxt: "next_open_loop n cal (d + 1) 0 = Inl e" using Suc.prems(1) hs none by (simp add: Let_def)
  have defd: "\<forall>k<n. \<exists>hs. hoursOn cal (civilFromDays (d + 1 + int k)) = Inr hs"
    using Suc.prems(2) by (auto simp: add.assoc dest: spec [where x = "Suc k" for k])
  note IH = Suc.IH [OF nxt defd]
  have "\<not> open_on_day cal (d + int k) x" if "k < Suc n" "searched m k x" for k x
  proof (cases k)
    case 0
    with that first_open_None [OF none wf] show ?thesis
      by (simp add: searched_def open_on_day_hours [OF hs])
  next
    case (Suc i)
    with that IH show ?thesis by (auto simp: searched_def add.assoc)
  qed
  with IH show ?case by blast
qed (simp add: eq_commute)


lemma nextOpenCivil_first:
  assumes "wf_calendar cal" "nextOpenCivil cal from m = Inr (date, m')"
  shows "\<exists>k < 45. date = civilFromDays (daysFromCivil from + int k) \<and> searched m k m' \<and>
    open_on_day cal (daysFromCivil from + int k) m' \<and>
    (\<forall>j x. searched m j x \<and> (j < k \<or> j = k \<and> x < m') \<longrightarrow>
       \<not> open_on_day cal (daysFromCivil from + int j) x)"
  using next_open_loop_first [OF assms(1) assms(2) [unfolded nextOpenCivil_def]]
  by (simp add: ROLL_HORIZON_DAYS_def)

lemma nextOpenCivil_Inl:
  assumes "wf_calendar cal" "nextOpenCivil cal from m = Inl e"
    and "\<forall>k < 45. \<exists>hs. hoursOn cal (civilFromDays (daysFromCivil from + int k)) = Inr hs"
  shows "e = PolicyResolutionError CalendarExhausted (Some (cal_id cal)) \<and>
    (\<forall>k < 45. \<forall>x. searched m k x \<longrightarrow> \<not> open_on_day cal (daysFromCivil from + int k) x)"
  using next_open_loop_Inl [OF assms(1) assms(2) [unfolded nextOpenCivil_def]] assms(3)
  by (simp add: ROLL_HORIZON_DAYS_def)

lemma nextOpenCivil_open:
  "wf_calendar cal \<Longrightarrow> nextOpenCivil cal from m = Inr (date, m') \<Longrightarrow> isOpenAtCivil cal date m' = Inr True"
  by (auto dest!: nextOpenCivil_first simp: open_on_day_def)

lemma nextOpenCivil_already_open:
  assumes "isOpenAtCivil cal (civilFromDays (daysFromCivil from)) m = Inr True" "wf_calendar cal"
  shows "nextOpenCivil cal from m = Inr (civilFromDays (daysFromCivil from), m)"
proof -
  obtain hs where hs: "hoursOn cal (civilFromDays (daysFromCivil from)) = Inr hs" "list_ex (covers m) hs"
    using assms(1) by (auto simp: isOpenAtCivil_Inr_iff)
  have wf: "wf_hours hs" by (rule wf_hoursOn [OF assms(2) hs(1)])
  have "first_open m hs = Some m"
    using hs(2) wf by (rule first_open_covered)
  with hs(1) show ?thesis
    by (simp add: nextOpenCivil_def ROLL_HORIZON_DAYS_def numeral_eq_Suc Let_def)
qed

section \<open>The search backwards finds the last open or closing minute\<close>

definition covers_closing :: "int \<Rightarrow> opening_interval \<Rightarrow> bool" where
  "covers_closing m i \<longleftrightarrow> iv_open i \<le> m \<and> m \<le> iv_close i"

definition wf_hours_rev :: "opening_interval list \<Rightarrow> bool" where
  "wf_hours_rev hs \<longleftrightarrow> wf_hours (rev hs)"

lemma wf_hours_rev_Cons:
  "wf_hours_rev (i # hs) \<longleftrightarrow> 0 \<le> iv_open i \<and> iv_open i < iv_close i \<and> iv_close i \<le> 24 * 60 \<and>
     (\<forall>j \<in> set hs. iv_close j \<le> iv_open i) \<and> wf_hours_rev hs"
  by (auto simp: wf_hours_rev_def wf_hours_def sorted_wrt_append)

lemma last_open_covers:
  "last_open m hs = Some n \<Longrightarrow> wf_hours_rev hs \<Longrightarrow> list_ex (covers_closing n) hs \<and> n \<le> m"
  by (induction hs) (auto simp: wf_hours_rev_Cons covers_closing_def split: if_splits)

lemma last_open_greatest:
  "last_open m hs = Some n \<Longrightarrow> wf_hours_rev hs \<Longrightarrow> x \<le> m \<Longrightarrow> n < x \<Longrightarrow> \<not> list_ex (covers_closing x) hs"
proof (induction hs)
  case (Cons i hs)
  then show ?case
    by (fastforce simp: wf_hours_rev_Cons covers_closing_def list_ex_iff split: if_splits)
qed simp

lemma last_open_None:
  "last_open m hs = None \<Longrightarrow> wf_hours_rev hs \<Longrightarrow> x \<le> m \<Longrightarrow> \<not> list_ex (covers_closing x) hs"
  by (induction hs) (auto simp: wf_hours_rev_Cons covers_closing_def split: if_splits)

definition searched_back :: "int \<Rightarrow> nat \<Rightarrow> int \<Rightarrow> bool" where
  "searched_back m k x \<longleftrightarrow> (if k = 0 then x \<le> m else x \<le> 24 * 60)"

definition open_or_closing :: "calendar \<Rightarrow> int \<Rightarrow> int \<Rightarrow> bool" where
  "open_or_closing cal d x \<longleftrightarrow>
     (case hoursOn cal (civilFromDays d) of Inl _ \<Rightarrow> False | Inr hs \<Rightarrow> list_ex (covers_closing x) hs)"

lemma previous_open_loop_last:
  assumes "wf_calendar cal" "previous_open_loop n cal d m = Inr (date, m')"
  shows "\<exists>k < n. date = civilFromDays (d - int k) \<and> searched_back m k m' \<and>
    open_or_closing cal (d - int k) m' \<and>
    (\<forall>j x. searched_back m j x \<and> (j < k \<or> j = k \<and> m' < x) \<longrightarrow> \<not> open_or_closing cal (d - int j) x)"
  using assms(2)
proof (induction n arbitrary: d m)
  case (Suc n)
  obtain hs where hs: "hoursOn cal (civilFromDays d) = Inr hs"
    using Suc.prems by (auto simp: Let_def bind_res_Inr_iff)
  have wf: "wf_hours_rev (rev hs)" using wf_hoursOn [OF assms(1) hs] by (simp add: wf_hours_rev_def)
  have today: "open_or_closing cal d x \<longleftrightarrow> list_ex (covers_closing x) (rev hs)" for x
    by (simp add: open_or_closing_def hs)
  show ?case
  proof (cases "last_open m (rev hs)")
    case (Some m0)
    then have "date = civilFromDays d" "m' = m0" using Suc.prems hs by (auto simp: Let_def)
    with last_open_covers [OF Some wf] last_open_greatest [OF Some wf] show ?thesis
      by (intro exI [of _ 0]) (auto simp: searched_back_def today)
  next
    case None
    then have "previous_open_loop n cal (d - 1) (24 * 60) = Inr (date, m')"
      using Suc.prems hs by (auto simp: Let_def)
    from Suc.IH [OF this] obtain k where k: "k < n" "date = civilFromDays (d - 1 - int k)"
      "searched_back (24 * 60) k m'" "open_or_closing cal (d - 1 - int k) m'"
      "\<And>j x. searched_back (24 * 60) j x \<Longrightarrow> j < k \<or> j = k \<and> m' < x \<Longrightarrow>
         \<not> open_or_closing cal (d - 1 - int j) x"
      by blast
    have "\<not> open_or_closing cal (d - int j) x"
      if "searched_back m j x" "j < Suc k \<or> j = Suc k \<and> m' < x" for j x
    proof (cases j)
      case 0
      with that last_open_None [OF None wf] show ?thesis by (simp add: searched_back_def today)
    next
      case (Suc i)
      with that k(5) [of i x] show ?thesis by (simp add: searched_back_def diff_diff_eq)
    qed
    moreover have "searched_back m (Suc k) m'"
      using k(3) by (simp add: searched_back_def split: if_splits)
    ultimately show ?thesis
      using k(1,2,4) by (intro exI [of _ "Suc k"]) (auto simp: diff_diff_eq)
  qed
qed simp

lemma previousOpenCivil_last:
  assumes "wf_calendar cal" "previousOpenCivil cal from m = Inr (date, m')"
  shows "\<exists>k < 45. date = civilFromDays (daysFromCivil from - int k) \<and> searched_back m k m' \<and>
    open_or_closing cal (daysFromCivil from - int k) m' \<and>
    (\<forall>j x. searched_back m j x \<and> (j < k \<or> j = k \<and> m' < x) \<longrightarrow>
       \<not> open_or_closing cal (daysFromCivil from - int j) x)"
  using previous_open_loop_last [OF assms(1) assms(2) [unfolded previousOpenCivil_def]]
  by (simp add: ROLL_HORIZON_DAYS_def)

lemma endOfOpenDay_greatest:
  assumes "wf_calendar cal" "endOfOpenDay cal date = Inr (Some c)" "isOpenAtCivil cal date x = Inr True"
  shows "x < c"
proof -
  obtain hs where hs: "hoursOn cal date = Inr hs" "hs \<noteq> []" "c = iv_close (last hs)"
    using assms(2) by (auto simp: endOfOpenDay_def bind_res_Inr_iff split: if_splits)
  obtain i where i: "i \<in> set hs" "x < iv_close i"
    using assms(3) hs(1) by (auto simp: isOpenAtCivil_Inr_iff list_ex_iff covers_def)
  have "iv_close i \<le> iv_close (last hs)"
    using wf_hoursOn [OF assms(1) hs(1)] i(1)
  proof (induction hs)
    case (Cons a hs)
    then show ?case
      by (cases "hs = []") (auto simp: wf_hours_Cons, meson last_in_set less_imp_le order_trans wf_hours_def)
  qed simp
  with i(2) hs(3) show ?thesis by simp
qed

lemma endOfCurrentInterval_covers:
  assumes "endOfCurrentInterval cal date m = Inr (Some c)"
  shows "isOpenAtCivil cal date m = Inr True \<and> m < c"
proof -
  obtain hs i where hs: "hoursOn cal date = Inr hs" "find (covers m) hs = Some i" "c = iv_close i"
    using assms by (auto simp: endOfCurrentInterval_def bind_res_Inr_iff)
  then have "i \<in> set hs" "covers m i" by (auto simp: find_Some_iff)
  with hs show ?thesis by (auto simp: isOpenAtCivil_Inr_iff list_ex_iff covers_def)
qed


section \<open>Counting open days\<close>

lemma count_open_days_card:
  "count_open_days k cal d n = Inr r \<Longrightarrow>
     r = n + int (card {x. d \<le> x \<and> x < d + int k \<and> isOpenDay cal (civilFromDays x) = Inr True})"
proof (induction k arbitrary: d n)
  case 0
  have "{x. d \<le> x \<and> x < d + int 0 \<and> isOpenDay cal (civilFromDays x) = Inr True} = {}" by auto
  with 0 show ?case by (simp only: count_open_days.simps card.empty) simp
next
  case (Suc k)
  let ?S = "{x. d + 1 \<le> x \<and> x < d + 1 + int k \<and> isOpenDay cal (civilFromDays x) = Inr True}"
  let ?T = "{x. d \<le> x \<and> x < d + int (Suc k) \<and> isOpenDay cal (civilFromDays x) = Inr True}"
  obtain b where b: "isOpenDay cal (civilFromDays d) = Inr b"
      "count_open_days k cal (d + 1) (if b then n + 1 else n) = Inr r"
    using Suc.prems by (auto simp: bind_res_Inr_iff)
  have IH: "r = (if b then n + 1 else n) + int (card ?S)" by (rule Suc.IH [OF b(2)])
  have fin: "finite ?S" by (rule finite_subset [of _ "{d..d + int k + 1}"]) auto
  have T: "?T = (if b then insert d ?S else ?S)"
    using b(1) by (auto simp: order_le_less)
  show ?case
  proof (cases b)
    case True
    have "card (insert d ?S) = Suc (card ?S)" using fin by simp
    with IH True T show ?thesis by simp
  next
    case False
    with IH T show ?thesis by simp
  qed
qed

lemma count_open_days_append:
  "count_open_days (j + k) cal d n =
     bind_res (count_open_days j cal d n) (\<lambda>r. count_open_days k cal (d + int j) r)"
  by (induction j arbitrary: d n) (simp_all add: bind_res_assoc ac_simps)

lemma count_open_days_shift:
  "count_open_days k cal d (n + c) = map_sum id (\<lambda>r. r + c) (count_open_days k cal d n)"
proof (induction k arbitrary: d n)
  case (Suc k)
  have "(if b then n + c + 1 else n + c) = (if b then n + 1 else n) + c" for b by simp
  then show ?case by (simp only: count_open_days.simps Suc.IH) (cases "isOpenDay cal (civilFromDays d)"; simp)
qed simp

lemma openDaysBetween_card:
  assumes "openDaysBetween intl cal from upto_inst False = Inr r"
  shows "r = int (card {x. daysFromCivil (zonedCivil intl from (timezone cal)) < x \<and>
      x \<le> daysFromCivil (zonedCivil intl upto_inst (timezone cal)) \<and>
      isOpenDay cal (civilFromDays x) = Inr True})"
proof -
  define a b where "a = daysFromCivil (zonedCivil intl from (timezone cal))"
    and "b = daysFromCivil (zonedCivil intl upto_inst (timezone cal))"
  show ?thesis
  proof (cases "b \<le> a")
    case True
    then have "{x. a < x \<and> x \<le> b \<and> isOpenDay cal (civilFromDays x) = Inr True} = {}" by auto
    then show ?thesis
      using assms True by (simp only: openDaysBetween_def Let_def a_def [symmetric] b_def [symmetric]) simp
  next
    case False
    then have "count_open_days (nat (b - a)) cal (a + 1) 0 = Inr r"
      using assms by (simp add: openDaysBetween_def a_def b_def Let_def)
    from count_open_days_card [OF this]
    have "r = int (card {x. a + 1 \<le> x \<and> x < b + 1 \<and> isOpenDay cal (civilFromDays x) = Inr True})"
      using False by (simp add: add.commute)
    moreover have "{x. a + 1 \<le> x \<and> x < b + 1 \<and> isOpenDay cal (civilFromDays x) = Inr True} =
      {x. a < x \<and> x \<le> b \<and> isOpenDay cal (civilFromDays x) = Inr True}" by auto
    ultimately show ?thesis by (simp add: a_def b_def)
  qed
qed

lemma openDaysBetween_le:
  assumes "openDaysBetween intl cal from upto_inst cc = Inr r"
  shows "0 \<le> r \<and> r \<le> calendarDaysBetween intl (timezone cal) from upto_inst"
proof (cases cc)
  case True
  with assms show ?thesis
    by (auto simp: openDaysBetween_def calendarDaysBetween_def Let_def split: if_splits)
next
  case False
  define a b where "a = daysFromCivil (zonedCivil intl from (timezone cal))"
    and "b = daysFromCivil (zonedCivil intl upto_inst (timezone cal))"
  let ?S = "{x. a < x \<and> x \<le> b \<and> isOpenDay cal (civilFromDays x) = Inr True}"
  have "card ?S \<le> card {a<..b}" by (rule card_mono) auto
  moreover have "r = int (card ?S)"
    unfolding a_def b_def using assms False by (intro openDaysBetween_card) simp
  ultimately show ?thesis by (simp add: calendarDaysBetween_def a_def [symmetric] b_def [symmetric])
qed

lemma openDaysBetween_additive:
  assumes "openDaysBetween intl cal t0 t1 cc = Inr r" "openDaysBetween intl cal t1 t2 cc = Inr s"
    and "daysFromCivil (zonedCivil intl t0 (timezone cal)) \<le> daysFromCivil (zonedCivil intl t1 (timezone cal))"
    and "daysFromCivil (zonedCivil intl t1 (timezone cal)) \<le> daysFromCivil (zonedCivil intl t2 (timezone cal))"
  shows "openDaysBetween intl cal t0 t2 cc = Inr (r + s)"
proof -
  define a b c where "a = daysFromCivil (zonedCivil intl t0 (timezone cal))"
    and "b = daysFromCivil (zonedCivil intl t1 (timezone cal))"
    and "c = daysFromCivil (zonedCivil intl t2 (timezone cal))"
  note abc = a_def [symmetric] b_def [symmetric] c_def [symmetric]
  have le: "a \<le> b" "b \<le> c" using assms(3,4) by (simp_all add: abc)
  show ?thesis
  proof (cases cc)
    case True
    with assms(1,2) le show ?thesis
      by (auto simp: openDaysBetween_def Let_def abc split: if_splits)
  next
    case False
    have r: "count_open_days (nat (b - a)) cal (a + 1) 0 = Inr r"
      using assms(1) le False by (cases "b = a") (auto simp: openDaysBetween_def Let_def abc)
    have s: "count_open_days (nat (c - b)) cal (b + 1) 0 = Inr s"
      using assms(2) le False by (cases "c = b") (auto simp: openDaysBetween_def Let_def abc)
    have split: "nat (c - a) = nat (b - a) + nat (c - b)" using le by simp
    have "count_open_days (nat (c - a)) cal (a + 1) 0 =
        count_open_days (nat (c - b)) cal (a + 1 + int (nat (b - a))) r"
      unfolding split count_open_days_append r by simp
    also have "a + 1 + int (nat (b - a)) = b + 1" using le by simp
    also have "count_open_days (nat (c - b)) cal (b + 1) r = Inr (r + s)"
      using count_open_days_shift [of "nat (c - b)" cal "b + 1" 0 r] s by simp
    finally show ?thesis
      using le False by (cases "c = a") (auto simp: openDaysBetween_def Let_def abc)
  qed
qed

end
