(* ===== verification/Greek_Calendar.thy ===== *)
theory Greek_Calendar
  imports Calendar
begin

text \<open>
  \<open>packages/circ-policy/src/greek-calendar.ts\<close>: Orthodox Pascha by the Julian paschalion, the
  movable and the fixed closures of a year, and the exception rows made of them. The names of
  the feasts are given by their code points and held, as every string here, as UTF-8 bytes.
\<close>

section \<open>Orthodox Pascha\<close>

datatype range_error = RangeError

definition orthodoxPascha :: "int \<Rightarrow> range_error + civil_date" where
  "orthodoxPascha y =
     (if y < 1900 \<or> y > 2099 then Inl RangeError
      else
        (let a = js_rem y 4;
             b = js_rem y 7;
             c = js_rem y 19;
             d = js_rem (19 * c + 15) 30;
             e = js_rem (2 * a + 4 * b - d + 34) 7;
             julianMonth = (d + e + 114) div 31;
             julianDay = js_rem (d + e + 114) 31 + 1
         in Inr (civilFromDays
              (daysFromCivil \<lparr>year = y, month = julianMonth, day = julianDay\<rparr> + 13))))"

section \<open>The closures of a year\<close>

definition MOVABLE :: "(int \<times> string) list" where
  "MOVABLE =
    [
     (- 48, utf8 [0x39a, 0x3b1, 0x3b8, 0x3b1, 0x3c1, 0x3ac, 0x20, 0x394, 0x3b5, 0x3c5, 0x3c4,
       0x3ad, 0x3c1, 0x3b1]),
     (- 2, utf8 [0x39c, 0x3b5, 0x3b3, 0x3ac, 0x3bb, 0x3b7, 0x20, 0x3a0, 0x3b1, 0x3c1, 0x3b1,
       0x3c3, 0x3ba, 0x3b5, 0x3c5, 0x3ae]),
     (- 1, utf8 [0x39c, 0x3ad, 0x3b3, 0x3b1, 0x20, 0x3a3, 0x3ac, 0x3b2, 0x3b2, 0x3b1, 0x3c4,
       0x3bf]),
     (0, utf8 [0x39a, 0x3c5, 0x3c1, 0x3b9, 0x3b1, 0x3ba, 0x3ae, 0x20, 0x3c4, 0x3bf, 0x3c5, 0x20,
       0x3a0, 0x3ac, 0x3c3, 0x3c7, 0x3b1]),
     (1, utf8 [0x394, 0x3b5, 0x3c5, 0x3c4, 0x3ad, 0x3c1, 0x3b1, 0x20, 0x3c4, 0x3bf, 0x3c5, 0x20,
       0x3a0, 0x3ac, 0x3c3, 0x3c7, 0x3b1]),
     (50, utf8 [0x391, 0x3b3, 0x3af, 0x3bf, 0x3c5, 0x20, 0x3a0, 0x3bd, 0x3b5, 0x3cd, 0x3bc, 0x3b1,
       0x3c4, 0x3bf, 0x3c2])
    ]"

definition FIXED :: "(int \<times> int \<times> string) list" where
  "FIXED =
    [
     (1, 1, utf8 [0x3a0, 0x3c1, 0x3c9, 0x3c4, 0x3bf, 0x3c7, 0x3c1, 0x3bf, 0x3bd, 0x3b9, 0x3ac]),
     (1, 6, utf8 [0x398, 0x3b5, 0x3bf, 0x3c6, 0x3ac, 0x3bd, 0x3b5, 0x3b9, 0x3b1]),
     (3, 25, utf8 [0x395, 0x3c5, 0x3b1, 0x3b3, 0x3b3, 0x3b5, 0x3bb, 0x3b9, 0x3c3, 0x3bc, 0x3cc,
       0x3c2, 0x20, 0x2f, 0x20, 0x395, 0x3b8, 0x3bd, 0x3b9, 0x3ba, 0x3ae, 0x20, 0x395, 0x3bf,
       0x3c1, 0x3c4, 0x3ae]),
     (5, 1, utf8 [0x3a0, 0x3c1, 0x3c9, 0x3c4, 0x3bf, 0x3bc, 0x3b1, 0x3b3, 0x3b9, 0x3ac]),
     (8, 15, utf8 [0x39a, 0x3bf, 0x3af, 0x3bc, 0x3b7, 0x3c3, 0x3b7, 0x20, 0x3c4, 0x3b7, 0x3c2,
       0x20, 0x398, 0x3b5, 0x3bf, 0x3c4, 0x3cc, 0x3ba, 0x3bf, 0x3c5]),
     (10, 28, utf8 [0x395, 0x3c0, 0x3ad, 0x3c4, 0x3b5, 0x3b9, 0x3bf, 0x3c2, 0x20, 0x3c4, 0x3bf,
       0x3c5, 0x20, 0x39f, 0x3a7, 0x399]),
     (12, 25, utf8 [0x3a7, 0x3c1, 0x3b9, 0x3c3, 0x3c4, 0x3bf, 0x3cd, 0x3b3, 0x3b5, 0x3bd, 0x3bd,
       0x3b1]),
     (12, 26, utf8 [0x3a3, 0x3cd, 0x3bd, 0x3b1, 0x3be, 0x3b7, 0x20, 0x398, 0x3b5, 0x3bf, 0x3c4,
       0x3cc, 0x3ba, 0x3bf, 0x3c5])
    ]"

definition greekMovableFeasts :: "int \<Rightarrow> range_error + (civil_date \<times> string) list" where
  "greekMovableFeasts y =
     bind_res (orthodoxPascha y) (\<lambda>p.
       let pascha = daysFromCivil p
       in Inr (map (\<lambda>(offset, name). (civilFromDays (pascha + offset), name)) MOVABLE))"

definition greekFixedHolidays :: "int \<Rightarrow> (civil_date \<times> string) list" where
  "greekFixedHolidays y =
     map (\<lambda>(m, d, name). (\<lparr>year = y, month = m, day = d\<rparr>, name)) FIXED"

definition closed_row :: "civil_date \<times> string \<Rightarrow> int \<times> calendar_exception" where
  "closed_row f = (daysFromCivil (fst f), \<lparr>ex_date = fst f, ex_intervals = [], ex_name = snd f\<rparr>)"

definition compare_keys :: "int \<times> 'a \<Rightarrow> int \<times> 'a \<Rightarrow> int" where
  "compare_keys a b = fst a - fst b"

definition greekCalendarExceptions :: "int \<Rightarrow> range_error + calendar_exception list" where
  "greekCalendarExceptions y =
     bind_res (greekMovableFeasts y) (\<lambda>movable.
       let byDate = map_set_all (map closed_row movable) [];
           byDate = map_set_all (map closed_row (greekFixedHolidays y)) byDate
       in Inr (map snd (js_sort compare_keys byDate)))"

definition greekCalendarExceptionsForYears ::
    "int \<Rightarrow> int \<Rightarrow> range_error + calendar_exception list" where
  "greekCalendarExceptionsForYears fromYear toYear =
     bind_res (map_res greekCalendarExceptions [fromYear..toYear]) (\<lambda>rows. Inr (concat rows))"


section \<open>Pascha is the first Sunday after the paschal full moon\<close>

text \<open>
  The rule the paschalion computes, stated on the day line: the day number of a date of the
  Julian calendar (a leap year every fourth year), the full moon of the nineteen-year cycle
  counted from the Julian 21 March, and the first Sunday after it.
\<close>

definition julian_day :: "int \<Rightarrow> int \<Rightarrow> int \<Rightarrow> int" where
  "julian_day y m d =
     (let y' = (if m \<le> 2 then y - 1 else y) in 365 * y' + y' div 4 + march_doy m d - 719470)"

definition paschal_moon :: "int \<Rightarrow> int" where
  "paschal_moon y = julian_day y 3 21 + (19 * (y mod 19) + 15) mod 30"

definition year_day :: "int \<Rightarrow> int \<Rightarrow> int \<Rightarrow> int" where
  "year_day y m d = daysFromCivil \<lparr>year = y, month = m, day = d\<rparr>"

definition pascha_facts :: "int \<Rightarrow> civil_date \<Rightarrow> bool" where
  "pascha_facts y p \<longleftrightarrow>
     (let n = daysFromCivil p
      in weekdayOf n = 0 \<and> paschal_moon y < n \<and> n \<le> paschal_moon y + 7 \<and>
         year_day y 4 4 \<le> n \<and> n \<le> year_day y 5 8)"

definition pascha_checked :: "int \<Rightarrow> bool" where
  "pascha_checked y \<longleftrightarrow> (case orthodoxPascha y of Inl _ \<Rightarrow> False | Inr p \<Rightarrow> pascha_facts y p)"

definition fixed_dates :: "(int \<times> int) list" where
  "fixed_dates = [(1, 1), (1, 6), (3, 25), (5, 1), (8, 15), (10, 28), (12, 25), (12, 26)]"

lemma fixed_dates_FIXED: "map (\<lambda>f. (fst f, fst (snd f))) FIXED = fixed_dates"
  by (simp add: FIXED_def fixed_dates_def)

definition year_line :: "int \<Rightarrow> bool" where
  "year_line y \<longleftrightarrow> year_day y 1 1 \<le> year_day y 4 4 - 48 \<and> year_day y 5 8 + 50 \<le> year_day y 12 31 \<and>
     year_day (y + 1) 1 1 = year_day y 12 31 + 1 \<and>
     list_all (\<lambda>(m, d). year_day y 1 1 \<le> year_day y m d \<and> year_day y m d \<le> year_day y 12 31) fixed_dates"

lemma pascha_1900_1949: "list_all (\<lambda>y. pascha_checked y \<and> year_line y) [1900..1949]"
  by code_simp

lemma pascha_1950_1999: "list_all (\<lambda>y. pascha_checked y \<and> year_line y) [1950..1999]"
  by code_simp

lemma pascha_2000_2049: "list_all (\<lambda>y. pascha_checked y \<and> year_line y) [2000..2049]"
  by code_simp

lemma pascha_2050_2099: "list_all (\<lambda>y. pascha_checked y \<and> year_line y) [2050..2099]"
  by code_simp


lemma pascha_years:
  assumes "1900 \<le> y" "y \<le> 2099"
  shows "pascha_checked y" "year_line y"
proof -
  have "y \<in> set [1900..1949] \<or> y \<in> set [1950..1999] \<or> y \<in> set [2000..2049] \<or> y \<in> set [2050..2099]"
    unfolding set_upto atLeastAtMost_iff using assms by linarith
  then show "pascha_checked y" "year_line y"
    using pascha_1900_1949 pascha_1950_1999 pascha_2000_2049 pascha_2050_2099
    unfolding list_all_iff by blast+
qed

lemma orthodoxPascha_error_iff: "orthodoxPascha y = Inl e \<longleftrightarrow> y < 1900 \<or> 2099 < y"
  by (cases e) (simp add: orthodoxPascha_def Let_def)

lemma orthodoxPascha_range: "orthodoxPascha y = Inr p \<Longrightarrow> 1900 \<le> y \<and> y \<le> 2099"
  by (auto simp: orthodoxPascha_def split: if_splits)

lemma orthodoxPascha_facts: "orthodoxPascha y = Inr p \<Longrightarrow> pascha_facts y p"
  using pascha_years(1) [of y] orthodoxPascha_range [of y p] by (simp add: pascha_checked_def)

section \<open>The rows\<close>

lemma compare_keys_order: "keyed_comparator (compare_keys :: int \<times> 'a \<Rightarrow> _) fst"
  by unfold_locales (auto simp: compare_keys_def)

interpretation by_day: keyed_comparator "compare_keys :: int \<times> calendar_exception \<Rightarrow> _" fst
  by (rule compare_keys_order)

definition date_line :: "calendar_exception list \<Rightarrow> int list" where
  "date_line rows = map (\<lambda>e. daysFromCivil (ex_date e)) rows"

lemma strict_keys:
  assumes "distinct (map fst ps)" "sorted_wrt (\<lambda>a b. compare_keys a b \<le> 0) ps"
  shows "sorted_wrt (<) (map fst ps)"
  using assms
proof (induction ps)
  case (Cons p ps)
  then show ?case by (auto simp: compare_keys_def order_less_le)
qed simp

definition closed_days :: "int \<Rightarrow> civil_date \<Rightarrow> (int \<times> calendar_exception) list" where
  "closed_days y p = map_set_all (map closed_row (greekFixedHolidays y))
     (map_set_all (map closed_row
        (map (\<lambda>(offset, name). (civilFromDays (daysFromCivil p + offset), name)) MOVABLE)) [])"

lemma greekCalendarExceptions_Inr:
  "greekCalendarExceptions y = Inr rows \<longleftrightarrow>
     (\<exists>p. orthodoxPascha y = Inr p \<and> rows = map snd (js_sort compare_keys (closed_days y p)))"
  by (auto simp: greekCalendarExceptions_def greekMovableFeasts_def bind_res_Inr_iff closed_days_def Let_def)

lemma map_set_all_keyed:
  assumes "\<forall>kv \<in> set kvs. Q kv" "\<forall>kv \<in> set ps. Q kv"
  shows "\<forall>kv \<in> set (map_set_all kvs ps). Q kv"
  using assms
proof (induction kvs arbitrary: ps)
  case (Cons kv kvs)
  obtain k v where kv: "kv = (k, v)" by (cases kv)
  have "\<forall>kv \<in> set (map_set k v ps). Q kv"
    using Cons.prems kv by (induction ps) (auto split: if_splits)
  with Cons kv show ?case by (simp add: map_set_all_def)
qed (simp add: map_set_all_def)

definition closed_entry :: "int \<times> calendar_exception \<Rightarrow> bool" where
  "closed_entry kv \<longleftrightarrow> fst kv = daysFromCivil (ex_date (snd kv)) \<and> ex_intervals (snd kv) = []"

lemma closed_entry_closed_row [simp]: "closed_entry (closed_row f)"
  by (simp add: closed_entry_def closed_row_def)

lemma closed_days_entries: "kv \<in> set (closed_days y p) \<Longrightarrow> closed_entry kv"
proof -
  have "\<forall>kv \<in> set (closed_days y p). closed_entry kv"
    unfolding closed_days_def by (intro map_set_all_keyed) auto
  then show "kv \<in> set (closed_days y p) \<Longrightarrow> closed_entry kv" by blast
qed

lemma closed_days_distinct: "distinct (map fst (closed_days y p))"
  unfolding closed_days_def by (intro distinct_map_set_all) simp

lemma greek_rows_strict: "greekCalendarExceptions y = Inr rows \<Longrightarrow> sorted_wrt (<) (date_line rows)"
proof -
  assume "greekCalendarExceptions y = Inr rows"
  then obtain p where rows: "rows = map snd (js_sort compare_keys (closed_days y p))"
    by (auto simp: greekCalendarExceptions_Inr)
  let ?ps = "js_sort compare_keys (closed_days y p)"
  have "date_line rows = map fst ?ps"
    using closed_days_entries [of _ y p] unfolding rows date_line_def map_map
    by (intro map_cong) (auto simp: closed_entry_def)
  moreover have "distinct (map fst ?ps)"
  proof -
    have "mset (map fst ?ps) = mset (map fst (closed_days y p))" by simp
    then show ?thesis using closed_days_distinct mset_eq_imp_distinct_iff by blast
  qed
  ultimately show ?thesis using strict_keys by_day.sorted_js_sort by metis
qed

lemma greek_rows_closed: "greekCalendarExceptions y = Inr rows \<Longrightarrow> e \<in> set rows \<Longrightarrow> ex_intervals e = []"
  by (auto simp: greekCalendarExceptions_Inr closed_entry_def dest!: closed_days_entries)

lemma greek_row_keys:
  assumes "orthodoxPascha y = Inr p" "greekCalendarExceptions y = Inr rows"
  shows "set (date_line rows) =
    (\<lambda>f. daysFromCivil (fst f)) ` set (greekFixedHolidays y) \<union>
    (\<lambda>m. daysFromCivil (civilFromDays (daysFromCivil p + fst m))) ` set MOVABLE"
proof -
  have "rows = map snd (js_sort compare_keys (closed_days y p))"
    using assms by (auto simp: greekCalendarExceptions_Inr)
  then have "set (date_line rows) = fst ` set (closed_days y p)"
    using closed_days_entries [of _ y p]
    by (auto simp: date_line_def closed_entry_def image_iff split: prod.splits)
  also have "\<dots> = (\<lambda>f. daysFromCivil (fst f)) ` set (greekFixedHolidays y) \<union>
    (\<lambda>m. daysFromCivil (civilFromDays (daysFromCivil p + fst m))) ` set MOVABLE"
    unfolding closed_days_def keys_map_set_all
    by (auto simp: closed_row_def image_image split_def)
  finally show ?thesis .
qed


lemma map_of_closed_days:
  "map_of (closed_days y p) = map_of (rev (map closed_row
      (map (\<lambda>(offset, name). (civilFromDays (daysFromCivil p + offset), name)) MOVABLE)))
    ++ map_of (rev (map closed_row (greekFixedHolidays y)))"
  by (simp add: closed_days_def map_of_map_set_all)

lemma fixed_anno_domini: "1 \<le> y \<Longrightarrow> (date, name) \<in> set (greekFixedHolidays y) \<Longrightarrow> anno_domini date"
  by (auto simp: greekFixedHolidays_def FIXED_def anno_domini_def valid_civil_def month_length_def)

lemma fixed_distinct:
  assumes "1 \<le> y"
  shows "distinct (map fst (map closed_row (greekFixedHolidays y)))"
proof -
  have "inj_on daysFromCivil (set (map fst (greekFixedHolidays y)))"
  proof (rule inj_onI)
    fix d e assume "d \<in> set (map fst (greekFixedHolidays y))" "e \<in> set (map fst (greekFixedHolidays y))"
      and eq: "daysFromCivil d = daysFromCivil e"
    then have "anno_domini d" "anno_domini e" using fixed_anno_domini [OF assms] by fastforce+
    with eq show "d = e" using civil.to_day_inj by blast
  qed
  moreover have "distinct (map fst (greekFixedHolidays y))"
    by (simp add: greekFixedHolidays_def FIXED_def)
  ultimately have "distinct (map daysFromCivil (map fst (greekFixedHolidays y)))"
    by (subst distinct_map) simp
  then show ?thesis by (simp add: closed_row_def comp_def)
qed

lemma fixed_row_present:
  assumes "greekCalendarExceptions y = Inr rows" "(date, name) \<in> set (greekFixedHolidays y)"
  shows "\<lparr>ex_date = date, ex_intervals = [], ex_name = name\<rparr> \<in> set rows"
proof -
  obtain p where p: "orthodoxPascha y = Inr p" "rows = map snd (js_sort compare_keys (closed_days y p))"
    using assms by (auto simp: greekCalendarExceptions_Inr)
  have y: "1 \<le> y" using orthodoxPascha_range [OF p(1)] by simp
  let ?F = "rev (map closed_row (greekFixedHolidays y))"
  have "distinct (map fst ?F)" using fixed_distinct [OF y] by (simp add: rev_map [symmetric])
  moreover have "closed_row (date, name) \<in> set ?F" using assms(2) by force
  ultimately have "map_of ?F (daysFromCivil date) = Some (snd (closed_row (date, name)))"
    by (simp add: closed_row_def map_of_eq_Some_iff)
  then have "map_of (closed_days y p) (daysFromCivil date) = Some (snd (closed_row (date, name)))"
    by (simp add: map_of_closed_days)
  then have "(daysFromCivil date, snd (closed_row (date, name))) \<in> set (closed_days y p)"
    by (rule map_of_SomeD)
  then show ?thesis unfolding p(2) by (force simp: closed_row_def)
qed

lemma movable_row_present:
  assumes "greekMovableFeasts y = Inr feasts" "greekCalendarExceptions y = Inr rows"
    and "(date, name) \<in> set feasts"
  shows "\<exists>e \<in> set rows. daysFromCivil (ex_date e) = daysFromCivil date \<and> ex_intervals e = []"
proof -
  obtain p where p: "orthodoxPascha y = Inr p" "rows = map snd (js_sort compare_keys (closed_days y p))"
      "feasts = map (\<lambda>(offset, name). (civilFromDays (daysFromCivil p + offset), name)) MOVABLE"
    using assms by (auto simp: greekCalendarExceptions_Inr greekMovableFeasts_def bind_res_Inr_iff Let_def)
  have "daysFromCivil date \<in> set (date_line rows)"
    unfolding greek_row_keys [OF p(1) assms(2)] using assms(3) p(3) by (auto simp: image_iff, force)
  then show ?thesis using greek_rows_closed [OF assms(2)] by (auto simp: date_line_def)
qed

lemma greek_rows_in_year:
  assumes "greekCalendarExceptions y = Inr rows" "n \<in> set (date_line rows)"
  shows "year_day y 1 1 \<le> n \<and> n < year_day (y + 1) 1 1"
proof -
  obtain p where p: "orthodoxPascha y = Inr p"
    using assms(1) by (auto simp: greekCalendarExceptions_Inr)
  have range: "1900 \<le> y" "y \<le> 2099" using orthodoxPascha_range [OF p] by simp_all
  have line: "year_line y" by (rule pascha_years(2) [OF range])
  have facts: "pascha_facts y p" by (rule orthodoxPascha_facts [OF p])
  have "anno_domini \<lparr>year = y, month = 1, day = 1\<rparr>"
    using range by (simp add: anno_domini_def valid_civil_def month_length_def)
  then have lo: "- 719162 \<le> year_day y 1 1"
    unfolding year_day_def by (rule civil.lo_le)
  consider (fixed) f where "f \<in> set FIXED" "n = year_day y (fst f) (fst (snd f))"
    | (movable) k where "k \<in> fst ` set MOVABLE" "n = daysFromCivil (civilFromDays (daysFromCivil p + k))"
  proof -
    have "n \<in> (\<lambda>f. daysFromCivil (fst f)) ` set (greekFixedHolidays y) \<or>
      n \<in> (\<lambda>m. daysFromCivil (civilFromDays (daysFromCivil p + fst m))) ` set MOVABLE"
      using assms(2) unfolding greek_row_keys [OF p assms(1)] by blast
    then show thesis
    proof
      assume "n \<in> (\<lambda>f. daysFromCivil (fst f)) ` set (greekFixedHolidays y)"
      then obtain f where "f \<in> set FIXED" "n = year_day y (fst f) (fst (snd f))"
        by (auto simp: greekFixedHolidays_def year_day_def)
      then show thesis by (rule fixed)
    next
      assume "n \<in> (\<lambda>m. daysFromCivil (civilFromDays (daysFromCivil p + fst m))) ` set MOVABLE"
      then show thesis by (auto intro: movable)
    qed
  qed
  then show ?thesis
  proof cases
    case fixed
    then have "(fst f, fst (snd f)) \<in> set fixed_dates" unfolding fixed_dates_FIXED [symmetric] by force
    with fixed line show ?thesis by (auto simp: year_line_def list_all_iff)
  next
    case movable
    then have "- 48 \<le> k" "k \<le> 50" by (auto simp: MOVABLE_def)
    with facts line have "year_day y 1 1 \<le> daysFromCivil p + k" "daysFromCivil p + k < year_day (y + 1) 1 1"
      by (auto simp: pascha_facts_def year_line_def Let_def)
    with lo movable show ?thesis using civil.to_of by simp
  qed
qed


section \<open>Whole ranges of years, and calendars that use the rows\<close>

lemma date_line_append: "date_line (xs @ ys) = date_line xs @ date_line ys"
  by (simp add: date_line_def)

lemma years_strict:
  assumes "map_res greekCalendarExceptions [a..b] = Inr rowss"
  shows "sorted_wrt (<) (date_line (concat rowss)) \<and>
    (\<forall>n \<in> set (date_line (concat rowss)). year_day a 1 1 \<le> n)"
  using assms
proof (induction a b arbitrary: rowss rule: upto.induct)
  case (1 a b)
  show ?case
  proof (cases "a \<le> b")
    case False
    with 1 show ?thesis by (simp add: date_line_def)
  next
    case True
    then obtain r rs where r: "greekCalendarExceptions a = Inr r"
        "map_res greekCalendarExceptions [a + 1..b] = Inr rs" "rowss = r # rs"
      using "1.prems" by (auto simp: upto_rec1 bind_res_Inr_iff)
    have IH: "sorted_wrt (<) (date_line (concat rs))"
        "\<forall>n \<in> set (date_line (concat rs)). year_day (a + 1) 1 1 \<le> n"
      using "1.IH" [OF True r(2)] by blast+
    have own: "\<And>n. n \<in> set (date_line r) \<Longrightarrow> year_day a 1 1 \<le> n \<and> n < year_day (a + 1) 1 1"
      by (rule greek_rows_in_year [OF r(1)])
    have "1900 \<le> a" "a \<le> 2099"
      using r(1) orthodoxPascha_range by (auto simp: greekCalendarExceptions_Inr)
    from pascha_years(2) [OF this]
    have "year_day a 1 1 < year_day (a + 1) 1 1" by (simp add: year_line_def fixed_dates_def)
    with IH own greek_rows_strict [OF r(1)] show ?thesis
      by (fastforce simp: r(3) date_line_append sorted_wrt_append)
  qed
qed

lemma greek_years_strict:
  "greekCalendarExceptionsForYears a b = Inr rows \<Longrightarrow> sorted_wrt (<) (date_line rows)"
  using years_strict by (auto simp: greekCalendarExceptionsForYears_def bind_res_Inr_iff)

lemma greek_years_total:
  assumes "1900 \<le> a" "b \<le> 2099"
  shows "\<exists>rows. greekCalendarExceptionsForYears a b = Inr rows"
proof -
  have "\<exists>r. greekCalendarExceptions y = Inr r" if "y \<in> set [a..b]" for y
  proof -
    have "1900 \<le> y" "y \<le> 2099" using assms that by simp_all
    from pascha_years(1) [OF this] show ?thesis
      by (auto simp: pascha_checked_def greekCalendarExceptions_Inr split: sum.splits)
  qed
  then obtain g where "\<And>y. y \<in> set [a..b] \<Longrightarrow> greekCalendarExceptions y = Inr (g y)" by metis
  then have "map_res greekCalendarExceptions [a..b] = Inr (map g [a..b])" by (rule map_res_total)
  then show ?thesis by (simp add: greekCalendarExceptionsForYears_def)
qed

lemma greek_years_closed:
  "greekCalendarExceptionsForYears a b = Inr rows \<Longrightarrow> e \<in> set rows \<Longrightarrow> ex_intervals e = []"
proof -
  assume "greekCalendarExceptionsForYears a b = Inr rows" "e \<in> set rows"
  then obtain rowss where rowss: "map_res greekCalendarExceptions [a..b] = Inr rowss" "rows = concat rowss"
    unfolding greekCalendarExceptionsForYears_def bind_res_Inr_iff by blast
  with \<open>e \<in> set rows\<close> obtain r where r: "r \<in> set rowss" "e \<in> set r" by auto
  from rowss(1) have all: "list_all2 (\<lambda>y r. greekCalendarExceptions y = Inr r) [a..b] rowss"
    by (rule iffD1 [OF map_res_Inr_iff])
  obtain i where i: "i < length rowss" "rowss ! i = r" using r(1) by (auto simp: in_set_conv_nth)
  then have "greekCalendarExceptions ([a..b] ! i) = Inr r"
    using list_all2_nthD2 [OF all i(1)] by simp
  then show "ex_intervals e = []" using r(2) by (rule greek_rows_closed)
qed

text \<open>A calendar whose exceptions are the seeded rows is closed on each of their dates.\<close>

lemma greek_calendar_closed:
  assumes "greekCalendarExceptionsForYears a b = Inr (exceptions cal)" "e \<in> set (exceptions cal)"
    and "isOpenDay cal (ex_date e) = Inr r"
  shows "\<not> r"
proof -
  obtain e' where e': "exceptionOn cal (ex_date e) = Some e'"
    using assms(2) by (cases "exceptionOn cal (ex_date e)") (auto simp: exceptionOn_def find_None_iff)
  then have "e' \<in> set (exceptions cal)" unfolding exceptionOn_def find_Some_iff by force
  then have "ex_intervals e' = []" by (rule greek_years_closed [OF assms(1)])
  with e' assms(3) show ?thesis
    unfolding isOpenDay_def bind_res_Inr_iff using hoursOn_exception by fastforce
qed

end
