(* ===== verification/Due_Date.thy ===== *)
theory Due_Date
  imports Calendar
begin

text \<open>
  \<open>packages/circ-policy/src/duedate.ts\<close>: the due date of a loan and of a renewal. The source
  pushes a \<open>CalendarRoll\<close> onto a shared array for every step that moves the date; here each
  step takes the rolls so far and returns the new ones with the date. An error loses them, as
  a throw does.
\<close>

section \<open>Input\<close>

record due_date_input =
  ddi_policy :: loan_policy
  ddi_calendar :: calendar
  ddi_from :: instant
  fixedDueDateSet :: "fixed_due_date_set option"
  hasOutstandingHold :: "bool option"

definition unit_name :: "duration_unit \<Rightarrow> string" where
  "unit_name u = (case u of Minutes \<Rightarrow> ''minutes'' | Hours \<Rightarrow> ''hours'' | Days \<Rightarrow> ''days''
     | Weeks \<Rightarrow> ''weeks'' | Months \<Rightarrow> ''months'')"

definition show_duration :: "duration \<Rightarrow> string" where
  "show_duration d = show_int (dur_value d) @ '' '' @ unit_name (dur_unit d)"

section \<open>Adding a duration\<close>

definition daysInMonth :: "int \<Rightarrow> int \<Rightarrow> int" where
  "daysInMonth y m =
     daysFromCivil (if m = 12 then \<lparr>year = y + 1, month = 1, day = 1\<rparr>
                    else \<lparr>year = y, month = m + 1, day = 1\<rparr>)
       - daysFromCivil \<lparr>year = y, month = m, day = 1\<rparr>"

definition at_time :: "civil_date \<Rightarrow> int \<Rightarrow> int \<Rightarrow> int \<Rightarrow> civil_date_time" where
  "at_time d h m s =
     \<lparr>year = year d, month = month d, day = day d, hour = h, minute = m, second = s\<rparr>"

definition addDuration ::
    "intl \<Rightarrow> string \<Rightarrow> instant \<Rightarrow> duration \<Rightarrow> time_of_day option \<Rightarrow> policy_error + instant" where
  "addDuration intl tz from p tod =
     (if dur_unit p = Minutes then Inr (from + dur_value p * 60000)
      else if dur_unit p = Hours then Inr (from + dur_value p * 3600000)
      else
        (let civil = zonedCivil intl from tz;
             target =
               (if dur_unit p = Months then
                  (let months = year civil * 12 + (month civil - 1) + dur_value p;
                       y = months div 12;
                       m = js_rem months 12 + 1;
                       d = min (day civil) (daysInMonth y m)
                   in \<lparr>year = y, month = m, day = d\<rparr>)
                else
                  (let step = (if dur_unit p = Weeks then 7 else 1)
                   in civilFromDays (daysFromCivil civil + dur_value p * step)));
             time = (case tod of Some t \<Rightarrow> t
                     | None \<Rightarrow> \<lparr>tod_hour = hour civil, tod_minute = minute civil\<rparr>)
         in bind_res
              (instantFromCivil intl tz
                 (at_time target (tod_hour time) (tod_minute time)
                    (if tod = None then second civil else 0)) Later)
              (\<lambda>r. Inr (fst r))))"

section \<open>The period a policy gives\<close>

definition rollingDue ::
    "intl \<Rightarrow> loan_policy \<Rightarrow> calendar \<Rightarrow> instant \<Rightarrow> bool \<Rightarrow> calendar_roll list \<Rightarrow>
     policy_error + instant \<times> calendar_roll list" where
  "rollingDue intl pol cal from hasHold rolls =
     (let shortening = hasHold \<and> alternateCheckoutPeriodWithHolds pol \<noteq> None;
          rolls' =
            (case (shortening, period pol, alternateCheckoutPeriodWithHolds pol) of
               (True, Some p, Some s) \<Rightarrow>
                 rolls @ [\<lparr>reason = HoldShortened, roll_from = show_duration p, roll_to = show_duration s,
                           detail = Some ''an unfilled hold exists on this title''\<rparr>]
             | _ \<Rightarrow> rolls);
          p = (if shortening then alternateCheckoutPeriodWithHolds pol else period pol)
      in case p of
           None \<Rightarrow> Inl (PolicyResolutionError PolicyIncomplete (Some (lp_id pol)))
         | Some d \<Rightarrow> bind_res (addDuration intl (timezone cal) from d (dueTimeOfDay pol))
             (\<lambda>due. Inr (due, rolls')))"

definition in_range :: "int \<Rightarrow> fixed_due_date_range \<Rightarrow> bool" where
  "in_range n r \<longleftrightarrow> n \<ge> daysFromCivil (fr_from r) \<and> n \<le> daysFromCivil (fr_to r)"

definition fixedDue ::
    "intl \<Rightarrow> due_date_input \<Rightarrow> calendar_roll list \<Rightarrow> policy_error + instant \<times> calendar_roll list" where
  "fixedDue intl inp rolls =
     (let pol = ddi_policy inp; cal = ddi_calendar inp; from = ddi_from inp
      in if fixedDueDateSetId pol = None then Inl (PolicyResolutionError PolicyIncomplete (Some (lp_id pol)))
         else case fixedDueDateSet inp of
           None \<Rightarrow> Inl (PolicyResolutionError PolicyIncomplete (Some (lp_id pol)))
         | Some fds \<Rightarrow>
             (let n = daysFromCivil (zonedCivil intl from (timezone cal))
              in case find (in_range n) (ranges fds) of
                   Some r \<Rightarrow>
                     (let time = (case fr_dueTimeOfDay r of Some t \<Rightarrow> t
                                  | None \<Rightarrow> (case dueTimeOfDay pol of Some t \<Rightarrow> t
                                            | None \<Rightarrow> \<lparr>tod_hour = 23, tod_minute = 59\<rparr>))
                      in bind_res (instantFromCivil intl (timezone cal)
                            (at_time (fr_dueDate r) (tod_hour time) (tod_minute time) 0) Later)
                          (\<lambda>(due, _).
                             Inr (due, rolls @
                               [\<lparr>reason = FixedDueDate, roll_from = toISOString from, roll_to = toISOString due,
                                 detail = Some (fds_name fds @ '': '' @ civilKey (fr_from r) @ utf8 [0x2013]
                                   @ civilKey (fr_to r))\<rparr>])))
                 | None \<Rightarrow> Inl (PolicyResolutionError NoFixedDueDateRange (Some (fds_id fds)))))"

definition applyMaxPeriod ::
    "intl \<Rightarrow> loan_policy \<Rightarrow> calendar \<Rightarrow> instant \<Rightarrow> instant \<Rightarrow> calendar_roll list \<Rightarrow>
     policy_error + instant \<times> calendar_roll list" where
  "applyMaxPeriod intl pol cal from due rolls =
     (case maxPeriod pol of
        None \<Rightarrow> Inr (due, rolls)
      | Some mp \<Rightarrow>
          bind_res (addDuration intl (timezone cal) from mp (dueTimeOfDay pol)) (\<lambda>cap.
            if due \<le> cap then Inr (due, rolls)
            else Inr (cap, rolls @
              [\<lparr>reason = MaxPeriodCap, roll_from = toISOString due, roll_to = toISOString cap,
                detail = Some (''capped at '' @ show_duration mp)\<rparr>])))"

section \<open>Moving a date that lands when the library is shut\<close>

definition reasonFor :: "calendar \<Rightarrow> civil_date \<Rightarrow> roll_reason" where
  "reasonFor cal date = (if exceptionOn cal date \<noteq> None then Holiday else ClosedDay)"

definition moveTo ::
    "intl \<Rightarrow> calendar \<Rightarrow> civil_date \<Rightarrow> int \<Rightarrow> instant \<Rightarrow> roll_reason \<Rightarrow> calendar_roll list \<Rightarrow> string \<Rightarrow>
     policy_error + instant \<times> calendar_roll list" where
  "moveTo intl cal date minuteOfDay from why rolls what =
     (let civil = at_time date (minuteOfDay div 60) (js_rem minuteOfDay 60) 0
      in bind_res (instantFromCivil intl (timezone cal) civil Later) (\<lambda>(inst, kind).
           let named = exceptionOn cal date;
               rolls' = rolls @
                 [\<lparr>reason = why, roll_from = toISOString from, roll_to = toISOString inst,
                   detail = Some (case named of Some e \<Rightarrow> what @ '' ('' @ ex_name e @ '')'' | None \<Rightarrow> what)\<rparr>]
           in Inr (inst,
                if kind = Unique then rolls'
                else rolls' @
                  [\<lparr>reason = (if kind = Gap then DstGap else DstAmbiguous),
                    roll_from = civilKey date @ '' '' @ pad0 2 (hour civil) @ '':'' @ pad0 2 (minute civil)
                      @ '' local'',
                    roll_to = toISOString inst,
                    detail = Some (if kind = Gap
                      then ''that wall-clock time does not exist; the later instant was used''
                      else ''that wall-clock time happens twice; the later instant was used'')\<rparr>])))"

text \<open>The opening minute of the day, or the minute found when that is later.\<close>

definition opening_minute :: "int option \<Rightarrow> int \<Rightarrow> int" where
  "opening_minute start found =
     (let m = (case start of Some s \<Rightarrow> s | None \<Rightarrow> found) in if m < found then found else m)"

definition applyClosedDayHandling ::
    "intl \<Rightarrow> loan_policy \<Rightarrow> calendar \<Rightarrow> instant \<Rightarrow> instant \<Rightarrow> calendar_roll list \<Rightarrow>
     policy_error + instant \<times> calendar_roll list" where
  "applyClosedDayHandling intl pol cal from due rolls =
     (if closedDayHandling pol = Keep then Inr (due, rolls)
      else
        (let civil = zonedCivil intl due (timezone cal);
             m = hour civil * 60 + minute civil;
             date = civil_date.truncate civil
         in if closedDayHandling pol = EndOfCurrentOpenHours then
              (let start = zonedCivil intl from (timezone cal);
                   startDate = civil_date.truncate start
               in bind_res (endOfCurrentInterval cal startDate (hour start * 60 + minute start))
                    (\<lambda>ending. case ending of
                       Some e \<Rightarrow>
                         bind_res (instantFromCivil intl (timezone cal)
                             (at_time startDate (e div 60) (js_rem e 60) 0) Later)
                           (\<lambda>(clamp, _).
                              if clamp \<ge> due then Inr (due, rolls)
                              else Inr (clamp, rolls @
                                [\<lparr>reason = ClosedHours, roll_from = toISOString due,
                                  roll_to = toISOString clamp,
                                  detail = Some ''in-library loan: due when the current opening ends''\<rparr>]))
                     | None \<Rightarrow>
                         bind_res (nextOpenCivil cal date m) (\<lambda>(odate, om).
                           moveTo intl cal odate om due (reasonFor cal odate) rolls ''next opening'')))
            else
              bind_res (isOpenAtCivil cal date m) (\<lambda>is_open.
                if is_open then Inr (due, rolls)
                else if closedDayHandling pol = EndOfPreviousOpenDay then
                  bind_res (previousOpenCivil cal date m) (\<lambda>(pdate, pm).
                    bind_res (endOfOpenDay cal pdate) (\<lambda>ending.
                      moveTo intl cal pdate (case ending of Some e \<Rightarrow> e | None \<Rightarrow> pm) due
                        (reasonFor cal pdate) rolls ''previous open day''))
                else
                  bind_res (nextOpenCivil cal date m) (\<lambda>(ndate, nm).
                    if closedDayHandling pol = EndOfNextOpenDay then
                      bind_res (endOfOpenDay cal ndate) (\<lambda>ending.
                        moveTo intl cal ndate (case ending of Some e \<Rightarrow> e | None \<Rightarrow> nm) due
                          (reasonFor cal ndate) rolls ''end of the next open day'')
                    else
                      bind_res (startOfOpenDay cal ndate) (\<lambda>start.
                        bind_res (moveTo intl cal ndate (opening_minute start nm) due (reasonFor cal ndate) rolls
                                    ''next open day'')
                             (\<lambda>(moved, rolls').
                                case openingTimeOffset pol of
                                  None \<Rightarrow> Inr (moved, rolls')
                                | Some ofs \<Rightarrow>
                                    bind_res (addDuration intl (timezone cal) moved ofs None) (\<lambda>shifted.
                                      Inr (shifted, rolls' @
                                        [\<lparr>reason = OpeningOffset, roll_from = toISOString moved,
                                          roll_to = toISOString shifted,
                                          detail = Some (show_duration ofs @ '' after opening'')\<rparr>]))))))))"

section \<open>The due date\<close>

definition computeDueDate ::
    "intl \<Rightarrow> due_date_input \<Rightarrow> policy_error + instant option \<times> calendar_roll list" where
  "computeDueDate intl inp =
     (let pol = ddi_policy inp; cal = ddi_calendar inp; from = ddi_from inp
      in if profile pol = Indefinite then Inr (None, [])
         else
           bind_res
             (if profile pol = Fixed then fixedDue intl inp []
              else rollingDue intl pol cal from (hasOutstandingHold inp = Some True) [])
             (\<lambda>(due, rolls). bind_res (applyMaxPeriod intl pol cal from due rolls)
             (\<lambda>(due, rolls). bind_res (applyClosedDayHandling intl pol cal from due rolls)
             (\<lambda>(due, rolls). Inr (Some due, rolls)))))"

definition or_else :: "'a option \<Rightarrow> 'a option \<Rightarrow> 'a option" where
  "or_else a b = (case a of None \<Rightarrow> b | Some _ \<Rightarrow> a)"

definition computeRenewalDueDate ::
    "intl \<Rightarrow> due_date_input \<Rightarrow> instant \<Rightarrow> policy_error + instant option \<times> calendar_roll list" where
  "computeRenewalDueDate intl inp currentDueAt =
     (let pol = ddi_policy inp;
          anchor =
            (if renewFrom pol = CurrentDueDate \<and> currentDueAt > ddi_from inp then currentDueAt
             else if renewFrom pol = CurrentDueDate then currentDueAt
             else ddi_from inp);
          p = (if hasOutstandingHold inp = Some True
               then or_else (alternateRenewalPeriodWithHolds pol) (or_else (renewalPeriod pol) (period pol))
               else or_else (renewalPeriod pol) (period pol))
      in if profile pol = Rolling \<and> p = None
         then Inl (PolicyResolutionError PolicyIncomplete (Some (lp_id pol)))
         else computeDueDate intl
           (inp\<lparr>ddi_from := anchor,
                ddi_policy := pol\<lparr>period := p, alternateCheckoutPeriodWithHolds := None\<rparr>\<rparr>))"


section \<open>Wall-clock arithmetic\<close>

lemma instantFromCivil_Later: "\<exists>t k. instantFromCivil intl tz c Later = Inr (t, k)"
  by (auto simp: instantFromCivil_def Let_def)

lemma at_time_fields [simp]:
  "year (at_time d h m s) = year d" "month (at_time d h m s) = month d" "day (at_time d h m s) = day d"
  "hour (at_time d h m s) = h" "minute (at_time d h m s) = m" "second (at_time d h m s) = s"
  by (simp_all add: at_time_def)

lemma daysFromCivil_at_time [simp]: "daysFromCivil (at_time d h m s) = daysFromCivil d"
  by (simp add: daysFromCivil_def)

lemma valid_civil_at_time [simp]: "valid_civil (at_time d h m s) \<longleftrightarrow> valid_civil d"
  by (simp add: valid_civil_def)

definition time_ok :: "int \<Rightarrow> int \<Rightarrow> int \<Rightarrow> bool" where
  "time_ok h m s \<longleftrightarrow> 0 \<le> h \<and> h < 24 \<and> 0 \<le> m \<and> m < 60 \<and> 0 \<le> s \<and> s < 60"

lemma civil_of_ms_time: "time_ok (hour (civil_of_ms ms)) (minute (civil_of_ms ms)) (second (civil_of_ms ms))"
  using civil_of_ms_hour [of ms] by (simp add: time_ok_def civil_of_ms_def Let_def)

lemma time_split:
  assumes "time_ok h m s" and t: "t = h * 3600000 + m * 60000 + s * 1000"
  shows "0 \<le> t" "t < 86400000" "t div 3600000 = h" "t div 60000 mod 60 = m" "t div 1000 mod 60 = s"
proof -
  have r: "0 \<le> h" "h < 24" "0 \<le> m" "m < 60" "0 \<le> s" "s < 60"
    using assms(1) by (simp_all add: time_ok_def)
  show "0 \<le> t" "t < 86400000" using r t by linarith+
  have "t = 3600000 * h + (m * 60000 + s * 1000)" using t by simp
  then show "t div 3600000 = h" by (rule int_div_pos_eq) (use r in linarith)+
  have "t = 60000 * (h * 60 + m) + s * 1000" using t by simp
  then have "t div 60000 = h * 60 + m" by (rule int_div_pos_eq) (use r in linarith)+
  moreover have "(h * 60 + m) mod 60 = m"
    by (rule int_mod_pos_eq [of _ 60 h]) (use r in linarith)+
  ultimately show "t div 60000 mod 60 = m" by simp
  have "t = 1000 * (h * 3600 + m * 60 + s) + 0" using t by simp
  then have "t div 1000 = h * 3600 + m * 60 + s" by (rule int_div_pos_eq) simp_all
  moreover have "(h * 3600 + m * 60 + s) mod 60 = s"
  proof (rule int_mod_pos_eq)
    show "h * 3600 + m * 60 + s = 60 * (h * 60 + m) + s" by simp
  qed (use r in linarith)+
  ultimately show "t div 1000 mod 60 = s" by simp
qed

lemma civil_of_ms_at_time:
  assumes d: "valid_civil d" "1 \<le> year d" and t: "time_ok h m s"
  shows "civil_of_ms (daysFromCivil d * 86400000 + h * 3600000 + m * 60000 + s * 1000) = at_time d h m s"
proof -
  define t where "t = h * 3600000 + m * 60000 + s * 1000"
  note T = time_split [OF assms(3) t_def]
  define w where "w = daysFromCivil d * 86400000 + t"
  have "w = 86400000 * daysFromCivil d + t" by (simp add: w_def)
  note W = int_div_pos_eq [OF this T(1,2)] int_mod_pos_eq [OF this T(1,2)]
  have "civilFromDays (daysFromCivil d) = d" by (rule civilFromDays_daysFromCivil) (use d in simp_all)
  then have "civil_of_ms w = at_time d h m s"
    unfolding civil_of_ms_def Let_def W T(3-5) at_time_def by simp
  moreover have "w = daysFromCivil d * 86400000 + h * 3600000 + m * 60000 + s * 1000"
    by (simp only: w_def t_def add.assoc)
  ultimately show ?thesis by simp
qed

lemma wall_of_at_time:
  assumes "valid_civil d" "100 \<le> year d"
  shows "wall_of (at_time d h m s) = daysFromCivil d * 86400000 + h * 3600000 + m * 60000 + s * 1000"
  using wall_of_eq [of "at_time d h m s"] assms by simp

text \<open>The instant chosen for a wall-clock time that exists shows that time.\<close>

definition time_exists :: "(string \<Rightarrow> instant \<Rightarrow> int) \<Rightarrow> string \<Rightarrow> civil_date_time \<Rightarrow> bool" where
  "time_exists off tz c \<longleftrightarrow> modern (wall_of c - 2 * DAY_MS) \<and> one_change off tz (wall_of c) \<and>
     readings off tz (wall_of c) \<noteq> {}"

lemma instantFromCivil_shows:
  assumes law: "wall_clock intl off" and ex: "time_exists off tz (at_time d h m s)"
    and d: "valid_civil d" "100 \<le> year d" and t: "time_ok h m s"
    and res: "instantFromCivil intl tz (at_time d h m s) dis = Inr (inst, k)"
  shows "zonedCivil intl inst tz = at_time d h m s" and "k \<noteq> Gap"
proof -
  let ?w = "wall_of (at_time d h m s)"
  have R: "resolved_reading off tz ?w dis inst k"
    using law ex res by (intro instantFromCivil_resolved) (auto simp: time_exists_def)
  then have S: "inst \<in> readings off tz ?w" "k \<noteq> Gap"
    using ex by (auto simp: resolved_reading_def time_exists_def Let_def split: instant_kind.splits)
  then have "modern inst" "inst + off tz inst = ?w" by (auto simp: readings_def)
  then have "zonedCivil intl inst tz = civil_of_ms ?w"
    using law by (auto simp: wall_clock_def zonedCivil_def)
  also have "\<dots> = at_time d h m s"
    using civil_of_ms_at_time [of d h m s] wall_of_at_time [of d h m s] d t by simp
  finally show "zonedCivil intl inst tz = at_time d h m s" "k \<noteq> Gap" using S by auto
qed

lemma instantFromCivil_steady:
  assumes law: "wall_clock intl off" and lo: "modern (wall_of c - 2 * DAY_MS)"
    and steady: "\<And>ms. \<bar>ms - wall_of c\<bar> \<le> DAY_MS \<Longrightarrow> off tz ms = o1"
  shows "instantFromCivil intl tz c dis = Inr (wall_of c - o1, Unique)"
proof -
  let ?w = "wall_of c"
  have sec: "?w mod 1000 = 0" by (rule wall_of_seconds)
  have one: "one_change off tz ?w"
    unfolding one_change_def using steady by (intro exI [of _ ?w] exI [of _ o1]) auto
  have set: "set (probe_candidates intl tz ?w) = readings off tz ?w"
    by (rule probe_complete [OF law lo sec one])
  have E: "offsetAt intl tz (?w - DAY_MS) = o1" "offsetAt intl tz (?w + DAY_MS) = o1"
    using probe_ends [OF law lo sec, where tz = tz] steady by (simp_all add: DAY_MS_def)
  have o: "\<bar>o1\<bar> < DAY_MS"
  proof -
    have "modern ?w" using lo by (simp add: modern_def DAY_MS_def)
    then have "\<bar>off tz ?w\<bar> < DAY_MS" using law unfolding wall_clock_def by blast
    moreover have "off tz ?w = o1" by (rule steady) (simp add: DAY_MS_def)
    ultimately show ?thesis by simp
  qed
  have "off tz (?w - o1) = o1" by (rule steady) (use o in simp)
  moreover have "modern (?w - o1)" using lo o by (simp add: modern_def DAY_MS_def)
  ultimately have "?w - o1 \<in> readings off tz ?w" by (simp add: readings_def)
  moreover have "t = ?w - o1" if "t \<in> readings off tz ?w" for t
  proof -
    have "off tz t = o1" by (rule steady) (use reading_near [OF law that] in simp)
    then show ?thesis using that by (simp add: readings_def)
  qed
  ultimately have "readings off tz ?w = {?w - o1}" by blast
  then have "set (probe_candidates intl tz ?w) = {?w - o1}" by (rule trans [OF set])
  moreover from this have "length (probe_candidates intl tz ?w) = 1"
    using distinct_card [OF distinct_probe_candidates [of intl tz ?w]] by simp
  ultimately have "probe_candidates intl tz ?w = [?w - o1]"
    by (auto simp: length_Suc_conv)
  then show ?thesis by (simp add: instantFromCivil_def Let_def)
qed

lemma addDuration_total: "\<exists>t. addDuration intl tz from p tod = Inr t"
proof -
  have "\<exists>t. bind_res (instantFromCivil intl tz c Later) (\<lambda>r. Inr (fst r) :: policy_error + instant) = Inr t"
    for c :: civil_date_time
    using instantFromCivil_Later [of intl tz c] by auto
  then show ?thesis by (simp add: addDuration_def Let_def)
qed

lemma div_pred_add:
  fixes y k :: int
  assumes "0 < k"
  shows "y div k = (y - 1) div k + (if y mod k = 0 then 1 else 0)"
proof -
  define q r where "q = y div k" and "r = y mod k"
  have y: "y = k * q + r" and r: "0 \<le> r" "r < k" using assms by (simp_all add: q_def r_def)
  show ?thesis
  proof (cases "r = 0")
    case True
    have "y - 1 = k * (q - 1) + (k - 1)" using y True by (simp add: algebra_simps)
    then have "(y - 1) div k = q - 1" by (rule int_div_pos_eq) (use assms in simp_all)
    with True show ?thesis by (simp add: q_def r_def)
  next
    case False
    have "y - 1 = k * q + (r - 1)" using y by simp
    then have "(y - 1) div k = q" by (rule int_div_pos_eq) (use False r in simp_all)
    with False show ?thesis by (simp add: q_def r_def)
  qed
qed

definition leaps :: "int \<Rightarrow> int" where
  "leaps y = y div 4 - y div 100 + y div 400"

lemma leap_count_aux:
  fixes a b c a' b' c' :: int
  assumes "a = a' + (if p then 1 else 0)" "b = b' + (if q then 1 else 0)" "c = c' + (if r then 1 else 0)"
    and "r \<longrightarrow> q" "q \<longrightarrow> p"
  shows "a - b + c = a' - b' + c' + (if p \<and> (\<not> q \<or> r) then 1 else 0)"
  using assms(4,5) unfolding assms(1) assms(2) assms(3)
  by (cases p; cases q; cases r; simp only: if_True if_False simp_thms; linarith)

lemma leaps_step: "leaps y = leaps (y - 1) + (if is_leap y then 1 else 0)"
proof -
  have c: "y mod 400 = 0 \<longrightarrow> y mod 100 = 0" "y mod 100 = 0 \<longrightarrow> y mod 4 = 0"
    unfolding mod_eq_0_iff_dvd using dvd_trans [of 100 400 y] dvd_trans [of 4 100 y] by simp_all
  have s: "y div 4 = (y - 1) div 4 + (if y mod 4 = 0 then 1 else 0)"
      "y div 100 = (y - 1) div 100 + (if y mod 100 = 0 then 1 else 0)"
      "y div 400 = (y - 1) div 400 + (if y mod 400 = 0 then 1 else 0)"
    by (rule div_pred_add, simp)+
  show ?thesis
    unfolding leaps_def is_leap_def by (rule leap_count_aux [OF s c])
qed

lemma gregorian_day_leaps:
  "gregorian_day y m d = 365 * (y - 1) + leaps (y - 1) + days_before_month y m + d - 719163"
  by (simp add: gregorian_day_def leaps_def)

lemma daysInMonth_eq:
  assumes "0 \<le> y" "1 \<le> m" "m \<le> 12"
  shows "daysInMonth y m = month_length y m"
proof (cases "m = 12")
  case True
  then show ?thesis
    using assms(1) leaps_step [of y]
    by (simp add: daysInMonth_def daysFromCivil_counts gregorian_day_leaps days_before_month_eq month_length_def)
next
  case False
  then have "daysInMonth y m = days_before_month y (m + 1) - days_before_month y m"
    using assms by (simp add: daysInMonth_def daysFromCivil_counts gregorian_day_leaps)
  also have "[1..m] = [1..m - 1] @ [m]" using assms(2) by (simp add: upto_rec2)
  then have "days_before_month y (m + 1) - days_before_month y m = month_length y m"
    by (simp add: days_before_month_def)
  finally show ?thesis .
qed


subsection \<open>What a duration adds\<close>

definition civil_target :: "'a civil_date_scheme \<Rightarrow> duration \<Rightarrow> civil_date" where
  "civil_target d p =
     (if dur_unit p = Months then
        (let months = year d * 12 + (month d - 1) + dur_value p;
             y = months div 12; m = months mod 12 + 1
         in \<lparr>year = y, month = m, day = min (day d) (month_length y m)\<rparr>)
      else civilFromDays (daysFromCivil d + dur_value p * (if dur_unit p = Weeks then 7 else 1)))"

lemma month_length_pos: "28 \<le> month_length y m"
  by (simp add: month_length_def)

lemma addDuration_civil:
  assumes "dur_unit p \<in> {Days, Weeks, Months}"
    and "dur_unit p = Months \<Longrightarrow> 0 \<le> year (zonedCivil intl from tz) * 12 + (month (zonedCivil intl from tz) - 1)
      + dur_value p"
  shows "addDuration intl tz from p tod =
     (let c = zonedCivil intl from tz
      in bind_res (instantFromCivil intl tz
            (case tod of None \<Rightarrow> at_time (civil_target c p) (hour c) (minute c) (second c)
             | Some t \<Rightarrow> at_time (civil_target c p) (tod_hour t) (tod_minute t) 0) Later)
          (\<lambda>r. Inr (fst r)))"
proof -
  have d: "daysInMonth (n div 12) (n mod 12 + 1) = month_length (n div 12) (n mod 12 + 1)"
    if "0 \<le> n" for n
  proof (rule daysInMonth_eq)
    show "n mod 12 + 1 \<le> 12" using pos_mod_bound [of 12 n] by linarith
  qed (use that in \<open>simp_all add: pos_imp_zdiv_nonneg_iff\<close>)
  have r: "js_rem n 12 = n mod 12" if "0 \<le> n" for n using that by (simp add: js_rem_nonneg)
  show ?thesis
    using assms d r
    by (cases tod) (auto simp: addDuration_def civil_target_def Let_def)
qed

lemma addDuration_shows:
  assumes law: "wall_clock intl off" and u: "dur_unit p \<in> {Days, Weeks, Months}"
    and mon: "dur_unit p = Months \<Longrightarrow> 0 \<le> year (zonedCivil intl from tz) * 12
      + (month (zonedCivil intl from tz) - 1) + dur_value p"
    and time: "hms = (case tod of None \<Rightarrow> (hour (zonedCivil intl from tz), minute (zonedCivil intl from tz),
        second (zonedCivil intl from tz)) | Some t \<Rightarrow> (tod_hour t, tod_minute t, 0))"
    and tok: "time_ok (fst hms) (fst (snd hms)) (snd (snd hms))"
    and d: "valid_civil (civil_target (zonedCivil intl from tz) p)" "100 \<le> year (civil_target (zonedCivil intl from tz) p)"
    and ex: "time_exists off tz (at_time (civil_target (zonedCivil intl from tz) p) (fst hms) (fst (snd hms)) (snd (snd hms)))"
    and res: "addDuration intl tz from p tod = Inr t"
  shows "zonedCivil intl t tz =
    at_time (civil_target (zonedCivil intl from tz) p) (fst hms) (fst (snd hms)) (snd (snd hms))"
proof -
  let ?c = "zonedCivil intl from tz"
  let ?T = "at_time (civil_target ?c p) (fst hms) (fst (snd hms)) (snd (snd hms))"
  have "(case tod of None \<Rightarrow> at_time (civil_target ?c p) (hour ?c) (minute ?c) (second ?c)
      | Some t \<Rightarrow> at_time (civil_target ?c p) (tod_hour t) (tod_minute t) 0) = ?T"
    by (cases tod) (simp_all add: time)
  then have "bind_res (instantFromCivil intl tz ?T Later) (\<lambda>r. Inr (fst r)) = Inr t"
    using res addDuration_civil [OF u mon, of tod] by (simp add: Let_def)
  then obtain k where "instantFromCivil intl tz ?T Later = Inr (t, k)" by (auto simp: bind_res_Inr_iff)
  then show ?thesis by (intro instantFromCivil_shows [OF law ex d tok])
qed

lemma civil_target_valid_months:
  assumes "valid_civil d" "dur_unit p = Months"
  shows "valid_civil (civil_target d p)"
proof -
  define n where "n = year d * 12 + (month d - 1) + dur_value p"
  have "n mod 12 + 1 \<le> 12" "1 \<le> n mod 12 + 1"
    using pos_mod_bound [of 12 n] pos_mod_sign [of 12 n] by linarith+
  then show ?thesis
    using assms month_length_pos [of "n div 12" "n mod 12 + 1"]
    by (auto simp: civil_target_def valid_civil_def Let_def n_def [symmetric])
qed

section \<open>Every movement of the date is in the rolls\<close>

text \<open>
  \<open>rolls_path s rs e\<close>: read in order, the rolls lead from the instant \<open>s\<close> to the instant \<open>e\<close>.
  A shortened period moves nothing, a DST note repeats where the date now is, and every other
  roll starts where the one before it ended.
\<close>

inductive rolls_path :: "instant \<Rightarrow> calendar_roll list \<Rightarrow> instant \<Rightarrow> bool" where
  stay: "rolls_path s [] s"
| shortened: "reason r = HoldShortened \<Longrightarrow> rolls_path s rs e \<Longrightarrow> rolls_path s (r # rs) e"
| dst_note: "reason r \<in> {DstGap, DstAmbiguous} \<Longrightarrow> roll_to r = toISOString s \<Longrightarrow> rolls_path s rs e \<Longrightarrow>
    rolls_path s (r # rs) e"
| moved: "reason r \<notin> {HoldShortened, DstGap, DstAmbiguous} \<Longrightarrow> roll_from r = toISOString s \<Longrightarrow>
    roll_to r = toISOString s' \<Longrightarrow> rolls_path s' rs e \<Longrightarrow> rolls_path s (r # rs) e"

inductive_simps rolls_path_Nil [simp]: "rolls_path s [] e"

inductive_cases rolls_path_ConsE: "rolls_path s (r # rs) e"

lemma rolls_path_append: "rolls_path s rs t \<Longrightarrow> rolls_path t rs' e \<Longrightarrow> rolls_path s (rs @ rs') e"
  by (induction rule: rolls_path.induct) (auto intro: rolls_path.intros)

lemma rolls_path_snoc_move:
  "rolls_path s rs t \<Longrightarrow> reason r \<notin> {HoldShortened, DstGap, DstAmbiguous} \<Longrightarrow>
     roll_from r = toISOString t \<Longrightarrow> roll_to r = toISOString e \<Longrightarrow> rolls_path s (rs @ [r]) e"
  by (rule rolls_path_append) (auto intro: rolls_path.intros)

lemma rolls_path_quiet:
  "rolls_path s rs e \<Longrightarrow> \<forall>r \<in> set rs. reason r \<in> {HoldShortened, DstGap, DstAmbiguous} \<Longrightarrow> e = s"
  by (induction rule: rolls_path.induct) auto

text \<open>A DST note carries the instant, and ends nothing.\<close>

lemma rolls_path_last_iso:
  "rolls_path s rs e \<Longrightarrow> rs \<noteq> [] \<Longrightarrow> reason (last rs) \<noteq> HoldShortened \<Longrightarrow> roll_to (last rs) = toISOString e"
proof (induction rule: rolls_path.induct)
  case (shortened r s rs e)
  then show ?case by (cases rs) auto
next
  case (dst_note r s rs e)
  then show ?case by (cases rs) auto
next
  case (moved r s s' rs e)
  then show ?case by (cases rs) auto
qed simp

lemma moveTo_path:
  assumes "moveTo intl cal date m due why rolls what = Inr (due', rolls')" "rolls_path s rolls due"
    and "why \<notin> {HoldShortened, DstGap, DstAmbiguous}"
  shows "rolls_path s rolls' due'"
proof -
  obtain k where k: "instantFromCivil intl (timezone cal) (at_time date (m div 60) (js_rem m 60) 0) Later = Inr (due', k)"
    using assms(1) by (auto simp: moveTo_def Let_def bind_res_Inr_iff)
  define r where "r = \<lparr>reason = why, roll_from = toISOString due, roll_to = toISOString due',
     detail = Some (case exceptionOn cal date of Some e \<Rightarrow> what @ '' ('' @ ex_name e @ '')'' | None \<Rightarrow> what)\<rparr>"
  have base: "rolls_path s (rolls @ [r]) due'"
    by (rule rolls_path_snoc_move [OF assms(2)]) (use assms(3) in \<open>simp_all add: r_def\<close>)
  obtain nt where "rolls' = (if k = Unique then rolls @ [r] else (rolls @ [r]) @ [nt])"
      "k \<noteq> Unique \<Longrightarrow> reason nt \<in> {DstGap, DstAmbiguous} \<and> roll_to nt = toISOString due'"
    using assms(1) k by (cases "k = Unique") (auto simp: moveTo_def Let_def bind_res_Inr_iff r_def)
  moreover have "rolls_path s ((rolls @ [r]) @ [nt]) due'"
    if "reason nt \<in> {DstGap, DstAmbiguous}" "roll_to nt = toISOString due'"
    by (rule rolls_path_append [OF base]) (use that in \<open>auto intro: rolls_path.intros\<close>)
  ultimately show ?thesis using base by (cases "k = Unique") auto
qed

lemma reasonFor_move [simp]: "reasonFor cal date \<notin> {HoldShortened, DstGap, DstAmbiguous}"
  by (simp add: reasonFor_def)

lemma applyMaxPeriod_path:
  assumes "applyMaxPeriod intl pol cal from due rolls = Inr (due', rolls')" "rolls_path s rolls due"
  shows "rolls_path s rolls' due'"
  using assms
  by (auto simp: applyMaxPeriod_def bind_res_Inr_iff split: option.splits if_splits
      intro!: rolls_path_snoc_move)

lemma applyClosedDayHandling_path:
  assumes "applyClosedDayHandling intl pol cal from due rolls = Inr (due', rolls')" "rolls_path s rolls due"
  shows "rolls_path s rolls' due'"
proof -
  note move = moveTo_path [OF _ assms(2) reasonFor_move]
  let ?d = "civil_date.truncate (zonedCivil intl due (timezone cal))"
  let ?m = "hour (zonedCivil intl due (timezone cal)) * 60 + minute (zonedCivil intl due (timezone cal))"
  consider (keep) "closedDayHandling pol = Keep"
    | (current) "closedDayHandling pol = EndOfCurrentOpenHours"
    | (previous) "closedDayHandling pol = EndOfPreviousOpenDay"
    | (nxt) "closedDayHandling pol = EndOfNextOpenDay"
    | (start) "closedDayHandling pol = StartOfNextOpenDay"
    by (cases "closedDayHandling pol") auto
  then show ?thesis
  proof cases
    case keep
    with assms show ?thesis by (simp add: applyClosedDayHandling_def)
  next
    case current
    then show ?thesis using assms
      by (auto simp: applyClosedDayHandling_def Let_def bind_res_Inr_iff split: option.splits if_splits
          intro: move intro!: rolls_path_snoc_move)
  next
    case previous
    then show ?thesis using assms
      by (auto simp: applyClosedDayHandling_def Let_def bind_res_Inr_iff split: if_splits intro: move)
  next
    case nxt
    then show ?thesis using assms
      by (auto simp: applyClosedDayHandling_def Let_def bind_res_Inr_iff split: if_splits intro: move)
  next
    case start
    then show ?thesis using assms
      by (auto simp: applyClosedDayHandling_def Let_def bind_res_Inr_iff split: option.splits if_splits
          intro: move intro!: rolls_path_snoc_move)
  qed
qed

text \<open>The due date of a rolling policy before the cap and the opening hours.\<close>

definition period_in_force :: "loan_policy \<Rightarrow> bool \<Rightarrow> duration option" where
  "period_in_force pol hasHold =
     (if hasHold then or_else (alternateCheckoutPeriodWithHolds pol) (period pol) else period pol)"

lemma rollingDue_cases:
  assumes "rollingDue intl pol cal from hasHold rolls = Inr (due, rolls')"
  obtains d where "period_in_force pol hasHold = Some d"
    and "addDuration intl (timezone cal) from d (dueTimeOfDay pol) = Inr due"
    and "rolls' = rolls \<or> (\<exists>r. reason r = HoldShortened \<and> rolls' = rolls @ [r])"
  using assms
  by (auto simp: rollingDue_def Let_def bind_res_Inr_iff period_in_force_def or_else_def
      split: option.splits if_splits)

lemma rollingDue_error_iff:
  "(\<exists>e. rollingDue intl pol cal from hasHold rolls = Inl e) \<longleftrightarrow> period_in_force pol hasHold = None"
proof -
  have "\<not> (\<exists>e. addDuration intl (timezone cal) from d (dueTimeOfDay pol) = Inl e)" for d
    using addDuration_total [of intl "timezone cal" "from" d "dueTimeOfDay pol"] by auto
  then show ?thesis
    by (auto simp: rollingDue_def Let_def bind_res_Inl_iff period_in_force_def or_else_def
        split: option.splits)
qed

lemma computeDueDate_rolling_path:
  assumes "computeDueDate intl inp = Inr (Some due, rolls)" "profile (ddi_policy inp) = Rolling"
  obtains d plain where "period_in_force (ddi_policy inp) (hasOutstandingHold inp = Some True) = Some d"
    and "addDuration intl (timezone (ddi_calendar inp)) (ddi_from inp) d (dueTimeOfDay (ddi_policy inp)) = Inr plain"
    and "rolls_path plain rolls due"
proof -
  let ?pol = "ddi_policy inp" and ?cal = "ddi_calendar inp" and ?from = "ddi_from inp"
  obtain d0 r0 d1 r1 where s:
      "rollingDue intl ?pol ?cal ?from (hasOutstandingHold inp = Some True) [] = Inr (d0, r0)"
      "applyMaxPeriod intl ?pol ?cal ?from d0 r0 = Inr (d1, r1)"
      "applyClosedDayHandling intl ?pol ?cal ?from d1 r1 = Inr (due, rolls)"
    using assms by (auto simp: computeDueDate_def Let_def bind_res_Inr_iff)
  from s(1) show thesis
  proof (rule rollingDue_cases)
    fix d
    assume d: "period_in_force ?pol (hasOutstandingHold inp = Some True) = Some d"
      "addDuration intl (timezone ?cal) ?from d (dueTimeOfDay ?pol) = Inr d0"
      "r0 = [] \<or> (\<exists>r. reason r = HoldShortened \<and> r0 = [] @ [r])"
    have "rolls_path d0 r0 d0" using d(3) by (auto intro: rolls_path.intros)
    then have "rolls_path d0 rolls due"
      by (intro applyClosedDayHandling_path [OF s(3)] applyMaxPeriod_path [OF s(2)])
    with d that show thesis by blast
  qed
qed


lemma computeDueDate_fixed_path:
  assumes "computeDueDate intl inp = Inr (Some due, rolls)" "profile (ddi_policy inp) = Fixed"
  shows "rolls_path (ddi_from inp) rolls due"
proof -
  let ?pol = "ddi_policy inp" and ?cal = "ddi_calendar inp" and ?from = "ddi_from inp"
  obtain d0 r0 d1 r1 where s: "fixedDue intl inp [] = Inr (d0, r0)"
      "applyMaxPeriod intl ?pol ?cal ?from d0 r0 = Inr (d1, r1)"
      "applyClosedDayHandling intl ?pol ?cal ?from d1 r1 = Inr (due, rolls)"
    using assms by (auto simp: computeDueDate_def Let_def bind_res_Inr_iff)
  obtain r where "r0 = [] @ [r]" "reason r = FixedDueDate" "roll_from r = toISOString ?from" "roll_to r = toISOString d0"
    using s(1) by (auto simp: fixedDue_def Let_def bind_res_Inr_iff split: option.splits if_splits)
  then have "rolls_path ?from r0 d0"
    using rolls_path_snoc_move [OF rolls_path.stay, of r] by simp
  then show ?thesis
    by (intro applyClosedDayHandling_path [OF s(3)] applyMaxPeriod_path [OF s(2)])
qed

lemma computeDueDate_indefinite:
  "computeDueDate intl inp = Inr (None, rolls) \<longleftrightarrow> profile (ddi_policy inp) = Indefinite \<and> rolls = []"
  by (auto simp: computeDueDate_def Let_def bind_res_Inr_iff)

section \<open>Where the due date lands\<close>

lemma applyMaxPeriod_bound:
  assumes "applyMaxPeriod intl pol cal from due rolls = Inr (due', rolls')" "maxPeriod pol = Some mp"
    and "addDuration intl (timezone cal) from mp (dueTimeOfDay pol) = Inr cap"
  shows "due' = min due cap"
  using assms by (auto simp: applyMaxPeriod_def split: if_splits)

lemma moveTo_instant:
  assumes "moveTo intl cal date m due why rolls what = Inr (due', rolls')"
  obtains k where "instantFromCivil intl (timezone cal) (at_time date (m div 60) (js_rem m 60) 0) Later = Inr (due', k)"
  using assms by (auto simp: moveTo_def Let_def bind_res_Inr_iff)

lemma minute_of_day:
  "0 \<le> m \<Longrightarrow> m < 24 * 60 \<Longrightarrow> time_ok (m div 60) (js_rem m 60) 0 \<and> m div 60 * 60 + js_rem m 60 = m"
  by (auto simp: time_ok_def js_rem_nonneg)

lemma wf_hours_minute:
  "wf_calendar cal \<Longrightarrow> isOpenAtCivil cal date m = Inr True \<Longrightarrow> 0 \<le> m \<and> m < 24 * 60"
  using wf_hoursOn by (fastforce simp: isOpenAtCivil_Inr_iff list_ex_iff covers_def wf_hours_def)

lemma opening_minute_found:
  assumes "wf_calendar cal" "isOpenAtCivil cal date m = Inr True" "startOfOpenDay cal date = Inr start"
  shows "opening_minute start m = m"
proof -
  obtain hs where hs: "hoursOn cal date = Inr hs" "list_ex (covers m) hs"
    using assms(2) by (auto simp: isOpenAtCivil_Inr_iff)
  have wf: "wf_hours hs" by (rule wf_hoursOn [OF assms(1) hs(1)])
  obtain i js where i: "hs = i # js" using hs(2) by (cases hs) auto
  have "iv_open i \<le> m"
    using hs(2) wf unfolding i by (fastforce simp: wf_hours_Cons covers_def list_ex_iff)
  moreover have "start = Some (iv_open i)" using assms(3) hs(1) i by (simp add: startOfOpenDay_def)
  ultimately show ?thesis by (simp add: opening_minute_def Let_def)
qed

lemma hoursOn_truncate: "hoursOn cal (civil_date.truncate c) = hoursOn cal c"
proof -
  have "assertDefined cal (civil_date.truncate c) = assertDefined cal c"
    unfolding assertDefined_def by (simp only: daysFromCivil_truncate)
  moreover have "civilKey (civil_date.truncate c) = civilKey c" by (simp add: civilKey_def)
  ultimately show ?thesis unfolding hoursOn_def by (simp only: daysFromCivil_truncate)
qed

lemma isOpenAtCivil_truncate: "isOpenAtCivil cal (civil_date.truncate c) m = isOpenAtCivil cal c m"
  by (simp add: isOpenAtCivil_def hoursOn_truncate)

lemma truncate_at_time: "civil_date.truncate (at_time d h m s) = (d :: civil_date)"
  by (simp add: at_time_def civil_date.truncate_def)

text \<open>
  A date moved to the start of the next opening is a minute the library is open. The civil
  date it moves to has to be one the zone's clock shows.
\<close>

lemma moveTo_open:
  assumes law: "wall_clock intl off" and wf: "wf_calendar cal"
    and op: "isOpenAtCivil cal date m = Inr True"
    and d: "valid_civil date" "100 \<le> year date"
    and ex: "time_exists off (timezone cal) (at_time date (m div 60) (js_rem m 60) 0)"
    and mv: "moveTo intl cal date m due why rolls what = Inr (due', rolls')"
  shows "isOpenAt intl cal due' = Inr True"
proof -
  have m: "time_ok (m div 60) (js_rem m 60) 0" "m div 60 * 60 + js_rem m 60 = m"
    using minute_of_day wf_hours_minute [OF wf op] by blast+
  obtain k where k: "instantFromCivil intl (timezone cal) (at_time date (m div 60) (js_rem m 60) 0) Later = Inr (due', k)"
    using mv by (rule moveTo_instant)
  have "zonedCivil intl due' (timezone cal) = at_time date (m div 60) (js_rem m 60) 0"
    by (rule instantFromCivil_shows(1) [OF law ex d m(1) k])
  then show ?thesis
    using op m(2) isOpenAtCivil_truncate [of cal "at_time date (m div 60) (js_rem m 60) 0" m]
    by (simp add: isOpenAt_def Let_def truncate_at_time)
qed

lemma startOfNextOpenDay_cases:
  assumes "applyClosedDayHandling intl pol cal from due rolls = Inr (due', rolls')"
    and "closedDayHandling pol = StartOfNextOpenDay" "wf_calendar cal"
  obtains (stays) "due' = due" "rolls' = rolls" "isOpenAt intl cal due = Inr True"
  | (moves) ndate m moved r where "isOpenAt intl cal due = Inr False"
      "nextOpenCivil cal (civil_date.truncate (zonedCivil intl due (timezone cal)))
         (hour (zonedCivil intl due (timezone cal)) * 60 + minute (zonedCivil intl due (timezone cal))) = Inr (ndate, m)"
      "moveTo intl cal ndate m due (reasonFor cal ndate) rolls ''next open day'' = Inr (moved, r)"
      "openingTimeOffset pol = None \<Longrightarrow> due' = moved \<and> rolls' = r"
      "\<And>ofs. openingTimeOffset pol = Some ofs \<Longrightarrow> addDuration intl (timezone cal) moved ofs None = Inr due'"
proof -
  let ?c = "zonedCivil intl due (timezone cal)"
  obtain b where b: "isOpenAtCivil cal (civil_date.truncate ?c) (hour ?c * 60 + minute ?c) = Inr b"
    using assms(1,2) by (auto simp: applyClosedDayHandling_def Let_def bind_res_Inr_iff)
  then have at: "isOpenAt intl cal due = Inr b" by (simp add: isOpenAt_def Let_def isOpenAtCivil_truncate)
  show thesis
  proof (cases b)
    case True
    with assms(1,2) b at stays show thesis by (simp add: applyClosedDayHandling_def Let_def)
  next
    case False
    obtain ndate m start where n: "nextOpenCivil cal (civil_date.truncate ?c) (hour ?c * 60 + minute ?c) = Inr (ndate, m)"
        "startOfOpenDay cal ndate = Inr start"
      using assms(1,2) b False by (auto simp: applyClosedDayHandling_def Let_def bind_res_Inr_iff)
    have "opening_minute start m = m"
      by (rule opening_minute_found [OF assms(3) nextOpenCivil_open [OF assms(3) n(1)] n(2)])
    then obtain moved r where r: "moveTo intl cal ndate m due (reasonFor cal ndate) rolls ''next open day'' = Inr (moved, r)"
        "(case openingTimeOffset pol of None \<Rightarrow> Inr (moved, r)
          | Some ofs \<Rightarrow> bind_res (addDuration intl (timezone cal) moved ofs None) (\<lambda>shifted.
              Inr (shifted, r @ [\<lparr>reason = OpeningOffset, roll_from = toISOString moved,
                roll_to = toISOString shifted, detail = Some (show_duration ofs @ '' after opening'')\<rparr>]))) = Inr (due', rolls')"
      using assms(1,2) b False n by (auto simp: applyClosedDayHandling_def Let_def bind_res_Inr_iff)
    show thesis
      by (rule moves [OF _ n(1) r(1)]) (use at False r(2) in \<open>auto simp: bind_res_Inr_iff\<close>)
  qed
qed


lemma startOfNextOpenDay_open:
  assumes law: "wall_clock intl off" and wf: "wf_calendar cal"
    and res: "applyClosedDayHandling intl pol cal from due rolls = Inr (due', rolls')"
    and pol: "closedDayHandling pol = StartOfNextOpenDay" "openingTimeOffset pol = None"
    and days: "\<And>n h m. daysFromCivil (zonedCivil intl due (timezone cal)) \<le> n \<Longrightarrow>
      n < daysFromCivil (zonedCivil intl due (timezone cal)) + 45 \<Longrightarrow> time_ok h m 0 \<Longrightarrow>
      100 \<le> year (civilFromDays n) \<and> time_exists off (timezone cal) (at_time (civilFromDays n) h m 0)"
    and lo: "- 719162 \<le> daysFromCivil (zonedCivil intl due (timezone cal))"
  shows "isOpenAt intl cal due' = Inr True"
  using res pol(1) wf
proof (cases rule: startOfNextOpenDay_cases)
  case stays
  then show ?thesis by simp
next
  case (moves ndate m moved r)
  let ?n0 = "daysFromCivil (zonedCivil intl due (timezone cal))"
  obtain k where k: "k < 45" "ndate = civilFromDays (?n0 + int k)"
    using nextOpenCivil_first [OF wf moves(2)] by (auto simp: daysFromCivil_truncate)
  have op: "isOpenAtCivil cal ndate m = Inr True" by (rule nextOpenCivil_open [OF wf moves(2)])
  have m: "time_ok (m div 60) (js_rem m 60) 0" using minute_of_day wf_hours_minute [OF wf op] by blast
  have "100 \<le> year ndate" "time_exists off (timezone cal) (at_time ndate (m div 60) (js_rem m 60) 0)"
    using days [of "?n0 + int k", OF _ _ m] k by auto
  moreover have "valid_civil ndate" using lo k(2) by (simp add: civilFromDays_valid)
  moreover have "due' = moved" using moves(4) pol(2) by simp
  ultimately show ?thesis using moveTo_open [OF law wf op _ _ _ moves(3)] by blast
qed

text \<open>The in-library loan: never past the end of the opening it started in.\<close>

lemma endOfCurrentOpenHours_min:
  assumes "applyClosedDayHandling intl pol cal from due rolls = Inr (due', rolls')"
    and "closedDayHandling pol = EndOfCurrentOpenHours"
    and "endOfCurrentInterval cal (civil_date.truncate (zonedCivil intl from (timezone cal)))
      (hour (zonedCivil intl from (timezone cal)) * 60 + minute (zonedCivil intl from (timezone cal))) = Inr (Some e)"
    and "instantFromCivil intl (timezone cal)
      (at_time (civil_date.truncate (zonedCivil intl from (timezone cal))) (e div 60) (js_rem e 60) 0) Later = Inr (closing, k)"
  shows "due' = min due closing"
  using assms by (auto simp: applyClosedDayHandling_def Let_def split: if_splits)

text \<open>A roll that says \<open>Holiday\<close> names an exception of the day moved to.\<close>

lemma reasonFor_Holiday:
  "reasonFor cal date = Holiday \<longleftrightarrow> (\<exists>e. exceptionOn cal date = Some e)"
  by (auto simp: reasonFor_def)

lemma reasonFor_open_day:
  assumes "isOpenDay cal date = Inr True" "reasonFor cal date = Holiday"
  obtains e where "exceptionOn cal date = Some e" "ex_intervals e \<noteq> []"
  using assms hoursOn_exception
  by (fastforce simp: reasonFor_Holiday isOpenDay_def bind_res_Inr_iff)

lemma nextOpenCivil_reason:
  assumes "wf_calendar cal" "nextOpenCivil cal date m = Inr (ndate, nm)"
    and "\<And>e. e \<in> set (exceptions cal) \<Longrightarrow> ex_intervals e = []"
  shows "reasonFor cal ndate = ClosedDay"
proof (rule ccontr)
  assume "reasonFor cal ndate \<noteq> ClosedDay"
  then have "reasonFor cal ndate = Holiday" by (simp add: reasonFor_def split: if_splits)
  moreover have "isOpenDay cal ndate = Inr True"
    using open_minute_open_day nextOpenCivil_open [OF assms(1,2)] by blast
  ultimately obtain e where "exceptionOn cal ndate = Some e" "ex_intervals e \<noteq> []"
    using reasonFor_open_day by blast
  then show False using assms(3) by (auto simp: exceptionOn_def find_Some_iff)
qed

section \<open>A library with a midday closure\<close>

definition all_days :: "calendar" where
  "all_days = \<lparr>cal_id = ''always'', timezone = ''Europe/Athens'',
     weekly = map (\<lambda>d. \<lparr>weekday = d, dh_intervals = [\<lparr>iv_open = 0, iv_close = 1440\<rparr>]\<rparr>) [0, 1, 2, 3, 4, 5, 6],
     exceptions = [], definedFrom = \<lparr>year = 2025, month = 1, day = 1\<rparr>,
     definedTo = \<lparr>year = 2027, month = 12, day = 31\<rparr>\<rparr>"

definition split_days :: "calendar" where
  "split_days = all_days\<lparr>cal_id := ''split'', weekly :=
     [\<lparr>weekday = 0, dh_intervals = []\<rparr>] @
     map (\<lambda>d. \<lparr>weekday = d, dh_intervals = [\<lparr>iv_open = 480, iv_close = 840\<rparr>,
       \<lparr>iv_open = 1020, iv_close = 1260\<rparr>]\<rparr>) [1, 2, 3, 4, 5] @
     [\<lparr>weekday = 6, dh_intervals = [\<lparr>iv_open = 540, iv_close = 780\<rparr>]\<rparr>]\<rparr>"

definition base_loan :: "loan_policy" where
  "base_loan = \<lparr>lp_id = ''lp'', lp_name = ''test'', loanable = True, profile = Rolling,
     period = Some \<lparr>dur_value = 14, dur_unit = Days\<rparr>, fixedDueDateSetId = None, dueTimeOfDay = None,
     closedDayHandling = Keep, openingTimeOffset = None, maxPeriod = None, renewable = True,
     renewalsAllowed = Some 2, renewalPeriod = None, renewFrom = CurrentDueDate, noRenewalBefore = None,
     noRenewalBeforeRelativeTo = DueDate, renewWithOutstandingHolds = True,
     alternateCheckoutPeriodWithHolds = None, alternateRenewalPeriodWithHolds = None,
     itemLimitForPolicy = None\<rparr>"

definition athens :: intl where
  "athens = intl_of_offset athens_2026"

definition due_of :: "loan_policy \<Rightarrow> calendar \<Rightarrow> instant \<Rightarrow> policy_error + instant option" where
  "due_of pol cal from = map_sum id fst (computeDueDate athens
     \<lparr>ddi_policy = pol, ddi_calendar = cal, ddi_from = from, fixedDueDateSet = None, hasOutstandingHold = None\<rparr>)"

lemma wf_split_days: "wf_calendar split_days" "wf_calendar all_days"
  by (simp_all add: wf_calendar_def split_days_def all_days_def wf_hours_Cons)

lemma athens_law: "wall_clock athens athens_2026"
  unfolding athens_def by (rule wall_clock_athens)

lemma athens_summer:
  assumes "valid_civil d" "100 \<le> year d"
    and w: "w = daysFromCivil d * 86400000 + h * 3600000 + m * 60000 + s * 1000"
    and r: "1774832400000 \<le> w" "w < 1792803600000"
  shows "instantFromCivil athens tz (at_time d h m s) dis = Inr (w - 10800000, Unique)"
proof -
  have W: "wall_of (at_time d h m s) = w" using wall_of_at_time [OF assms(1,2)] w by simp
  have "athens_2026 tz ms = 10800000" if "\<bar>ms - w\<bar> \<le> DAY_MS" for ms
    using that r by (simp add: athens_2026_def DAY_MS_def abs_le_iff)
  then have "instantFromCivil athens tz (at_time d h m s) dis = Inr (wall_of (at_time d h m s) - 10800000, Unique)"
    by (intro instantFromCivil_steady [OF athens_law]) (use r in \<open>simp_all add: W modern_def DAY_MS_def\<close>)
  then show ?thesis unfolding W .
qed


text \<open>
  Two hours from 12:30 local on Tuesday 5 May 2026 end at 14:30, in the midday closure. Asked to
  go back to the last minute the library was open, the date goes forward to 21:00 the same day.
\<close>

lemma example_due:
  "zonedCivil athens 1777980600000 ''Europe/Athens'' = at_time \<lparr>year = 2026, month = 5, day = 5\<rparr> 14 30 0"
  by code_simp

lemma example_shut:
  "isOpenAtCivil split_days \<lparr>year = 2026, month = 5, day = 5\<rparr> 870 = Inr False"
  "previousOpenCivil split_days \<lparr>year = 2026, month = 5, day = 5\<rparr> 870 =
     Inr (\<lparr>year = 2026, month = 5, day = 5\<rparr>, 840)"
  "endOfOpenDay split_days \<lparr>year = 2026, month = 5, day = 5\<rparr> = Inr (Some 1260)"
  by code_simp+

lemma example_evening:
  "instantFromCivil athens ''Europe/Athens'' (at_time \<lparr>year = 2026, month = 5, day = 5\<rparr> 21 0 0) Later =
     Inr (1778004000000, Unique)"
  using athens_summer [of "\<lparr>year = 2026, month = 5, day = 5\<rparr>" 1778014800000 21 0 0]
  by (simp add: valid_civil_def month_length_def daysFromCivil_def)

lemma split_zone: "timezone split_days = ''Europe/Athens''"
  by (simp add: split_days_def all_days_def)

lemmas due_of_defs = due_of_def computeDueDate_def rollingDue_def base_loan_def
  applyMaxPeriod_def applyClosedDayHandling_def moveTo_def

lemma endOfPreviousOpenDay_forward:
  "due_of (base_loan\<lparr>period := Some \<lparr>dur_value = 2, dur_unit = Hours\<rparr>,
     closedDayHandling := EndOfPreviousOpenDay\<rparr>) split_days 1777973400000 = Inr (Some 1778004000000)"
  by (simp add: due_of_defs addDuration_def Let_def split_zone example_due example_shut
      truncate_at_time js_rem_def example_evening)

text \<open>
  Fourteen days from Sunday 3 May 2026, capped at fourteen days: the date falls on a Sunday and
  rolls to Monday 08:00, past the cap.
\<close>

lemma example_sunday:
  "addDuration athens ''Europe/Athens'' 1777802400000 \<lparr>dur_value = 14, dur_unit = Days\<rparr> None = Inr 1779012000000"
proof -
  have start: "zonedCivil athens 1777802400000 ''Europe/Athens'' = at_time \<lparr>year = 2026, month = 5, day = 3\<rparr> 13 0 0"
    by code_simp
  have target: "daysFromCivil \<lparr>year = 2026, month = 5, day = 3\<rparr> = 20576"
      "civilFromDays 20590 = \<lparr>year = 2026, month = 5, day = 17\<rparr>"
    by code_simp+
  have "instantFromCivil athens ''Europe/Athens'' (at_time \<lparr>year = 2026, month = 5, day = 17\<rparr> 13 0 0) Later =
      Inr (1779022800000 - 10800000, Unique)"
    by (rule athens_summer) (simp_all add: valid_civil_def month_length_def daysFromCivil_def)
  then show ?thesis by (simp add: addDuration_def start target Let_def)
qed

lemma example_closed_sunday:
  "zonedCivil athens 1779012000000 ''Europe/Athens'' = at_time \<lparr>year = 2026, month = 5, day = 17\<rparr> 13 0 0"
  "isOpenAtCivil split_days \<lparr>year = 2026, month = 5, day = 17\<rparr> 780 = Inr False"
  "nextOpenCivil split_days \<lparr>year = 2026, month = 5, day = 17\<rparr> 780 =
     Inr (\<lparr>year = 2026, month = 5, day = 18\<rparr>, 480)"
  "startOfOpenDay split_days \<lparr>year = 2026, month = 5, day = 18\<rparr> = Inr (Some 480)"
  by code_simp+

lemma example_monday:
  "instantFromCivil athens ''Europe/Athens'' (at_time \<lparr>year = 2026, month = 5, day = 18\<rparr> 8 0 0) Later =
     Inr (1779080400000, Unique)"
  using athens_summer [of "\<lparr>year = 2026, month = 5, day = 18\<rparr>" 1779091200000 8 0 0]
  by (simp add: valid_civil_def month_length_def daysFromCivil_def)

lemma maxPeriod_exceeded:
  "due_of (base_loan\<lparr>maxPeriod := Some \<lparr>dur_value = 14, dur_unit = Days\<rparr>,
     closedDayHandling := StartOfNextOpenDay\<rparr>) split_days 1777802400000 = Inr (Some 1779080400000)"
  by (simp add: due_of_defs Let_def split_zone example_sunday example_closed_sunday
      truncate_at_time js_rem_def example_monday opening_minute_def)

end
