(* ===== verification/Fines.thy ===== *)
theory Fines
  imports Due_Date
begin

text \<open>
  \<open>packages/circ-policy/src/fines.ts\<close>: what an overdue costs, for how long it suspends a
  patron, and what a lost item costs. The quotient \<open>intervalsBetween\<close> returns is rational;
  on operands below \<open>2 ^ 53\<close>, which instants are, the floor of the double division is the floor
  of the exact one.
\<close>

section \<open>Overdue fines\<close>

record overdue_input =
  oi_policy :: overdue_fine_policy
  oi_calendar :: calendar
  dueAt :: instant
  asOf :: instant
  since :: "instant option"
  alreadyCharged :: "money_json option"
  replacementCost :: "money_json option"

datatype capped_by = MaximumFine | ReplacementCost

record overdue_result =
  or_amount :: money
  intervals :: int
  withinGrace :: bool
  graceEndsAt :: "instant option"
  cappedBy :: "capped_by option"

definition daysPerInterval :: "duration \<Rightarrow> int" where
  "daysPerInterval d =
     (if dur_unit d = Days then dur_value d
      else if dur_unit d = Weeks then dur_value d * 7
      else dur_value d * 30)"

definition intervalsBetween ::
    "intl \<Rightarrow> overdue_fine_policy \<Rightarrow> calendar \<Rightarrow> instant \<Rightarrow> instant \<Rightarrow> policy_error + rat" where
  "intervalsBetween intl pol cal from upto_inst =
     (let iv = interval pol
      in if dur_value iv \<le> 0 then Inl (PolicyResolutionError PolicyIncomplete (Some (ofp_id pol)))
         else if dur_unit iv = Minutes \<or> dur_unit iv = Hours then
           (let ms = (if dur_unit iv = Minutes then 60000 else 3600000)
            in Inr (of_int (upto_inst - from) / of_int (dur_value iv * ms)))
         else
           bind_res
             (if countClosedDays pol then Inr (calendarDaysBetween intl (timezone cal) from upto_inst)
              else openDaysBetween intl cal from upto_inst False)
             (\<lambda>days. Inr (of_int days / of_int (daysPerInterval iv))))"

text \<open>A cap on the total leaves this much room for what is charged now.\<close>

definition capped :: "int \<Rightarrow> int \<Rightarrow> money \<times> capped_by option \<Rightarrow> capped_by \<Rightarrow> money \<times> capped_by option" where
  "capped cap already charge by_what =
     (let room = cap - already
      in if amount (fst charge) > room
         then ((fst charge)\<lparr>amount := (if room > 0 then room else 0)\<rparr>, Some by_what)
         else charge)"

definition accrueOverdue :: "intl \<Rightarrow> overdue_input \<Rightarrow> policy_error + overdue_result" where
  "accrueOverdue intl inp =
     (let pol = oi_policy inp; cal = oi_calendar inp;
          cur = mj_currency (amountPerInterval pol);
          zero = \<lparr>amount = 0, currency = cur\<rparr>
      in bind_res
           (case gracePeriod pol of
              None \<Rightarrow> Inr None
            | Some g \<Rightarrow> bind_res (addDuration intl (timezone cal) (dueAt inp) g None) (\<lambda>t. Inr (Some t)))
           (\<lambda>grace.
              let nothing = (\<lambda>inside. \<lparr>or_amount = zero, intervals = 0, withinGrace = inside,
                                      graceEndsAt = grace, cappedBy = None\<rparr>)
              in if asOf inp \<le> dueAt inp then Inr (nothing False)
                 else if (case grace of None \<Rightarrow> False | Some g \<Rightarrow> asOf inp < g) then Inr (nothing True)
                 else
                   (let from = (case since inp of None \<Rightarrow> dueAt inp
                                | Some s \<Rightarrow> if s > dueAt inp then s else dueAt inp)
                    in bind_res (intervalsBetween intl pol cal from (asOf inp)) (\<lambda>elapsed.
                         let completed = (if chargeAt pol = IntervalEnd then \<lfloor>elapsed\<rfloor> else \<lfloor>elapsed\<rfloor> + 1)
                         in if completed \<le> 0 then Inr (nothing False)
                            else
                              (let charge = (\<lparr>amount = minorUnits (amountPerInterval pol) * completed,
                                              currency = cur\<rparr>, None);
                                   already = (case alreadyCharged inp of None \<Rightarrow> zero | Some m \<Rightarrow> toMoney m);
                                   charge = (case maximumFine pol of None \<Rightarrow> charge
                                     | Some m \<Rightarrow> capped (amount (toMoney m)) (amount already) charge MaximumFine);
                                   charge = (case (capAtReplacementCost pol, replacementCost inp) of
                                       (True, Some c) \<Rightarrow>
                                         capped (amount (toMoney c)) (amount already) charge ReplacementCost
                                     | _ \<Rightarrow> charge);
                                   final = (case minimumFine pol of None \<Rightarrow> fst charge
                                     | Some m \<Rightarrow>
                                         (if amount (fst charge) > 0 \<and> amount (fst charge) < amount (toMoney m)
                                             \<and> snd charge = None
                                          then toMoney m else fst charge))
                               in Inr \<lparr>or_amount = final, intervals = completed, withinGrace = False,
                                       graceEndsAt = grace, cappedBy = snd charge\<rparr>)))))"

section \<open>Suspension\<close>

definition computeSuspensionDays ::
    "intl \<Rightarrow> overdue_fine_policy \<Rightarrow> calendar \<Rightarrow> instant \<Rightarrow> instant \<Rightarrow> policy_error + int" where
  "computeSuspensionDays intl pol cal due returnedAt =
     (case suspension pol of
        None \<Rightarrow> Inr 0
      | Some s \<Rightarrow>
          bind_res
            (if countClosedDays pol then Inr (calendarDaysBetween intl (timezone cal) due returnedAt)
             else openDaysBetween intl cal due returnedAt False)
            (\<lambda>days. let raw = days * daysPerOverdueDay s
                    in Inr (case maxDays s of None \<Rightarrow> raw | Some m \<Rightarrow> min raw m)))"

section \<open>Lost items\<close>

record lost_item_fee_input =
  lfi_policy :: lost_item_fee_policy
  replacementPrice :: "money_json option"
  itemTypeDefault :: "money_json option"
  actualCost :: "money_json option"

record lost_item_fee_result =
  replacement :: money
  processing :: money
  lfr_total :: money

definition lost_item_basis :: "lost_item_fee_input \<Rightarrow> policy_error + money_json" where
  "lost_item_basis inp =
     (let pol = lfi_policy inp;
          or_refuse = (\<lambda>code v. case v of None \<Rightarrow> Inl (PolicyResolutionError code (Some (lif_id pol)))
                                 | Some m \<Rightarrow> Inr m)
      in case chargeBasis pol of
           FixedAmount \<Rightarrow> or_refuse PolicyIncomplete (fixedAmount pol)
         | ReplacementPrice \<Rightarrow> or_refuse NoReplacementPrice (replacementPrice inp)
         | ItemTypeDefault \<Rightarrow> or_refuse NoReplacementPrice (itemTypeDefault inp)
         | ActualCost \<Rightarrow> or_refuse NoReplacementPrice (actualCost inp))"

definition computeLostItemFee :: "lost_item_fee_input \<Rightarrow> policy_error + lost_item_fee_result" where
  "computeLostItemFee inp =
     (let pol = lfi_policy inp;
          proc = toMoney (processingFee pol);
          cur = currency proc
      in bind_res (lost_item_basis inp) (\<lambda>basis.
           let repl = toMoney basis
           in if currency repl \<noteq> cur then Inl (PolicyResolutionError PolicyIncomplete (Some (lif_id pol)))
              else Inr \<lparr>replacement = repl, processing = proc,
                        lfr_total = \<lparr>amount = amount repl + amount proc, currency = cur\<rparr>\<rparr>))"

section \<open>The shape of a charge\<close>

definition accrual_start :: "overdue_input \<Rightarrow> instant" where
  "accrual_start inp = (case since inp of None \<Rightarrow> dueAt inp | Some s \<Rightarrow> max s (dueAt inp))"

definition charged_intervals :: "charge_at \<Rightarrow> rat \<Rightarrow> int" where
  "charged_intervals c e = (if c = IntervalEnd then \<lfloor>e\<rfloor> else \<lfloor>e\<rfloor> + 1)"

definition already_amount :: "overdue_input \<Rightarrow> int" where
  "already_amount inp = (case alreadyCharged inp of None \<Rightarrow> 0 | Some m \<Rightarrow> minorUnits m)"

text \<open>The charge after both caps, before the floor.\<close>

definition capped_charge :: "overdue_input \<Rightarrow> int \<Rightarrow> money \<times> capped_by option" where
  "capped_charge inp n =
     (let pol = oi_policy inp;
          charge = (\<lparr>amount = minorUnits (amountPerInterval pol) * n,
                     currency = mj_currency (amountPerInterval pol)\<rparr>, None);
          charge = (case maximumFine pol of None \<Rightarrow> charge
            | Some m \<Rightarrow> capped (minorUnits m) (already_amount inp) charge MaximumFine)
      in case (capAtReplacementCost pol, replacementCost inp) of
           (True, Some c) \<Rightarrow> capped (minorUnits c) (already_amount inp) charge ReplacementCost
         | _ \<Rightarrow> charge)"

definition floored :: "overdue_input \<Rightarrow> money \<times> capped_by option \<Rightarrow> money" where
  "floored inp charge = (case minimumFine (oi_policy inp) of None \<Rightarrow> fst charge
     | Some m \<Rightarrow> (if amount (fst charge) > 0 \<and> amount (fst charge) < minorUnits m \<and> snd charge = None
                  then toMoney m else fst charge))"

definition grace_end :: "intl \<Rightarrow> overdue_input \<Rightarrow> instant option" where
  "grace_end intl inp = (case gracePeriod (oi_policy inp) of None \<Rightarrow> None
     | Some g \<Rightarrow> (case addDuration intl (timezone (oi_calendar inp)) (dueAt inp) g None of
                   Inl _ \<Rightarrow> None | Inr t \<Rightarrow> Some t))"

definition past_grace :: "intl \<Rightarrow> overdue_input \<Rightarrow> bool" where
  "past_grace intl inp \<longleftrightarrow> dueAt inp < asOf inp \<and>
     (case grace_end intl inp of None \<Rightarrow> True | Some g \<Rightarrow> g \<le> asOf inp)"

lemma grace_known:
  "(case gracePeriod (oi_policy inp) of None \<Rightarrow> Inr None
    | Some g \<Rightarrow> bind_res (addDuration intl (timezone (oi_calendar inp)) (dueAt inp) g None)
        (\<lambda>t. Inr (Some t))) = (Inr (grace_end intl inp) :: policy_error + instant option)"
proof (cases "gracePeriod (oi_policy inp)")
  case (Some g)
  obtain t where "addDuration intl (timezone (oi_calendar inp)) (dueAt inp) g None = Inr t"
    using addDuration_total by blast
  with Some show ?thesis by (simp add: grace_end_def)
qed (simp add: grace_end_def)

definition no_charge :: "intl \<Rightarrow> overdue_input \<Rightarrow> bool \<Rightarrow> overdue_result" where
  "no_charge intl inp inside =
     \<lparr>or_amount = \<lparr>amount = 0, currency = mj_currency (amountPerInterval (oi_policy inp))\<rparr>, intervals = 0,
      withinGrace = inside, graceEndsAt = grace_end intl inp, cappedBy = None\<rparr>"

lemma accrueOverdue_eq:
  "accrueOverdue intl inp =
     (if asOf inp \<le> dueAt inp then Inr (no_charge intl inp False)
      else if \<not> past_grace intl inp then Inr (no_charge intl inp True)
      else bind_res (intervalsBetween intl (oi_policy inp) (oi_calendar inp) (accrual_start inp) (asOf inp))
        (\<lambda>e. let n = charged_intervals (chargeAt (oi_policy inp)) e
             in if n \<le> 0 then Inr (no_charge intl inp False)
                else Inr \<lparr>or_amount = floored inp (capped_charge inp n), intervals = n, withinGrace = False,
                          graceEndsAt = grace_end intl inp, cappedBy = snd (capped_charge inp n)\<rparr>))"
proof -
  have start: "(case since inp of None \<Rightarrow> dueAt inp | Some s \<Rightarrow> if s > dueAt inp then s else dueAt inp) = accrual_start inp"
    by (simp add: accrual_start_def max_def split: option.split)
  have already: "amount (case alreadyCharged inp of None \<Rightarrow> \<lparr>amount = 0, currency = c\<rparr> | Some m \<Rightarrow> toMoney m) =
      already_amount inp" for c
    by (simp add: already_amount_def split: option.split)
  have grace: "(case grace_end intl inp of None \<Rightarrow> False | Some g \<Rightarrow> asOf inp < g) \<longleftrightarrow> \<not> past_grace intl inp"
    if "\<not> asOf inp \<le> dueAt inp"
    using that by (auto simp: past_grace_def split: option.split)
  show ?thesis
    unfolding accrueOverdue_def Let_def grace_known bind_res.simps start already toMoney_simps
    by (cases "minimumFine (oi_policy inp)"; cases "maximumFine (oi_policy inp)";
        cases "capAtReplacementCost (oi_policy inp)"; cases "replacementCost inp")
      (simp_all add: grace no_charge_def charged_intervals_def capped_charge_def floored_def Let_def cong: if_cong)
qed


section \<open>Caps, grace, increments\<close>

lemma capped_bounds:
  assumes "0 \<le> amount (fst c)"
  shows "0 \<le> amount (fst (capped cap a c w))" "amount (fst (capped cap a c w)) \<le> amount (fst c)"
    "amount (fst (capped cap a c w)) \<le> max 0 (cap - a)"
  using assms by (simp_all add: capped_def Let_def)

lemma capped_charge_bounds:
  assumes "0 \<le> minorUnits (amountPerInterval (oi_policy inp))" "0 \<le> n"
  shows "0 \<le> amount (fst (capped_charge inp n))"
    and "amount (fst (capped_charge inp n)) \<le> minorUnits (amountPerInterval (oi_policy inp)) * n"
    and "maximumFine (oi_policy inp) = Some m \<Longrightarrow>
      amount (fst (capped_charge inp n)) \<le> max 0 (minorUnits m - already_amount inp)"
    and "capAtReplacementCost (oi_policy inp) \<Longrightarrow> replacementCost inp = Some c \<Longrightarrow>
      amount (fst (capped_charge inp n)) \<le> max 0 (minorUnits c - already_amount inp)"
proof -
  define base where "base = (\<lparr>amount = minorUnits (amountPerInterval (oi_policy inp)) * n,
      currency = mj_currency (amountPerInterval (oi_policy inp))\<rparr>, None :: capped_by option)"
  define mid where "mid = (case maximumFine (oi_policy inp) of None \<Rightarrow> base
      | Some m \<Rightarrow> capped (minorUnits m) (already_amount inp) base MaximumFine)"
  have whole: "capped_charge inp n = (case (capAtReplacementCost (oi_policy inp), replacementCost inp) of
      (True, Some c) \<Rightarrow> capped (minorUnits c) (already_amount inp) mid ReplacementCost | _ \<Rightarrow> mid)"
    by (simp only: capped_charge_def Let_def base_def mid_def)
  have b: "0 \<le> amount (fst base)" using assms by (simp add: base_def)
  have m: "0 \<le> amount (fst mid)" "amount (fst mid) \<le> amount (fst base)"
    "\<And>x. maximumFine (oi_policy inp) = Some x \<Longrightarrow> amount (fst mid) \<le> max 0 (minorUnits x - already_amount inp)"
    using capped_bounds [OF b] b by (auto simp: mid_def split: option.split)
  have w: "0 \<le> amount (fst (capped_charge inp n))" "amount (fst (capped_charge inp n)) \<le> amount (fst mid)"
    using capped_bounds [OF m(1)] m(1) by (auto simp: whole split: option.split bool.split)
  then show "0 \<le> amount (fst (capped_charge inp n))" by simp
  show "amount (fst (capped_charge inp n)) \<le> minorUnits (amountPerInterval (oi_policy inp)) * n"
    using w m(2) by (simp add: base_def)
  show "maximumFine (oi_policy inp) = Some m \<Longrightarrow>
      amount (fst (capped_charge inp n)) \<le> max 0 (minorUnits m - already_amount inp)"
    using w m(3) by force
  show "capAtReplacementCost (oi_policy inp) \<Longrightarrow> replacementCost inp = Some c \<Longrightarrow>
      amount (fst (capped_charge inp n)) \<le> max 0 (minorUnits c - already_amount inp)"
    using capped_bounds(3) [OF m(1)] by (simp add: whole)
qed

lemma accrue_cases:
  assumes "accrueOverdue intl inp = Inr r"
  obtains (zero) b where "r = no_charge intl inp b"
  | (charged) n where "0 < n" "r = \<lparr>or_amount = floored inp (capped_charge inp n), intervals = n,
      withinGrace = False, graceEndsAt = grace_end intl inp, cappedBy = snd (capped_charge inp n)\<rparr>"
proof (cases "asOf inp \<le> dueAt inp \<or> \<not> past_grace intl inp")
  case True
  then have "r = no_charge intl inp False \<or> r = no_charge intl inp True"
    using assms unfolding accrueOverdue_eq by (cases "asOf inp \<le> dueAt inp") auto
  then show thesis using zero by blast
next
  case False
  then obtain e where e: "(let n = charged_intervals (chargeAt (oi_policy inp)) e
       in if n \<le> 0 then Inr (no_charge intl inp False)
          else Inr \<lparr>or_amount = floored inp (capped_charge inp n), intervals = n, withinGrace = False,
                    graceEndsAt = grace_end intl inp, cappedBy = snd (capped_charge inp n)\<rparr>) = (Inr r :: policy_error + _)"
    using assms unfolding accrueOverdue_eq by (auto simp only: if_False simp_thms elim!: bind_res_InrE)
  show thesis
  proof (cases "charged_intervals (chargeAt (oi_policy inp)) e \<le> 0")
    case True
    with e have "r = no_charge intl inp False" by (simp add: Let_def)
    then show thesis by (rule zero)
  next
    case False
    with e charged [of "charged_intervals (chargeAt (oi_policy inp)) e"] show thesis by (simp add: Let_def)
  qed
qed

lemma accrue_nonneg:
  assumes "accrueOverdue intl inp = Inr r" "0 \<le> minorUnits (amountPerInterval (oi_policy inp))"
  shows "0 \<le> amount (or_amount r) \<and> 0 \<le> intervals r"
  using assms(1)
proof (cases rule: accrue_cases)
  case (charged n)
  have "0 \<le> amount (fst (capped_charge inp n))"
    by (rule capped_charge_bounds(1)) (use assms(2) charged in simp_all)
  then have "0 \<le> amount (floored inp (capped_charge inp n))"
    by (simp add: floored_def split: option.split)
  with charged show ?thesis by simp
qed (simp add: no_charge_def)

lemma accrue_total_bounded:
  assumes "accrueOverdue intl inp = Inr r" "0 \<le> minorUnits (amountPerInterval (oi_policy inp))"
    and "minimumFine (oi_policy inp) = None" "maximumFine (oi_policy inp) = Some m"
  shows "already_amount inp + amount (or_amount r) \<le> max (minorUnits m) (already_amount inp)"
proof -
  from assms(1) have "amount (or_amount r) \<le> max 0 (minorUnits m - already_amount inp)"
  proof (cases rule: accrue_cases)
    case (charged n)
    have "amount (fst (capped_charge inp n)) \<le> max 0 (minorUnits m - already_amount inp)"
      by (rule capped_charge_bounds(3)) (use assms charged in simp_all)
    with charged show ?thesis by (simp add: floored_def assms(3))
  qed (simp add: no_charge_def)
  then show ?thesis by (simp add: max_def split: if_splits)
qed

lemma accrue_in_grace:
  assumes "grace_end intl inp = Some g" "dueAt inp < asOf inp" "asOf inp < g"
  shows "accrueOverdue intl inp = Inr (no_charge intl inp True)"
  using assms by (simp add: accrueOverdue_eq past_grace_def)

text \<open>Past its end, grace changes nothing: the fine is measured from the due date.\<close>

definition without_grace :: "overdue_input \<Rightarrow> overdue_input" where
  "without_grace inp = inp\<lparr>oi_policy := (oi_policy inp)\<lparr>gracePeriod := None\<rparr>\<rparr>"

lemma intervalsBetween_grace:
  "intervalsBetween intl (pol\<lparr>gracePeriod := g\<rparr>) cal a b = intervalsBetween intl pol cal a b"
  by (simp add: intervalsBetween_def Let_def)

lemma accrue_grace_no_discount:
  assumes "past_grace intl inp"
  shows "map_sum id (\<lambda>r. r\<lparr>graceEndsAt := None\<rparr>) (accrueOverdue intl inp) =
    accrueOverdue intl (without_grace inp)"
proof -
  have charge: "capped_charge (without_grace inp) n = capped_charge inp n" for n
    by (cases "capAtReplacementCost (oi_policy inp)"; cases "replacementCost inp"; cases "maximumFine (oi_policy inp)")
      (simp_all add: without_grace_def capped_charge_def already_amount_def Let_def)
  have same: "capped_charge (without_grace inp) = capped_charge inp" "floored (without_grace inp) = floored inp"
    "accrual_start (without_grace inp) = accrual_start inp" "asOf (without_grace inp) = asOf inp"
    "dueAt (without_grace inp) = dueAt inp" "oi_calendar (without_grace inp) = oi_calendar inp"
    "chargeAt (oi_policy (without_grace inp)) = chargeAt (oi_policy inp)"
    "amountPerInterval (oi_policy (without_grace inp)) = amountPerInterval (oi_policy inp)"
    by (auto simp: charge fun_eq_iff) (auto simp: without_grace_def floored_def accrual_start_def split: option.split)
  have g: "grace_end intl (without_grace inp) = None" by (simp add: grace_end_def without_grace_def)
  have late: "dueAt inp < asOf inp" "past_grace intl (without_grace inp)"
    using assms by (auto simp: past_grace_def g same)
  have iv: "intervalsBetween intl (oi_policy (without_grace inp)) cal a b =
      intervalsBetween intl (oi_policy inp) cal a b" for cal a b
    by (simp add: without_grace_def intervalsBetween_grace)
  show ?thesis
    using assms late
    by (cases "intervalsBetween intl (oi_policy inp) (oi_calendar inp) (accrual_start inp) (asOf inp)")
      (simp_all add: accrueOverdue_eq same g iv no_charge_def Let_def)
qed

text \<open>Charging in two steps never charges more than charging once, for finished intervals.\<close>

definition plain_pricing :: "overdue_fine_policy \<Rightarrow> bool" where
  "plain_pricing pol \<longleftrightarrow> chargeAt pol = IntervalEnd \<and> maximumFine pol = None \<and> minimumFine pol = None \<and>
     \<not> capAtReplacementCost pol \<and> 0 \<le> minorUnits (amountPerInterval pol)"

lemma accrue_plain:
  assumes "plain_pricing (oi_policy inp)" "past_grace intl inp"
    and "intervalsBetween intl (oi_policy inp) (oi_calendar inp) (accrual_start inp) (asOf inp) = Inr e" "0 \<le> e"
  shows "\<exists>r. accrueOverdue intl inp = Inr r \<and> intervals r = \<lfloor>e\<rfloor> \<and>
    amount (or_amount r) = minorUnits (amountPerInterval (oi_policy inp)) * \<lfloor>e\<rfloor>"
proof -
  have "\<not> asOf inp \<le> dueAt inp" using assms(2) by (simp add: past_grace_def)
  moreover have "\<lfloor>e\<rfloor> = 0" if "\<lfloor>e\<rfloor> \<le> 0" using that assms(4) by (simp add: floor_eq_iff le_floor_iff)
  ultimately show ?thesis
    using assms(1-3)
    by (auto simp: accrueOverdue_eq plain_pricing_def charged_intervals_def no_charge_def
        capped_charge_def floored_def Let_def)
qed

definition local_day :: "intl \<Rightarrow> calendar \<Rightarrow> instant \<Rightarrow> int" where
  "local_day intl cal t = daysFromCivil (zonedCivil intl t (timezone cal))"

lemma intervalsBetween_additive:
  assumes "intervalsBetween intl pol cal a b = Inr e" "intervalsBetween intl pol cal b c = Inr f"
    and "local_day intl cal a \<le> local_day intl cal b" "local_day intl cal b \<le> local_day intl cal c"
  shows "intervalsBetween intl pol cal a c = Inr (e + f)"
proof (cases "dur_unit (interval pol) = Minutes \<or> dur_unit (interval pol) = Hours")
  case True
  with assms show ?thesis
    by (auto simp: intervalsBetween_def Let_def add_divide_distrib [symmetric] split: if_splits)
next
  case False
  have pos: "0 < dur_value (interval pol)" using assms(1) by (simp add: intervalsBetween_def Let_def split: if_splits)
  define days where "days x y = (if countClosedDays pol then Inr (calendarDaysBetween intl (timezone cal) x y)
      else openDaysBetween intl cal x y False)" for x y
  have eq: "intervalsBetween intl pol cal x y =
      bind_res (days x y) (\<lambda>n. Inr (of_int n / of_int (daysPerInterval (interval pol))))" for x y
    using False pos by (simp add: intervalsBetween_def Let_def days_def)
  obtain m n where mn: "days a b = Inr m" "days b c = Inr n"
      "e = of_int m / of_int (daysPerInterval (interval pol))" "f = of_int n / of_int (daysPerInterval (interval pol))"
    using assms(1,2) unfolding eq bind_res_Inr_iff by auto
  have "days a c = Inr (m + n)"
  proof (cases "countClosedDays pol")
    case True
    with mn(1,2) assms(3,4) show ?thesis
      by (auto simp: days_def calendarDaysBetween_def local_day_def Let_def)
  next
    case False
    with mn(1,2) show ?thesis
      using openDaysBetween_additive assms(3,4) by (simp add: days_def local_day_def)
  qed
  with mn(3,4) show ?thesis by (simp add: eq add_divide_distrib)
qed

lemma intervalsBetween_nonneg:
  assumes "intervalsBetween intl pol cal a b = Inr e" "a \<le> b"
  shows "0 \<le> e"
proof -
  have d: "0 \<le> daysPerInterval (interval pol)" if "0 < dur_value (interval pol)"
    using that by (simp add: daysPerInterval_def)
  show ?thesis
    using assms d openDaysBetween_le
    by (fastforce simp: intervalsBetween_def Let_def bind_res_Inr_iff calendarDaysBetween_def split: if_splits)
qed


lemma accrue_increment:
  assumes plain: "plain_pricing (oi_policy inp)" "since inp = None"
    and grace: "past_grace intl (inp\<lparr>asOf := t1\<rparr>)" and later: "t1 \<le> t2"
    and days: "local_day intl (oi_calendar inp) (dueAt inp) \<le> local_day intl (oi_calendar inp) t1"
      "local_day intl (oi_calendar inp) t1 \<le> local_day intl (oi_calendar inp) t2"
    and first: "accrueOverdue intl (inp\<lparr>asOf := t1\<rparr>) = Inr r1"
    and rest: "accrueOverdue intl (inp\<lparr>asOf := t2, since := Some t1, alreadyCharged := c\<rparr>) = Inr r2"
  shows "\<exists>r. accrueOverdue intl (inp\<lparr>asOf := t2\<rparr>) = Inr r \<and>
    intervals r1 + intervals r2 \<le> intervals r \<and> amount (or_amount r1) + amount (or_amount r2) \<le> amount (or_amount r) \<and>
    (interval (oi_policy inp) = \<lparr>dur_value = 1, dur_unit = Days\<rparr> \<longrightarrow>
       amount (or_amount r1) + amount (or_amount r2) = amount (or_amount r))"
proof -
  let ?pol = "oi_policy inp" and ?cal = "oi_calendar inp"
  let ?i1 = "inp\<lparr>asOf := t1\<rparr>" and ?i2 = "inp\<lparr>asOf := t2, since := Some t1, alreadyCharged := c\<rparr>" and ?i = "inp\<lparr>asOf := t2\<rparr>"
  have due: "dueAt inp < t1" using grace by (simp add: past_grace_def)
  have g: "grace_end intl (inp\<lparr>asOf := t\<rparr>) = grace_end intl inp" "grace_end intl ?i2 = grace_end intl inp" for t
    by (simp_all add: grace_end_def split: option.split)
  have late: "past_grace intl ?i" "past_grace intl ?i2"
    using grace later by (auto simp: past_grace_def g split: option.splits)
  have start: "accrual_start ?i1 = dueAt inp" "accrual_start ?i2 = t1" "accrual_start ?i = dueAt inp"
    using plain(2) due by (simp_all add: accrual_start_def)
  obtain e1 where e1: "intervalsBetween intl ?pol ?cal (dueAt inp) t1 = Inr e1"
    using first grace due start by (auto simp: accrueOverdue_eq bind_res_Inr_iff)
  obtain e2 where e2: "intervalsBetween intl ?pol ?cal t1 t2 = Inr e2"
    using rest late(2) due later start by (auto simp: accrueOverdue_eq bind_res_Inr_iff)
  have e: "intervalsBetween intl ?pol ?cal (dueAt inp) t2 = Inr (e1 + e2)"
    by (rule intervalsBetween_additive [OF e1 e2]) (use days in simp_all)
  have pos: "0 \<le> e1" "0 \<le> e2" using intervalsBetween_nonneg [OF e1] intervalsBetween_nonneg [OF e2] due later by auto
  have p1: "plain_pricing (oi_policy ?i1)" and p2: "plain_pricing (oi_policy ?i2)" and p: "plain_pricing (oi_policy ?i)"
    using plain by simp_all
  have r1: "intervals r1 = \<lfloor>e1\<rfloor>" "amount (or_amount r1) = minorUnits (amountPerInterval ?pol) * \<lfloor>e1\<rfloor>"
    using accrue_plain [OF p1 grace] first e1 start pos by auto
  have r2: "intervals r2 = \<lfloor>e2\<rfloor>" "amount (or_amount r2) = minorUnits (amountPerInterval ?pol) * \<lfloor>e2\<rfloor>"
    using accrue_plain [OF p2 late(2)] rest e2 start pos by auto
  obtain r where r: "accrueOverdue intl ?i = Inr r" "intervals r = \<lfloor>e1 + e2\<rfloor>"
      "amount (or_amount r) = minorUnits (amountPerInterval ?pol) * \<lfloor>e1 + e2\<rfloor>"
    using accrue_plain [OF p late(1)] e start pos by auto
  have le: "\<lfloor>e1\<rfloor> + \<lfloor>e2\<rfloor> \<le> \<lfloor>e1 + e2\<rfloor>" by (rule le_floor_add)
  have "0 \<le> minorUnits (amountPerInterval ?pol)" using plain by (simp add: plain_pricing_def)
  from mult_left_mono [OF le this]
  have amt: "amount (or_amount r1) + amount (or_amount r2) \<le> amount (or_amount r)"
    unfolding r1 r2 r by (simp add: distrib_left)
  have "\<lfloor>e1\<rfloor> + \<lfloor>e2\<rfloor> = \<lfloor>e1 + e2\<rfloor>" if one: "interval ?pol = \<lparr>dur_value = 1, dur_unit = Days\<rparr>"
  proof -
    obtain n where "e1 = of_int n"
      using e1 one by (auto simp: intervalsBetween_def daysPerInterval_def Let_def bind_res_Inr_iff)
    then show ?thesis by simp
  qed
  with amt le r show ?thesis by (auto simp: r1 r2 distrib_left [symmetric])
qed

section \<open>Suspensions and lost items\<close>

lemma computeSuspensionDays_bounds:
  assumes "computeSuspensionDays intl pol cal due ret = Inr n" "suspension pol = Some s" "0 \<le> daysPerOverdueDay s"
  shows "n \<le> calendarDaysBetween intl (timezone cal) due ret * daysPerOverdueDay s"
    and "maxDays s = Some m \<Longrightarrow> n \<le> m" and "maxDays s = Some m \<Longrightarrow> 0 \<le> m \<Longrightarrow> 0 \<le> n"
proof -
  obtain d where d: "n = (case maxDays s of None \<Rightarrow> d * daysPerOverdueDay s | Some m \<Rightarrow> min (d * daysPerOverdueDay s) m)"
      and days: "(if countClosedDays pol then Inr (calendarDaysBetween intl (timezone cal) due ret)
        else openDaysBetween intl cal due ret False) = Inr d"
    using assms(1,2) by (auto simp: computeSuspensionDays_def bind_res_Inr_iff Let_def)
  have r: "0 \<le> d" "d \<le> calendarDaysBetween intl (timezone cal) due ret"
    using days openDaysBetween_le [of intl cal due ret False d]
    by (auto simp: calendarDaysBetween_def split: if_splits)
  have "d * daysPerOverdueDay s \<le> calendarDaysBetween intl (timezone cal) due ret * daysPerOverdueDay s"
    using r(2) assms(3) by (rule mult_right_mono)
  then show "n \<le> calendarDaysBetween intl (timezone cal) due ret * daysPerOverdueDay s"
    using d by (auto split: option.splits)
  show "maxDays s = Some m \<Longrightarrow> n \<le> m" using d by simp
  have "0 \<le> d * daysPerOverdueDay s" using r(1) assms(3) by simp
  then show "maxDays s = Some m \<Longrightarrow> 0 \<le> m \<Longrightarrow> 0 \<le> n" using d by simp
qed

lemma lost_item_basis_error_iff:
  "(\<exists>e. lost_item_basis inp = Inl e) \<longleftrightarrow>
     (case chargeBasis (lfi_policy inp) of
        FixedAmount \<Rightarrow> fixedAmount (lfi_policy inp) = None
      | ReplacementPrice \<Rightarrow> replacementPrice inp = None
      | ItemTypeDefault \<Rightarrow> itemTypeDefault inp = None
      | ActualCost \<Rightarrow> actualCost inp = None)"
  by (auto simp: lost_item_basis_def Let_def split: charge_basis.split option.split)

lemma computeLostItemFee_total:
  assumes "computeLostItemFee inp = Inr r"
  shows "addMoney (replacement r) (processing r) = Inr (lfr_total r)"
    and "lost_item_basis inp = Inr b \<Longrightarrow> replacement r = toMoney b"
    and "processing r = toMoney (processingFee (lfi_policy inp))"
  using assms
  by (auto simp: computeLostItemFee_def Let_def bind_res_Inr_iff addMoney_Inr_iff split: if_splits)

lemma computeLostItemFee_error_iff:
  "(\<exists>e. computeLostItemFee inp = Inl e) \<longleftrightarrow>
     (case lost_item_basis inp of Inl e \<Rightarrow> True
      | Inr b \<Rightarrow> mj_currency b \<noteq> mj_currency (processingFee (lfi_policy inp)))"
  by (auto simp: computeLostItemFee_def Let_def split: sum.split)


section \<open>Where the increments and the minimum do not add up\<close>

definition hourly_fine :: overdue_fine_policy where
  "hourly_fine = \<lparr>ofp_id = ''hourly'', ofp_name = ''hourly'', interval = \<lparr>dur_value = 1, dur_unit = Hours\<rparr>,
     amountPerInterval = \<lparr>minorUnits = 50, mj_currency = ''EUR''\<rparr>, chargeAt = IntervalEnd,
     gracePeriod = None, graceSuppressesNotice = False, countClosedDays = True, maximumFine = None,
     minimumFine = None, capAtReplacementCost = False, forgiveOn = [], suspension = None\<rparr>"

definition fine_input :: "overdue_fine_policy \<Rightarrow> instant \<Rightarrow> instant option \<Rightarrow> int \<Rightarrow> overdue_input" where
  "fine_input pol upto_inst snc already =
     \<lparr>oi_policy = pol, oi_calendar = all_days, dueAt = 0, asOf = upto_inst, since = snc,
      alreadyCharged = Some \<lparr>minorUnits = already, mj_currency = ''EUR''\<rparr>, replacementCost = None\<rparr>"

definition charged :: "overdue_fine_policy \<Rightarrow> instant \<Rightarrow> instant option \<Rightarrow> int \<Rightarrow> policy_error + int" where
  "charged pol upto_inst snc already =
     map_sum id (\<lambda>r. amount (or_amount r)) (accrueOverdue athens (fine_input pol upto_inst snc already))"

lemma floor_ratio: "\<lfloor>(of_int a :: rat) / of_int b\<rfloor> = a div b"
  by (rule floor_divide_of_int_eq)

lemma floor_half [simp]: "\<lfloor>1 / 2 :: rat\<rfloor> = 0"
  using floor_ratio [of 1 2] by simp

lemma floor_quarter [simp]: "\<lfloor>1 / 4 :: rat\<rfloor> = 0"
  using floor_ratio [of 1 4] by simp

lemmas charged_defs = charged_def fine_input_def hourly_fine_def accrueOverdue_eq past_grace_def grace_end_def
  accrual_start_def intervalsBetween_def charged_intervals_def no_charge_def capped_charge_def floored_def
  already_amount_def capped_def Let_def

lemma interval_start_counted_twice:
  "charged (hourly_fine\<lparr>chargeAt := IntervalStart\<rparr>) 3600000 None 0 = Inr 100"
  "charged (hourly_fine\<lparr>chargeAt := IntervalStart\<rparr>) 1800000 None 0 = Inr 50"
  "charged (hourly_fine\<lparr>chargeAt := IntervalStart\<rparr>) 3600000 (Some 1800000) 50 = Inr 50"
  "charged (hourly_fine\<lparr>chargeAt := IntervalStart\<rparr>) 900000 None 0 = Inr 50"
  "charged (hourly_fine\<lparr>chargeAt := IntervalStart\<rparr>) 1800000 (Some 900000) 50 = Inr 50"
  by (simp_all add: charged_defs)

lemma interval_end_never_charged:
  "charged hourly_fine 3600000 None 0 = Inr 50"
  "charged hourly_fine 1800000 None 0 = Inr 0"
  "charged hourly_fine 3600000 (Some 1800000) 0 = Inr 0"
  by (simp_all add: charged_defs)

lemma minimum_passes_maximum:
  "charged (hourly_fine\<lparr>minimumFine := Some \<lparr>minorUnits = 100, mj_currency = ''EUR''\<rparr>,
     maximumFine := Some \<lparr>minorUnits = 500, mj_currency = ''EUR''\<rparr>\<rparr>) 3600000 None 450 = Inr 100"
  by (simp add: charged_defs toMoney_def)

end
