(* ===== verification/Rank.thy ===== *)
theory Rank
  imports Policy_Types Civil_Time
begin

text \<open>
  \<open>packages/circ-policy/src/rank.ts\<close>: which rule applies to a context, how specific it is, and
  the order between two rules. \<open>rule[name]\<close> is \<open>selector_value\<close>, \<open>ctx[name]\<close> is \<open>context_value\<close>.
\<close>

definition SELECTOR_WEIGHTS :: "(selector_name \<times> int) list" where
  "SELECTOR_WEIGHTS =
    [(PatronCategoryId, 32), (ItemTypeId, 16), (OwningBranchId, 8), (ShelvingLocationId, 4),
     (CheckoutBranchId, 2), (PickupBranchId, 1)]"

primrec selector_value :: "'a rule_selectors_scheme \<Rightarrow> selector_name \<Rightarrow> string option" where
  "selector_value s PatronCategoryId = rs_patronCategoryId s"
| "selector_value s ItemTypeId = rs_itemTypeId s"
| "selector_value s OwningBranchId = rs_owningBranchId s"
| "selector_value s ShelvingLocationId = rs_shelvingLocationId s"
| "selector_value s CheckoutBranchId = rs_checkoutBranchId s"
| "selector_value s PickupBranchId = rs_pickupBranchId s"

primrec context_value :: "resolve_context \<Rightarrow> selector_name \<Rightarrow> string option" where
  "context_value c PatronCategoryId = cx_patronCategoryId c"
| "context_value c ItemTypeId = cx_itemTypeId c"
| "context_value c OwningBranchId = cx_owningBranchId c"
| "context_value c ShelvingLocationId = cx_shelvingLocationId c"
| "context_value c CheckoutBranchId = cx_checkoutBranchId c"
| "context_value c PickupBranchId = cx_pickupBranchId c"

definition specificity :: "'a rule_selectors_scheme \<Rightarrow> int" where
  "specificity s =
     foldl (\<lambda>n (name, weight). if selector_value s name \<noteq> None then n + weight else n) 0 SELECTOR_WEIGHTS"

definition matchesSelectors :: "'a rule_selectors_scheme \<Rightarrow> resolve_context \<Rightarrow> bool" where
  "matchesSelectors rule ctx =
     list_all (\<lambda>(name, _).
       let want = selector_value rule name
       in want = None \<or> want = context_value ctx name) SELECTOR_WEIGHTS"

definition selectorsUsed :: "'a rule_selectors_scheme \<Rightarrow> selector_name list" where
  "selectorsUsed rule =
     map fst (filter (\<lambda>(n, _). selector_value rule n \<noteq> None) SELECTOR_WEIGHTS)"

definition wildcardsUsed :: "'a rule_selectors_scheme \<Rightarrow> selector_name list" where
  "wildcardsUsed rule =
     map fst (filter (\<lambda>(n, _). selector_value rule n = None) SELECTOR_WEIGHTS)"

definition compareRank :: "circulation_rule \<Rightarrow> circulation_rule \<Rightarrow> int" where
  "compareRank a b =
     (if priority a \<noteq> priority b then priority b - priority a
      else
        (let sa = specificity a; sb = specificity b
         in if sa \<noteq> sb then sb - sa
            else if rule_id a < rule_id b then - 1
            else if rule_id a > rule_id b then 1
            else 0))"

definition rank :: "circulation_rule \<Rightarrow> int" where
  "rank rule = priority rule * 64 + specificity rule"

text \<open>
  \<open>Date.parse\<close> gives \<open>NaN\<close> for what is no date, and no comparison with \<open>NaN\<close> holds: a bound that
  does not parse does not bind. Bounds are read in the format \<open>toISOString\<close> writes, which is
  the one the rows are projected to.
\<close>

definition isInForce :: "circulation_rule \<Rightarrow> instant \<Rightarrow> bool" where
  "isInForce rule t =
     (if \<not> enabled rule then False
      else if (case effectiveFrom rule of None \<Rightarrow> False
               | Some s \<Rightarrow> (case date_parse s of None \<Rightarrow> False | Some f \<Rightarrow> t < f)) then False
      else if (case effectiveTo rule of None \<Rightarrow> False
               | Some s \<Rightarrow> (case date_parse s of None \<Rightarrow> False | Some u \<Rightarrow> t \<ge> u)) then False
      else True)"

section \<open>Specificity is a bit mask\<close>

definition bit :: "int \<Rightarrow> 'a option \<Rightarrow> int" where
  "bit w v = (if v = None then 0 else w)"

lemma bit_cases: "bit w v = 0 \<or> bit w v = w"
  by (simp add: bit_def)

lemma bit_None [simp]: "0 < w \<Longrightarrow> bit w v = 0 \<longleftrightarrow> v = None"
  by (simp add: bit_def)

lemma specificity_bits:
  "specificity s = bit 32 (rs_patronCategoryId s) + bit 16 (rs_itemTypeId s) + bit 8 (rs_owningBranchId s)
     + bit 4 (rs_shelvingLocationId s) + bit 2 (rs_checkoutBranchId s) + bit 1 (rs_pickupBranchId s)"
  by (simp add: specificity_def SELECTOR_WEIGHTS_def bit_def)

lemma specificity_range: "0 \<le> specificity s \<and> specificity s \<le> 63"
  by (simp add: specificity_bits bit_def)

lemma all_selectors:
  "(\<forall>n. P n) \<longleftrightarrow> P PatronCategoryId \<and> P ItemTypeId \<and> P OwningBranchId \<and> P ShelvingLocationId \<and>
     P CheckoutBranchId \<and> P PickupBranchId"
proof
  assume "P PatronCategoryId \<and> P ItemTypeId \<and> P OwningBranchId \<and> P ShelvingLocationId \<and>
     P CheckoutBranchId \<and> P PickupBranchId"
  then show "\<forall>n. P n" by (intro allI) (case_tac n, simp_all)
qed simp

lemma matchesSelectors_iff:
  "matchesSelectors r c \<longleftrightarrow> (\<forall>n. selector_value r n = None \<or> selector_value r n = context_value c n)"
  by (simp only: all_selectors) (simp add: matchesSelectors_def SELECTOR_WEIGHTS_def Let_def)

lemma selectorsUsed_iff: "n \<in> set (selectorsUsed r) \<longleftrightarrow> selector_value r n \<noteq> None"
  by (cases n) (auto simp: selectorsUsed_def SELECTOR_WEIGHTS_def)

lemma wildcardsUsed_iff: "n \<in> set (wildcardsUsed r) \<longleftrightarrow> selector_value r n = None"
  by (cases n) (auto simp: wildcardsUsed_def SELECTOR_WEIGHTS_def)

lemma mask_digits:
  fixes a b c d e f a' b' c' d' e' f' :: int
  assumes "32 * a + 16 * b + 8 * c + 4 * d + 2 * e + f = 32 * a' + 16 * b' + 8 * c' + 4 * d' + 2 * e' + f'"
    and "a \<in> {0, 1}" "b \<in> {0, 1}" "c \<in> {0, 1}" "d \<in> {0, 1}" "e \<in> {0, 1}" "f \<in> {0, 1}"
      "a' \<in> {0, 1}" "b' \<in> {0, 1}" "c' \<in> {0, 1}" "d' \<in> {0, 1}" "e' \<in> {0, 1}" "f' \<in> {0, 1}"
  shows "a = a' \<and> b = b' \<and> c = c' \<and> d = d' \<and> e = e' \<and> f = f'"
proof -
  have r: "0 \<le> x \<and> x \<le> 1" if "x \<in> {0, 1}" for x :: int using that by auto
  note bounds = assms(2-13) [THEN r]
  have "a = a'" using assms(1) bounds by linarith
  moreover from this have "b = b'" using assms(1) bounds by linarith
  moreover from calculation have "c = c'" using assms(1) bounds by linarith
  moreover from calculation have "d = d'" using assms(1) bounds by linarith
  moreover from calculation have "e = e'" using assms(1) bounds by linarith
  moreover from calculation have "f = f'" using assms(1) by linarith
  ultimately show ?thesis by blast
qed

definition pinned :: "'a option \<Rightarrow> int" where
  "pinned v = (if v = None then 0 else 1)"

lemma pinned_bit: "pinned v \<in> {0, 1}" "pinned u = pinned v \<longleftrightarrow> (u = None \<longleftrightarrow> v = None)"
  by (auto simp: pinned_def)

lemma specificity_pinned:
  "specificity s = 32 * pinned (rs_patronCategoryId s) + 16 * pinned (rs_itemTypeId s)
     + 8 * pinned (rs_owningBranchId s) + 4 * pinned (rs_shelvingLocationId s)
     + 2 * pinned (rs_checkoutBranchId s) + pinned (rs_pickupBranchId s)"
  by (simp add: specificity_bits bit_def pinned_def)

lemma specificity_eq_iff:
  "specificity a = specificity b \<longleftrightarrow> (\<forall>n. selector_value a n = None \<longleftrightarrow> selector_value b n = None)"
proof
  assume "specificity a = specificity b"
  from mask_digits [OF this [unfolded specificity_pinned]]
  show "\<forall>n. selector_value a n = None \<longleftrightarrow> selector_value b n = None"
    by (simp only: all_selectors selector_value.simps pinned_bit simp_thms)
qed (simp add: specificity_def)

lemma specificity_inj: "specificity a = specificity b \<longleftrightarrow> selectorsUsed a = selectorsUsed b"
proof
  assume "specificity a = specificity b"
  then show "selectorsUsed a = selectorsUsed b" by (simp add: specificity_eq_iff selectorsUsed_def)
next
  assume eq: "selectorsUsed a = selectorsUsed b"
  show "specificity a = specificity b"
    unfolding specificity_eq_iff
  proof
    fix n
    show "selector_value a n = None \<longleftrightarrow> selector_value b n = None"
      using selectorsUsed_iff [of n a] selectorsUsed_iff [of n b] unfolding eq by blast
  qed
qed

text \<open>
  The first selector, in the order of the weights, that only one of two rules pins decides
  between them, whatever the later ones are.
\<close>

definition pins_first :: "'a rule_selectors_scheme \<Rightarrow> 'b rule_selectors_scheme \<Rightarrow> bool" where
  "pins_first a b \<longleftrightarrow>
     (case find (\<lambda>(n, _). (selector_value a n = None) \<noteq> (selector_value b n = None)) SELECTOR_WEIGHTS of
        None \<Rightarrow> False | Some (n, _) \<Rightarrow> selector_value a n \<noteq> None)"

lemma digit_less:
  fixes w a b x y :: int
  assumes "0 \<le> x" "x < w" "0 \<le> y" "y < w"
  shows "w * a + x < w * b + y \<longleftrightarrow> (if a = b then x < y else a < b)"
proof (cases a b rule: linorder_cases)
  case less
  then have "w * (a + 1) \<le> w * b" using assms by (intro mult_left_mono) auto
  with less assms show ?thesis by (simp add: distrib_left)
next
  case greater
  then have "w * (b + 1) \<le> w * a" using assms by (intro mult_left_mono) auto
  with greater assms show ?thesis by (simp add: distrib_left)
qed simp

lemma specificity_precedence: "specificity b < specificity a \<longleftrightarrow> pins_first a b"
proof -
  define A B where "A n = pinned (selector_value a n)" and "B n = pinned (selector_value b n)" for n
  have r: "0 \<le> A n" "A n \<le> 1" "0 \<le> B n" "B n \<le> 1" "A n \<noteq> B n \<Longrightarrow> A n = 1 \<longleftrightarrow> B n < A n" for n
    by (auto simp: A_def B_def pinned_def split: if_splits)
  have sums: "specificity b < specificity a \<longleftrightarrow>
      32 * B PatronCategoryId + (16 * B ItemTypeId + (8 * B OwningBranchId
        + (4 * B ShelvingLocationId + (2 * B CheckoutBranchId + B PickupBranchId))))
      < 32 * A PatronCategoryId + (16 * A ItemTypeId + (8 * A OwningBranchId
        + (4 * A ShelvingLocationId + (2 * A CheckoutBranchId + A PickupBranchId))))"
    by (simp only: specificity_pinned A_def B_def selector_value.simps add.assoc)
  note ranges = r(1-4) [of PatronCategoryId] r(1-4) [of ItemTypeId] r(1-4) [of OwningBranchId]
    r(1-4) [of ShelvingLocationId] r(1-4) [of CheckoutBranchId] r(1-4) [of PickupBranchId]
  have "specificity b < specificity a \<longleftrightarrow>
      (if B PatronCategoryId = A PatronCategoryId then
        (if B ItemTypeId = A ItemTypeId then
          (if B OwningBranchId = A OwningBranchId then
            (if B ShelvingLocationId = A ShelvingLocationId then
              (if B CheckoutBranchId = A CheckoutBranchId then B PickupBranchId < A PickupBranchId
               else B CheckoutBranchId < A CheckoutBranchId)
             else B ShelvingLocationId < A ShelvingLocationId)
           else B OwningBranchId < A OwningBranchId)
         else B ItemTypeId < A ItemTypeId)
       else B PatronCategoryId < A PatronCategoryId)"
    unfolding sums
    by (subst digit_less; (use ranges in linarith)?)+
  moreover have "pins_first a b \<longleftrightarrow>
      (case find (\<lambda>n. A n \<noteq> B n) (map fst SELECTOR_WEIGHTS) of None \<Rightarrow> False | Some n \<Rightarrow> A n = 1)"
    by (simp add: pins_first_def A_def B_def SELECTOR_WEIGHTS_def pinned_def)
  ultimately show ?thesis
    using r(5) by (simp add: SELECTOR_WEIGHTS_def)
qed

section \<open>The order between rules\<close>

lemma compareRank_flip: "compareRank b a < 0 \<longleftrightarrow> 0 < compareRank a b"
  by (auto simp: compareRank_def Let_def)

text \<open>What the comparator sorts by: priority and specificity down, then the id up.\<close>

definition rank_key :: "circulation_rule \<Rightarrow> int \<times> int \<times> string" where
  "rank_key r = (- priority r, - specificity r, rule_id r)"

definition key_le :: "int \<times> int \<times> string \<Rightarrow> int \<times> int \<times> string \<Rightarrow> bool" where
  "key_le a b \<longleftrightarrow> fst a < fst b \<or> fst a = fst b \<and> (fst (snd a) < fst (snd b) \<or>
     fst (snd a) = fst (snd b) \<and> snd (snd a) \<le> snd (snd b))"

lemma compareRank_key: "compareRank a b \<le> 0 \<longleftrightarrow> key_le (rank_key a) (rank_key b)"
  by (auto simp: compareRank_def Let_def rank_key_def key_le_def not_less)

lemma key_le_trans: "key_le a b \<Longrightarrow> key_le b c \<Longrightarrow> key_le a c"
  by (auto simp: key_le_def)

lemma compareRank_zero: "compareRank a b = 0 \<longleftrightarrow> rank_key a = rank_key b"
  by (auto simp: compareRank_def Let_def rank_key_def)

interpretation rules_by_rank: keyed_comparator compareRank rule_id
proof
  fix a b c
  show "compareRank b a < 0 \<longleftrightarrow> 0 < compareRank a b" by (rule compareRank_flip)
  show "compareRank a b \<le> 0 \<Longrightarrow> compareRank b c \<le> 0 \<Longrightarrow> compareRank a c \<le> 0"
    unfolding compareRank_key by (rule key_le_trans)
  show "compareRank a b = 0 \<Longrightarrow> rule_id a = rule_id b"
    by (simp add: compareRank_zero rank_key_def)
qed

lemma rank_compare:
  "rank b < rank a \<Longrightarrow> compareRank a b < 0"
  "compareRank a b < 0 \<Longrightarrow> rank b \<le> rank a"
proof -
  have s: "0 \<le> specificity a" "specificity a \<le> 63" "0 \<le> specificity b" "specificity b \<le> 63"
    using specificity_range [of a] specificity_range [of b] by auto
  show "compareRank a b < 0" if "rank b < rank a"
  proof (cases "priority a = priority b")
    case True
    with that show ?thesis by (simp add: rank_def compareRank_def Let_def)
  next
    case False
    moreover from this have "priority b < priority a" using that s by (simp add: rank_def)
    ultimately show ?thesis by (simp add: compareRank_def)
  qed
  show "rank b \<le> rank a" if "compareRank a b < 0"
  proof (cases "priority a = priority b")
    case True
    with that show ?thesis by (simp add: rank_def compareRank_def Let_def split: if_splits)
  next
    case False
    with that have "priority b < priority a" by (simp add: compareRank_def)
    with s show ?thesis by (simp add: rank_def)
  qed
qed

section \<open>When a rule is in force\<close>

lemma isInForce_window:
  assumes "effectiveFrom r = Some (toISOString f)" "effectiveTo r = Some (toISOString u)" "enabled r"
    and "date_parse (toISOString f) = Some f" "date_parse (toISOString u) = Some u"
  shows "isInForce r t \<longleftrightarrow> f \<le> t \<and> t < u"
  using assms by (auto simp: isInForce_def)

lemma isInForce_handover:
  assumes "effectiveTo a = Some s" "effectiveFrom b = Some s" "date_parse s = Some u"
  shows "\<not> (isInForce a t \<and> isInForce b t)"
  using assms by (auto simp: isInForce_def)

end
