(* ===== verification/Resolve.thy ===== *)
theory Resolve
  imports Rank
begin

text \<open>
  \<open>packages/circ-policy/src/resolve.ts\<close>: the rule that applies and the five policies it names,
  and the notice template that fires. A lookup in a table of the snapshot is a lookup in a
  partial map, for ids that are not names of JavaScript's own object properties.
\<close>

definition need :: "(string \<rightharpoonup> 'p) \<Rightarrow> string \<Rightarrow> policy_error + 'p" where
  "need table ident =
     (case table ident of
        None \<Rightarrow> Inl (PolicyResolutionError PolicyNotInSnapshot (Some ident))
      | Some found \<Rightarrow> Inr found)"

definition candidates :: "policy_snapshot \<Rightarrow> resolve_context \<Rightarrow> circulation_rule list" where
  "candidates snapshot ctx =
     js_sort compareRank (filter (\<lambda>r. isInForce r (cx_at ctx) \<and> matchesSelectors r ctx) (rules snapshot))"

definition resolveCirculationPolicy ::
    "policy_snapshot \<Rightarrow> resolve_context \<Rightarrow> policy_error + resolved_policy" where
  "resolveCirculationPolicy snapshot ctx =
     (case candidates snapshot ctx of
        [] \<Rightarrow> Inl (PolicyResolutionError NoMatchingRule None)
      | winner # losers \<Rightarrow>
          if (case losers of [] \<Rightarrow> False | runnerUp # _ \<Rightarrow> compareRank winner runnerUp = 0)
          then Inl (PolicyResolutionError AmbiguousRule (Some (rule_id winner)))
          else
            bind_res (need (loanPolicies snapshot) (loanPolicyId winner)) (\<lambda>loan.
            bind_res (need (overdueFinePolicies snapshot) (overdueFinePolicyId winner)) (\<lambda>overdueFine.
            bind_res (need (lostItemFeePolicies snapshot) (lostItemFeePolicyId winner)) (\<lambda>lostItemFee.
            bind_res (need (holdPolicies snapshot) (holdPolicyId winner)) (\<lambda>hold.
            bind_res (need (noticePolicies snapshot) (noticePolicyId winner)) (\<lambda>notice.
              Inr \<lparr>rp_rule = winner, rp_loan = loan, rp_overdueFine = overdueFine,
                   rp_lostItemFee = lostItemFee, rp_hold = hold, rp_notice = notice,
                   categoryLimit = (case cx_patronCategoryId ctx of None \<Rightarrow> None
                     | Some c \<Rightarrow> patronCategoryLimits snapshot c),
                   rp_trace = \<lparr>snapshotVersion = version snapshot, matchedRuleId = rule_id winner,
                     beatenRuleIds = map rule_id losers, selectorsUsedBy = selectorsUsed winner,
                     wildcardsUsedBy = wildcardsUsed winner, calendarRolls = []\<rparr>\<rparr>))))))"

section \<open>Notice templates\<close>

record template_context =
  tc_trigger :: notice_trigger
  tc_branchId :: "string option"
  tc_patronCategoryId :: "string option"

definition templateSpecificity :: "notice_template_binding \<Rightarrow> int" where
  "templateSpecificity t =
     (if ntb_branchId t \<noteq> None then 2 else 0) + (if ntb_patronCategoryId t \<noteq> None then 1 else 0)"

definition compareTemplateRank :: "notice_template_binding \<Rightarrow> notice_template_binding \<Rightarrow> int" where
  "compareTemplateRank a b =
     (let sa = templateSpecificity a; sb = templateSpecificity b
      in if sa \<noteq> sb then sb - sa
         else if ntb_id a < ntb_id b then - 1
         else if ntb_id a > ntb_id b then 1
         else 0)"

definition template_matches :: "template_context \<Rightarrow> notice_template_binding \<Rightarrow> bool" where
  "template_matches ctx t \<longleftrightarrow>
     trigger t = tc_trigger ctx \<and>
     (ntb_branchId t = None \<or> ntb_branchId t = tc_branchId ctx) \<and>
     (ntb_patronCategoryId t = None \<or> ntb_patronCategoryId t = tc_patronCategoryId ctx)"

definition resolveTemplate :: "notice_policy \<Rightarrow> template_context \<Rightarrow> notice_template_binding option" where
  "resolveTemplate pol ctx =
     (let matching = filter (template_matches ctx) (templates pol)
      in if length matching = 0 then None
         else (case js_sort compareTemplateRank matching of [] \<Rightarrow> None | t # _ \<Rightarrow> Some t))"

section \<open>The resolver against its specification\<close>

definition applies :: "resolve_context \<Rightarrow> circulation_rule \<Rightarrow> bool" where
  "applies ctx r \<longleftrightarrow> isInForce r (cx_at ctx) \<and> matchesSelectors r ctx"

lemma set_candidates: "set (candidates s ctx) = {r \<in> set (rules s). applies ctx r}"
  by (auto simp: candidates_def applies_def)

lemma candidates_empty_iff: "candidates s ctx = [] \<longleftrightarrow> (\<forall>r \<in> set (rules s). \<not> applies ctx r)"
  by (simp add: candidates_def applies_def filter_empty_conv)

lemma sorted_candidates: "sorted_wrt (\<lambda>a b. compareRank a b \<le> 0) (candidates s ctx)"
  unfolding candidates_def by (rule rules_by_rank.sorted_js_sort)

text \<open>What the resolver promises: one rule, which no rule that applies beats.\<close>

definition best_rule :: "policy_snapshot \<Rightarrow> resolve_context \<Rightarrow> circulation_rule \<Rightarrow> bool" where
  "best_rule s ctx w \<longleftrightarrow> w \<in> set (rules s) \<and> applies ctx w \<and>
     (\<forall>r \<in> set (rules s). applies ctx r \<longrightarrow> compareRank w r \<le> 0)"

definition answer_of :: "policy_snapshot \<Rightarrow> circulation_rule \<Rightarrow> resolved_policy \<Rightarrow> bool" where
  "answer_of s w a \<longleftrightarrow> rp_rule a = w \<and> matchedRuleId (rp_trace a) = rule_id w \<and>
     loanPolicies s (loanPolicyId w) = Some (rp_loan a) \<and>
     overdueFinePolicies s (overdueFinePolicyId w) = Some (rp_overdueFine a) \<and>
     lostItemFeePolicies s (lostItemFeePolicyId w) = Some (rp_lostItemFee a) \<and>
     holdPolicies s (holdPolicyId w) = Some (rp_hold a) \<and>
     noticePolicies s (noticePolicyId w) = Some (rp_notice a)"

lemma need_Inr_iff: "need t i = Inr p \<longleftrightarrow> t i = Some p"
  by (auto simp: need_def split: option.split)

lemma need_Inl_iff: "need t i = Inl e \<longleftrightarrow> t i = None \<and> e = PolicyResolutionError PolicyNotInSnapshot (Some i)"
  by (auto simp: need_def split: option.split)

lemma resolve_Inr_cases:
  assumes "resolveCirculationPolicy s ctx = Inr a"
  obtains w ls where "candidates s ctx = w # ls" and "answer_of s w a"
    and "beatenRuleIds (rp_trace a) = map rule_id ls"
    and "\<forall>r rs. ls = r # rs \<longrightarrow> compareRank w r \<noteq> 0"
    and "calendarRolls (rp_trace a) = []" and "snapshotVersion (rp_trace a) = version s"
proof (cases "candidates s ctx")
  case Nil
  with assms show thesis by (simp add: resolveCirculationPolicy_def)
next
  case (Cons w ls)
  have tie: "\<not> (case ls of [] \<Rightarrow> False | r # _ \<Rightarrow> compareRank w r = 0)"
    using assms Cons by (auto simp: resolveCirculationPolicy_def)
  show thesis
    by (rule that [OF Cons])
      (use assms Cons tie in \<open>auto simp: resolveCirculationPolicy_def bind_res_Inr_iff need_Inr_iff answer_of_def\<close>)
qed

lemma resolve_best:
  assumes "resolveCirculationPolicy s ctx = Inr a"
  shows "best_rule s ctx (rp_rule a)" "answer_of s (rp_rule a) a"
proof -
  obtain w ls where w: "candidates s ctx = w # ls" "answer_of s w a"
    using assms by (rule resolve_Inr_cases)
  have "w \<in> set (rules s) \<and> applies ctx w" using set_candidates [of s ctx] w(1) by auto
  moreover have "compareRank w r \<le> 0" if "r \<in> set (rules s)" "applies ctx r" for r
  proof -
    have "r \<in> set (w # ls)" using set_candidates [of s ctx] w(1) that by auto
    then show ?thesis using sorted_candidates [of s ctx] w(1) rules_by_rank.cmp_refl by auto
  qed
  moreover have "rp_rule a = w" using w(2) by (simp add: answer_of_def)
  ultimately show "best_rule s ctx (rp_rule a)" "answer_of s (rp_rule a) a"
    using w(2) by (auto simp: best_rule_def)
qed

text \<open>Losers are exactly the other rules that apply, each strictly beaten.\<close>

lemma resolve_beaten:
  assumes "resolveCirculationPolicy s ctx = Inr a" "r \<in> set (rules s)" "applies ctx r" "r \<noteq> rp_rule a"
  shows "compareRank (rp_rule a) r < 0 \<and> rule_id r \<in> set (beatenRuleIds (rp_trace a))"
proof -
  obtain w ls where w: "candidates s ctx = w # ls" "answer_of s w a"
      "beatenRuleIds (rp_trace a) = map rule_id ls" "\<forall>r rs. ls = r # rs \<longrightarrow> compareRank w r \<noteq> 0"
    using assms(1) by (rule resolve_Inr_cases)
  have rw: "rp_rule a = w" using w(2) by (simp add: answer_of_def)
  have r: "r \<in> set ls" using set_candidates [of s ctx] w(1) assms(2-4) rw by auto
  obtain r1 rs where ls: "ls = r1 # rs" using r by (cases ls) auto
  have "compareRank w r1 \<le> 0" "r = r1 \<or> compareRank r1 r \<le> 0"
    using sorted_candidates [of s ctx] w(1) r ls by auto
  then have lt: "compareRank w r1 < 0" "compareRank r1 r \<le> 0"
    using w(4) ls rules_by_rank.cmp_refl [of r1] by auto
  have "compareRank w r < 0"
  proof (rule ccontr)
    assume "\<not> compareRank w r < 0"
    then have "compareRank r w \<le> 0" using compareRank_flip [of w r] by linarith
    then have "compareRank r1 w \<le> 0" using lt(2) rules_by_rank.cmp_trans by blast
    then show False using lt(1) compareRank_flip [of w r1] by linarith
  qed
  then show ?thesis using r by (simp add: rw w(3))
qed

lemma mset_filter_rules: "mset xs = mset ys \<Longrightarrow> mset (filter P xs) = mset (filter P ys)"
  by (metis mset_filter)

lemma resolve_permutation:
  assumes "mset (rules s) = mset rs" "inj_on rule_id (set rs)"
  shows "resolveCirculationPolicy (s\<lparr>rules := rs\<rparr>) ctx = resolveCirculationPolicy s ctx"
proof -
  let ?P = "\<lambda>r. isInForce r (cx_at ctx) \<and> matchesSelectors r ctx"
  have "candidates (s\<lparr>rules := rs\<rparr>) ctx = candidates s ctx"
    unfolding candidates_def policy_snapshot.simps
    by (rule rules_by_rank.js_sort_perm)
      (use assms mset_filter_rules [of "rules s" rs ?P] in \<open>auto intro: inj_on_subset\<close>)
  then show ?thesis
    by (cases "candidates s ctx"; cases "cx_patronCategoryId ctx") (simp_all add: resolveCirculationPolicy_def cong: if_cong)
qed

lemma resolve_error:
  assumes "resolveCirculationPolicy s ctx = Inl e"
  shows "e = PolicyResolutionError NoMatchingRule None \<and> (\<forall>r \<in> set (rules s). \<not> applies ctx r) \<or>
    (\<exists>w. best_rule s ctx w \<and> (e = PolicyResolutionError AmbiguousRule (Some (rule_id w)) \<or>
       (\<exists>i. e = PolicyResolutionError PolicyNotInSnapshot (Some i) \<and>
         (i = loanPolicyId w \<and> loanPolicies s i = None \<or>
          i = overdueFinePolicyId w \<and> overdueFinePolicies s i = None \<or>
          i = lostItemFeePolicyId w \<and> lostItemFeePolicies s i = None \<or>
          i = holdPolicyId w \<and> holdPolicies s i = None \<or>
          i = noticePolicyId w \<and> noticePolicies s i = None))))"
proof (cases "candidates s ctx")
  case Nil
  with assms show ?thesis by (simp add: resolveCirculationPolicy_def candidates_empty_iff)
next
  case (Cons w ls)
  have "w \<in> set (rules s) \<and> applies ctx w" using set_candidates [of s ctx] Cons by auto
  moreover have "compareRank w r \<le> 0" if "r \<in> set (rules s)" "applies ctx r" for r
  proof -
    have "r \<in> set (w # ls)" using set_candidates [of s ctx] Cons that by auto
    then show ?thesis using sorted_candidates [of s ctx] Cons rules_by_rank.cmp_refl by auto
  qed
  ultimately have best: "best_rule s ctx w" by (simp add: best_rule_def)
  show ?thesis
    by (rule disjI2, rule exI [of _ w])
      (use assms Cons best in \<open>auto simp: resolveCirculationPolicy_def bind_res_Inl_iff need_Inl_iff split: if_splits\<close>)
qed

lemma resolve_wildcard:
  assumes "w \<in> set (rules s)" "isInForce w (cx_at ctx)" "\<And>n. selector_value w n = None"
  shows "resolveCirculationPolicy s ctx \<noteq> Inl (PolicyResolutionError NoMatchingRule x)"
proof
  assume "resolveCirculationPolicy s ctx = Inl (PolicyResolutionError NoMatchingRule x)"
  from resolve_error [OF this] have "\<not> applies ctx w" using assms(1) by auto
  then show False using assms by (simp add: applies_def matchesSelectors_iff)
qed

section \<open>Templates\<close>

definition template_key :: "notice_template_binding \<Rightarrow> int \<times> int \<times> string" where
  "template_key t = (0, - templateSpecificity t, ntb_id t)"

lemma compareTemplateRank_key: "compareTemplateRank a b \<le> 0 \<longleftrightarrow> key_le (template_key a) (template_key b)"
  by (auto simp: compareTemplateRank_def Let_def template_key_def key_le_def not_less)

interpretation templates_by_rank: keyed_comparator compareTemplateRank ntb_id
proof
  fix a b c
  show "compareTemplateRank b a < 0 \<longleftrightarrow> 0 < compareTemplateRank a b"
    by (auto simp: compareTemplateRank_def Let_def)
  show "compareTemplateRank a b \<le> 0 \<Longrightarrow> compareTemplateRank b c \<le> 0 \<Longrightarrow> compareTemplateRank a c \<le> 0"
    unfolding compareTemplateRank_key by (rule key_le_trans)
  show "compareTemplateRank a b = 0 \<Longrightarrow> ntb_id a = ntb_id b"
    by (auto simp: compareTemplateRank_def Let_def split: if_splits)
qed

lemma resolveTemplate_Some:
  "resolveTemplate pol ctx = Some t \<Longrightarrow> t \<in> set (templates pol) \<and> template_matches ctx t \<and>
     (\<forall>u \<in> set (templates pol). template_matches ctx u \<longrightarrow> compareTemplateRank t u \<le> 0)"
proof -
  let ?m = "filter (template_matches ctx) (templates pol)"
  assume a: "resolveTemplate pol ctx = Some t"
  then have ne: "?m \<noteq> []" and t: "t = hd (js_sort compareTemplateRank ?m)"
    by (auto simp: resolveTemplate_def Let_def split: if_splits list.splits)
  have "t \<in> set ?m" unfolding t by (rule templates_by_rank.hd_js_sort_mem [OF ne])
  moreover have "compareTemplateRank t u \<le> 0" if "u \<in> set ?m" for u
    unfolding t by (rule templates_by_rank.hd_js_sort_least [OF that])
  ultimately show ?thesis by auto
qed

lemma resolveTemplate_None: "resolveTemplate pol ctx = None \<longleftrightarrow> (\<forall>t \<in> set (templates pol). \<not> template_matches ctx t)"
proof -
  let ?m = "filter (template_matches ctx) (templates pol)"
  have "js_sort compareTemplateRank ?m = [] \<longleftrightarrow> ?m = []" by simp
  then show ?thesis
    by (auto simp: resolveTemplate_def Let_def filter_empty_conv split: list.splits)
qed

text \<open>A template of the branch is chosen over one of the category alone.\<close>

lemma resolveTemplate_branch_first:
  assumes "resolveTemplate pol ctx = Some t" "u \<in> set (templates pol)" "template_matches ctx u"
    and "ntb_branchId u \<noteq> None"
  shows "ntb_branchId t \<noteq> None"
proof -
  have "compareTemplateRank t u \<le> 0" using resolveTemplate_Some [OF assms(1)] assms(2,3) by blast
  then show ?thesis using assms(4)
    by (auto simp: compareTemplateRank_def templateSpecificity_def Let_def split: if_splits)
qed

end
