(* ===== verification/Blocks.thy ===== *)
theory Blocks
  imports Resolve
begin

text \<open>
  \<open>packages/circ-policy/src/blocks.ts\<close>: what refuses a checkout, a renewal or a hold. A count
  the caller did not make is \<open>None\<close>. A block shows what was observed and what was allowed, as a
  number or as a text.
\<close>

datatype block_code =
    NotLoanable | TooManyLoans | TooManyLoansOfTitle | TooManyHolds | TooManyHoldsOfRecord
  | TooManyOverdues | FineLimitExceeded | AgeRestriction | HoldsNotAllowed | OnShelfHoldsNotAllowed
  | ItemLevelHoldsNotAllowed | PickupBranchNotAllowed | NotRenewable | RenewalLimitReached
  | RenewalTooEarly | RenewalBlockedByHold

datatype severity = Block | Warn
datatype shown = Num int | Text string

record block =
  code :: block_code
  bl_severity :: severity
  overridable :: bool
  overridePermission :: string
  observed :: "shown option"
  limit :: "shown option"

datatype hold_level = TitleLevel | VolumeLevel | ItemLevel

record circulation_state =
  openLoans :: "int option"
  openLoansOfTitle :: "int option"
  openHolds :: "int option"
  openHoldsOfRecord :: "int option"
  overdueLoans :: "int option"
  fineBalance :: "money_json option"
  patronAgeYears :: "int option"
  renewalCount :: "int option"
  cs_hasOutstandingHold :: "bool option"
  anyCopyAvailable :: "bool option"
  allCopiesAvailable :: "bool option"
  requestedPickupBranchId :: "string option"
  requestedHoldLevel :: "hold_level option"
  itemHomeBranchId :: "string option"
  itemCurrentBranchId :: "string option"
  patronHomeBranchId :: "string option"

datatype block_operation = CheckoutOp | RenewalOp | HoldOp

definition mk_block :: "block_code \<Rightarrow> string \<Rightarrow> shown option \<Rightarrow> shown option \<Rightarrow> block" where
  "mk_block c perm obs allowed =
     \<lparr>code = c, bl_severity = Block, overridable = True, overridePermission = perm,
      observed = obs, limit = allowed\<rparr>"

definition tighter :: "int option \<Rightarrow> int option \<Rightarrow> int option" where
  "tighter a b = (case a of None \<Rightarrow> b | Some x \<Rightarrow> (case b of None \<Rightarrow> a | Some y \<Rightarrow> Some (min x y)))"

definition durationMs :: "duration \<Rightarrow> int" where
  "durationMs d =
     (case dur_unit d of
        Minutes \<Rightarrow> dur_value d * 60000
      | Hours \<Rightarrow> dur_value d * 3600000
      | Weeks \<Rightarrow> dur_value d * 7 * 86400000
      | Months \<Rightarrow> dur_value d * 30 * 86400000
      | Days \<Rightarrow> dur_value d * 86400000)"

definition pickup_name :: "pickup_policy \<Rightarrow> string" where
  "pickup_name p =
     (case p of AnyBranch \<Rightarrow> ''any'' | OwningBranch \<Rightarrow> ''owningBranch''
      | PatronHomeBranch \<Rightarrow> ''patronHomeBranch'' | HoldingBranch \<Rightarrow> ''holdingBranch''
      | ExplicitSet \<Rightarrow> ''explicitSet'')"

definition pickupBlock :: "hold_policy \<Rightarrow> circulation_state \<Rightarrow> block option" where
  "pickupBlock hold state =
     (case requestedPickupBranchId state of
        None \<Rightarrow> None
      | Some wanted \<Rightarrow>
          if pickupPolicy hold = AnyBranch then None
          else
            (let against =
                   (if pickupPolicy hold = OwningBranch then itemHomeBranchId state
                    else if pickupPolicy hold = HoldingBranch then itemCurrentBranchId state
                    else patronHomeBranchId state);
                 allowed =
                   (if pickupPolicy hold = ExplicitSet then wanted \<in> set (pickupBranchIds hold)
                    else against = None \<or> against = Some wanted)
             in if allowed then None
                else Some \<lparr>code = PickupBranchNotAllowed, bl_severity = Block, overridable = True,
                           overridePermission = ''circ.hold.override'', observed = Some (Text wanted),
                           limit = Some (Text (pickup_name (pickupPolicy hold)))\<rparr>))"

text \<open>
  \<open>reached\<close> is a count that is known, a cap that is set and the first at or above the
  second. \<open>out.push\<close> under a condition is \<open>push_if\<close>.
\<close>

definition reached :: "int option \<Rightarrow> int option \<Rightarrow> bool" where
  "reached seen cap =
     (case cap of None \<Rightarrow> False | Some c \<Rightarrow> (case seen of None \<Rightarrow> False | Some n \<Rightarrow> n \<ge> c))"

definition push_if :: "bool \<Rightarrow> 'a \<Rightarrow> 'a list \<Rightarrow> 'a list" where
  "push_if c b out = (if c then out @ [b] else out)"

definition over_limit :: "money_json option \<Rightarrow> money_json option \<Rightarrow> bool" where
  "over_limit balance cap =
     (case cap of None \<Rightarrow> False
      | Some m \<Rightarrow> (case balance of None \<Rightarrow> False
          | Some b \<Rightarrow> (let owed = toMoney b; max = toMoney m
                       in currency owed = currency max \<and> amount owed \<ge> amount max)))"

definition show_money :: "money_json \<Rightarrow> string" where
  "show_money m = show_int (amount (toMoney m)) @ '' '' @ currency (toMoney m)"

definition hold_blocks :: "resolved_policy \<Rightarrow> circulation_state \<Rightarrow> block list \<Rightarrow> block list" where
  "hold_blocks resolved state out0 =
     (let hold = rp_hold resolved; rule = rp_rule resolved;
          maxHolds = tighter (tighter (maxHoldsForRule rule)
                        (case categoryLimit resolved of None \<Rightarrow> None | Some l \<Rightarrow> maxHolds l))
                       (maxHoldsTotal hold);
          perm = ''circ.hold.override'';
          out1 = push_if (\<not> holdsAllowed hold) (mk_block HoldsNotAllowed perm None None) out0;
          out2 = push_if (itemLevelHolds hold = LevelDeny \<and> requestedHoldLevel state = Some ItemLevel)
                   (mk_block ItemLevelHoldsNotAllowed perm (Some (Text ''item'')) (Some (Text ''deny''))) out1;
          out3 = push_if (reached (openHolds state) maxHolds)
                   (mk_block TooManyHolds perm (map_option Num (openHolds state)) (map_option Num maxHolds)) out2;
          out4 = push_if (reached (openHoldsOfRecord state) (maxHoldsPerRecord hold))
                   (mk_block TooManyHoldsOfRecord perm (map_option Num (openHoldsOfRecord state))
                     (map_option Num (maxHoldsPerRecord hold))) out3;
          shelf = mk_block OnShelfHoldsNotAllowed perm None None;
          out5 = push_if (onShelfHolds hold = ShelfDeny \<and> anyCopyAvailable state = Some True) shelf out4;
          out6 = push_if (onShelfHolds hold = IfAnyUnavailable \<and> allCopiesAvailable state = Some True) shelf out5;
          out7 = push_if (onShelfHolds hold = IfAllUnavailable \<and> anyCopyAvailable state = Some True) shelf out6
      in (case pickupBlock hold state of None \<Rightarrow> out7 | Some b \<Rightarrow> out7 @ [b]))"

definition renewal_blocks :: "resolved_policy \<Rightarrow> circulation_state \<Rightarrow> block list \<Rightarrow> block list" where
  "renewal_blocks resolved state out0 =
     (let loan = rp_loan resolved; perm = ''circ.renew.override'';
          out1 = push_if (\<not> renewable loan) (mk_block NotRenewable perm None None) out0;
          out2 = push_if (reached (renewalCount state) (renewalsAllowed loan))
                   (mk_block RenewalLimitReached perm (map_option Num (renewalCount state))
                     (map_option Num (renewalsAllowed loan))) out1
      in push_if (\<not> renewWithOutstandingHolds loan \<and> cs_hasOutstandingHold state = Some True)
           (mk_block RenewalBlockedByHold perm None None) out2)"

definition evaluateBlocks ::
    "resolved_policy \<Rightarrow> circulation_state \<Rightarrow> block_operation \<Rightarrow> block list" where
  "evaluateBlocks resolved state operation =
     (let loan = rp_loan resolved; rule = rp_rule resolved; category = categoryLimit resolved;
          perm = ''circ.checkout.override'';
          out1 = push_if (operation \<noteq> HoldOp \<and> \<not> loanable loan) (mk_block NotLoanable perm None None) [];
          max_loans = tighter (maxLoansForRule rule)
                        (case category of None \<Rightarrow> None | Some l \<Rightarrow> maxLoans l);
          out2 = push_if (operation = CheckoutOp \<and> reached (openLoans state) max_loans)
                   (mk_block TooManyLoans perm (map_option Num (openLoans state)) (map_option Num max_loans)) out1;
          out3 = push_if (operation = CheckoutOp \<and> reached (openLoansOfTitle state) (itemLimitForPolicy loan))
                   (mk_block TooManyLoansOfTitle perm (map_option Num (openLoansOfTitle state))
                     (map_option Num (itemLimitForPolicy loan))) out2;
          out4 = (if operation = HoldOp then hold_blocks resolved state out3 else out3);
          max_overdues = (case category of None \<Rightarrow> None | Some l \<Rightarrow> maxOverdues l);
          out5 = push_if (reached (overdueLoans state) max_overdues)
                   (mk_block TooManyOverdues perm (map_option Num (overdueLoans state))
                     (map_option Num max_overdues)) out4;
          max_balance = (case category of None \<Rightarrow> None | Some l \<Rightarrow> maxFineBalance l);
          out6 = push_if (over_limit (fineBalance state) max_balance)
                   (mk_block FineLimitExceeded perm (map_option (Text \<circ> show_money) (fineBalance state))
                     (map_option (Text \<circ> show_money) max_balance)) out5;
          too_young = (case (ageRestrictionMinYears rule, patronAgeYears state) of
              (Some least, Some age) \<Rightarrow> age < least | _ \<Rightarrow> False);
          out7 = push_if too_young
                   \<lparr>code = AgeRestriction, bl_severity = Warn, overridable = True, overridePermission = perm,
                    observed = map_option Num (patronAgeYears state),
                    limit = map_option Num (ageRestrictionMinYears rule)\<rparr> out6
      in if operation = RenewalOp then renewal_blocks resolved state out7 else out7)"

definition renewalTooEarly :: "loan_policy \<Rightarrow> instant \<Rightarrow> instant \<Rightarrow> block option" where
  "renewalTooEarly loan currentDueAt now =
     (case noRenewalBefore loan of
        None \<Rightarrow> None
      | Some d \<Rightarrow>
          (let ms = durationMs d;
               opensAt = (if noRenewalBeforeRelativeTo loan = DueDate then currentDueAt - ms else now + ms)
           in if now \<ge> opensAt then None
              else Some \<lparr>code = RenewalTooEarly, bl_severity = Block, overridable = True,
                         overridePermission = ''circ.renew.override'',
                         observed = Some (Text (toISOString now)), limit = Some (Text (toISOString opensAt))\<rparr>))"

section \<open>Which blocks, exactly\<close>

lemma set_push_if [simp]: "set (push_if c b out) = (if c then insert b (set out) else set out)"
  by (simp add: push_if_def)

lemma reached_iff: "reached seen cap \<longleftrightarrow> (\<exists>n c. seen = Some n \<and> cap = Some c \<and> c \<le> n)"
  by (auto simp: reached_def split: option.splits)

lemma tighter_Some_iff:
  "tighter a b = Some c \<longleftrightarrow> (a = Some c \<and> (\<forall>y. b = Some y \<longrightarrow> c \<le> y)) \<or> (b = Some c \<and> (\<forall>x. a = Some x \<longrightarrow> c \<le> x))"
  by (auto simp: tighter_def min_def split: option.splits)

lemma tighter_None_iff: "tighter a b = None \<longleftrightarrow> a = None \<and> b = None"
  by (auto simp: tighter_def split: option.splits)

text \<open>Reaching the tighter of two ceilings is reaching one of them.\<close>

lemma reached_tighter: "reached n (tighter a b) \<longleftrightarrow> reached n a \<or> reached n b"
  by (auto simp: reached_iff tighter_def split: option.splits)

definition codes :: "block list \<Rightarrow> block_code set" where
  "codes bs = code ` set bs"

lemma codes_push_if: "codes (push_if c b out) = (if c then insert (code b) (codes out) else codes out)"
  by (simp add: codes_def)

lemma code_mk_block [simp]: "code (mk_block c p x y) = c" "bl_severity (mk_block c p x y) = Block"
  by (simp_all add: mk_block_def)

definition ceiling_of :: "resolved_policy \<Rightarrow> (patron_category_limit \<Rightarrow> 'a option) \<Rightarrow> 'a option" where
  "ceiling_of r f = (case categoryLimit r of None \<Rightarrow> None | Some l \<Rightarrow> f l)"

lemmas block_simps = hold_blocks_def renewal_blocks_def evaluateBlocks_def Let_def codes_push_if ceiling_of_def

lemma pickupBlock_code: "pickupBlock h s = Some b \<Longrightarrow> code b = PickupBranchNotAllowed \<and> bl_severity b = Block"
  by (auto simp: pickupBlock_def Let_def split: option.splits if_splits)

lemma codes_append: "codes (xs @ [b]) = insert (code b) (codes xs)"
  by (simp add: codes_def)

lemma codes_Nil [simp]: "codes [] = {}"
  by (simp add: codes_def)

lemma hold_blocks_codes:
  "c \<in> codes (hold_blocks r s out) \<longleftrightarrow> c \<in> codes out \<or>
     (c = HoldsNotAllowed \<and> \<not> holdsAllowed (rp_hold r)) \<or>
     (c = ItemLevelHoldsNotAllowed \<and> itemLevelHolds (rp_hold r) = LevelDeny \<and> requestedHoldLevel s = Some ItemLevel) \<or>
     (c = TooManyHolds \<and> (reached (openHolds s) (maxHoldsForRule (rp_rule r)) \<or>
        reached (openHolds s) (ceiling_of r maxHolds) \<or> reached (openHolds s) (maxHoldsTotal (rp_hold r)))) \<or>
     (c = TooManyHoldsOfRecord \<and> reached (openHoldsOfRecord s) (maxHoldsPerRecord (rp_hold r))) \<or>
     (c = OnShelfHoldsNotAllowed \<and>
        (onShelfHolds (rp_hold r) \<in> {ShelfDeny, IfAllUnavailable} \<and> anyCopyAvailable s = Some True \<or>
         onShelfHolds (rp_hold r) = IfAnyUnavailable \<and> allCopiesAvailable s = Some True)) \<or>
     (c = PickupBranchNotAllowed \<and> pickupBlock (rp_hold r) s \<noteq> None)"
proof -
  have c: "codes (case p of None \<Rightarrow> xs | Some b \<Rightarrow> xs @ [b]) =
      (case p of None \<Rightarrow> codes xs | Some b \<Rightarrow> insert (code b) (codes xs))" for p xs
    by (simp add: codes_append split: option.split)
  show ?thesis
    using pickupBlock_code [of "rp_hold r" s]
    unfolding hold_blocks_def Let_def c codes_push_if code_mk_block reached_tighter
    by (cases "pickupBlock (rp_hold r) s") (auto simp: ceiling_of_def)
qed


definition refused :: "resolved_policy \<Rightarrow> circulation_state \<Rightarrow> block_operation \<Rightarrow> block_code \<Rightarrow> bool" where
  "refused r s op c \<longleftrightarrow>
     (case c of
        NotLoanable \<Rightarrow> op \<noteq> HoldOp \<and> \<not> loanable (rp_loan r)
      | TooManyLoans \<Rightarrow> op = CheckoutOp \<and>
          (reached (openLoans s) (maxLoansForRule (rp_rule r)) \<or> reached (openLoans s) (ceiling_of r maxLoans))
      | TooManyLoansOfTitle \<Rightarrow> op = CheckoutOp \<and> reached (openLoansOfTitle s) (itemLimitForPolicy (rp_loan r))
      | TooManyHolds \<Rightarrow> op = HoldOp \<and> (reached (openHolds s) (maxHoldsForRule (rp_rule r)) \<or>
          reached (openHolds s) (ceiling_of r maxHolds) \<or> reached (openHolds s) (maxHoldsTotal (rp_hold r)))
      | TooManyHoldsOfRecord \<Rightarrow> op = HoldOp \<and> reached (openHoldsOfRecord s) (maxHoldsPerRecord (rp_hold r))
      | TooManyOverdues \<Rightarrow> reached (overdueLoans s) (ceiling_of r maxOverdues)
      | FineLimitExceeded \<Rightarrow> over_limit (fineBalance s) (ceiling_of r maxFineBalance)
      | AgeRestriction \<Rightarrow>
          (\<exists>least age. ageRestrictionMinYears (rp_rule r) = Some least \<and> patronAgeYears s = Some age \<and> age < least)
      | HoldsNotAllowed \<Rightarrow> op = HoldOp \<and> \<not> holdsAllowed (rp_hold r)
      | OnShelfHoldsNotAllowed \<Rightarrow> op = HoldOp \<and>
          (onShelfHolds (rp_hold r) \<in> {ShelfDeny, IfAllUnavailable} \<and> anyCopyAvailable s = Some True \<or>
           onShelfHolds (rp_hold r) = IfAnyUnavailable \<and> allCopiesAvailable s = Some True)
      | ItemLevelHoldsNotAllowed \<Rightarrow> op = HoldOp \<and> itemLevelHolds (rp_hold r) = LevelDeny \<and>
          requestedHoldLevel s = Some ItemLevel
      | PickupBranchNotAllowed \<Rightarrow> op = HoldOp \<and> pickupBlock (rp_hold r) s \<noteq> None
      | NotRenewable \<Rightarrow> op = RenewalOp \<and> \<not> renewable (rp_loan r)
      | RenewalLimitReached \<Rightarrow> op = RenewalOp \<and> reached (renewalCount s) (renewalsAllowed (rp_loan r))
      | RenewalTooEarly \<Rightarrow> False
      | RenewalBlockedByHold \<Rightarrow> op = RenewalOp \<and> \<not> renewWithOutstandingHolds (rp_loan r) \<and>
          cs_hasOutstandingHold s = Some True)"

lemma renewal_blocks_codes:
  "c \<in> codes (renewal_blocks r s out) \<longleftrightarrow> c \<in> codes out \<or>
     (c = NotRenewable \<and> \<not> renewable (rp_loan r)) \<or>
     (c = RenewalLimitReached \<and> reached (renewalCount s) (renewalsAllowed (rp_loan r))) \<or>
     (c = RenewalBlockedByHold \<and> \<not> renewWithOutstandingHolds (rp_loan r) \<and> cs_hasOutstandingHold s = Some True)"
  unfolding renewal_blocks_def Let_def codes_push_if code_mk_block by auto

text \<open>The blocks before those of a renewal.\<close>

lemma evaluateBlocks_codes: "codes (evaluateBlocks r s op) = {c. refused r s op c}"
proof -
  have age: "(case (ageRestrictionMinYears (rp_rule r), patronAgeYears s) of
      (Some least, Some age) \<Rightarrow> age < least | _ \<Rightarrow> False) \<longleftrightarrow>
      (\<exists>least age. ageRestrictionMinYears (rp_rule r) = Some least \<and> patronAgeYears s = Some age \<and> age < least)"
    by (auto split: option.splits)
  have ifs: "codes (if b then x else y) = (if b then codes x else codes y)" for b x y by simp
  have "c \<in> codes (evaluateBlocks r s op) \<longleftrightarrow> refused r s op c" for c
    unfolding evaluateBlocks_def Let_def ifs codes_push_if code_mk_block reached_tighter age
      ceiling_of_def [symmetric] block.select_convs
    by (cases c; cases op) (simp_all add: renewal_blocks_codes hold_blocks_codes codes_push_if refused_def reached_tighter age)
  then show ?thesis by blast
qed

text \<open>Nothing but an age restriction is a warning.\<close>

definition honest_severity :: "block list \<Rightarrow> bool" where
  "honest_severity bs \<longleftrightarrow> (\<forall>b \<in> set bs. bl_severity b = Warn \<longleftrightarrow> code b = AgeRestriction)"

lemma honest_push_if:
  "honest_severity out \<Longrightarrow> (bl_severity b = Warn \<longleftrightarrow> code b = AgeRestriction) \<Longrightarrow> honest_severity (push_if c b out)"
  by (simp add: honest_severity_def)

lemma honest_mk_block: "c \<noteq> AgeRestriction \<Longrightarrow> bl_severity (mk_block c p x y) = Warn \<longleftrightarrow> code (mk_block c p x y) = AgeRestriction"
  by simp

lemma honest_hold_blocks: "honest_severity out \<Longrightarrow> honest_severity (hold_blocks r s out)"
  using pickupBlock_code [of "rp_hold r" s]
  unfolding hold_blocks_def Let_def
  by (cases "pickupBlock (rp_hold r) s") (auto simp: honest_severity_def)

lemma honest_evaluateBlocks: "honest_severity (evaluateBlocks r s op)"
  unfolding evaluateBlocks_def renewal_blocks_def Let_def
  by (auto intro!: honest_push_if honest_hold_blocks) (simp_all add: honest_severity_def)

text \<open>A count that was not made refuses nothing.\<close>

definition nothing_counted :: circulation_state where
  "nothing_counted = \<lparr>openLoans = None, openLoansOfTitle = None, openHolds = None, openHoldsOfRecord = None,
     overdueLoans = None, fineBalance = None, patronAgeYears = None, renewalCount = None,
     cs_hasOutstandingHold = None, anyCopyAvailable = None, allCopiesAvailable = None,
     requestedPickupBranchId = None, requestedHoldLevel = None, itemHomeBranchId = None,
     itemCurrentBranchId = None, patronHomeBranchId = None\<rparr>"

lemma nothing_counted_refuses:
  "codes (evaluateBlocks r nothing_counted op) \<subseteq> {NotLoanable, HoldsNotAllowed, NotRenewable}"
proof -
  have "refused r nothing_counted op c \<Longrightarrow> c \<in> {NotLoanable, HoldsNotAllowed, NotRenewable}" for c
    by (cases c) (auto simp: refused_def nothing_counted_def reached_def over_limit_def pickupBlock_def
        split: option.splits)
  then show ?thesis by (auto simp: evaluateBlocks_codes)
qed

section \<open>Too early to renew\<close>

lemma renewalTooEarly_due:
  assumes "noRenewalBefore loan = Some d" "noRenewalBeforeRelativeTo loan = DueDate"
  shows "renewalTooEarly loan due now = None \<longleftrightarrow> due - durationMs d \<le> now"
  using assms by (simp add: renewalTooEarly_def Let_def)

lemma renewalTooEarly_now:
  assumes "noRenewalBefore loan = Some d" "noRenewalBeforeRelativeTo loan = Now" "0 < durationMs d"
  shows "renewalTooEarly loan due now \<noteq> None"
  using assms by (simp add: renewalTooEarly_def Let_def)

end
