(* ===== verification/Pinning.thy ===== *)
theory Pinning
  imports Blocks
begin

text \<open>
  \<open>packages/circ-policy/src/pinning.ts\<close> and \<open>hold-pinning.ts\<close>: the terms frozen onto a loan and
  onto a hold, reading them back from what the database holds, and where a held copy may be
  collected. A stored value is a JSON value; a policy object and a list of rolls inside it are
  leaves that carry the typed value, as the sources do not look into them when they read.
\<close>

datatype js_value =
    JNull
  | JBool bool
  | JNumber int
  | JString string
  | JArray "js_value list"
  | JObject "(string \<times> js_value) list"
  | JLoan loan_policy
  | JFine overdue_fine_policy
  | JLost lost_item_fee_policy
  | JHold hold_policy
  | JRolls "calendar_roll list"

definition POLICY_SNAPSHOT_VERSION :: int where
  "POLICY_SNAPSHOT_VERSION = 1"

definition HOLD_SNAPSHOT_VERSION :: int where
  "HOLD_SNAPSHOT_VERSION = 1"

section \<open>The frozen terms of a loan\<close>

record pinned_policy_snapshot =
  pp_v :: int
  pp_resolvedAt :: string
  pp_snapshotVersion :: int
  pp_ruleId :: string
  pp_branchId :: string
  pp_timezone :: string
  pp_calendarId :: "string option"
  pp_itemTypeId :: "string option"
  pp_patronCategoryId :: "string option"
  pp_loan :: loan_policy
  pp_overdueFine :: overdue_fine_policy
  pp_lostItemFee :: lost_item_fee_policy
  pp_rolls :: "calendar_roll list"

record pin_place =
  pin_resolvedAt :: instant
  pin_branchId :: string
  pin_timezone :: string
  pin_calendarId :: "string option"
  pin_itemTypeId :: "string option"
  pin_patronCategoryId :: "string option"

definition pinNamedPolicy ::
    "int \<Rightarrow> string \<Rightarrow> pin_place \<Rightarrow> loan_policy \<Rightarrow> overdue_fine_policy \<Rightarrow> lost_item_fee_policy \<Rightarrow>
     pinned_policy_snapshot" where
  "pinNamedPolicy snapVersion ruleId place loan fine lost =
     \<lparr>pp_v = POLICY_SNAPSHOT_VERSION, pp_resolvedAt = toISOString (pin_resolvedAt place),
      pp_snapshotVersion = snapVersion, pp_ruleId = ruleId, pp_branchId = pin_branchId place,
      pp_timezone = pin_timezone place, pp_calendarId = pin_calendarId place,
      pp_itemTypeId = pin_itemTypeId place, pp_patronCategoryId = pin_patronCategoryId place,
      pp_loan = loan, pp_overdueFine = fine, pp_lostItemFee = lost, pp_rolls = []\<rparr>"

definition pinPolicy ::
    "resolved_policy \<Rightarrow> pin_place \<Rightarrow> calendar_roll list \<Rightarrow> pinned_policy_snapshot" where
  "pinPolicy resolved place rolls =
     \<lparr>pp_v = POLICY_SNAPSHOT_VERSION, pp_resolvedAt = toISOString (pin_resolvedAt place),
      pp_snapshotVersion = snapshotVersion (rp_trace resolved),
      pp_ruleId = matchedRuleId (rp_trace resolved), pp_branchId = pin_branchId place,
      pp_timezone = pin_timezone place, pp_calendarId = pin_calendarId place,
      pp_itemTypeId = pin_itemTypeId place, pp_patronCategoryId = pin_patronCategoryId place,
      pp_loan = rp_loan resolved, pp_overdueFine = rp_overdueFine resolved,
      pp_lostItemFee = rp_lostItemFee resolved, pp_rolls = rolls\<rparr>"

text \<open>What is stored: the object with the fields of the type, \<open>null\<close> for an absent id.\<close>

definition JOption :: "string option \<Rightarrow> js_value" where
  "JOption s = (case s of None \<Rightarrow> JNull | Some x \<Rightarrow> JString x)"

definition store_policy :: "pinned_policy_snapshot \<Rightarrow> js_value" where
  "store_policy s = JObject
     [(''v'', JNumber (pp_v s)), (''resolvedAt'', JString (pp_resolvedAt s)),
      (''snapshotVersion'', JNumber (pp_snapshotVersion s)), (''ruleId'', JString (pp_ruleId s)),
      (''branchId'', JString (pp_branchId s)), (''timezone'', JString (pp_timezone s)),
      (''calendarId'', JOption (pp_calendarId s)), (''itemTypeId'', JOption (pp_itemTypeId s)),
      (''patronCategoryId'', JOption (pp_patronCategoryId s)), (''loan'', JLoan (pp_loan s)),
      (''overdueFine'', JFine (pp_overdueFine s)), (''lostItemFee'', JLost (pp_lostItemFee s)),
      (''rolls'', JRolls (pp_rolls s))]"

datatype snapshot_error = NoSnapshot | WrongVersion | MissingPolicy string | NoTimezone

datatype pinned_error = PinnedSnapshotError string snapshot_error | PinnedHoldSnapshotError string snapshot_error

text \<open>
  A property of a value that is neither \<open>null\<close> nor an array nor primitive; an array, \<open>null\<close> and
  a primitive are no object. A leaf is an object whose properties are not asked for.
\<close>

definition object_fields :: "js_value \<Rightarrow> (string \<times> js_value) list option" where
  "object_fields raw =
     (case raw of JObject fs \<Rightarrow> Some fs
      | JLoan _ \<Rightarrow> Some [] | JFine _ \<Rightarrow> Some [] | JLost _ \<Rightarrow> Some [] | JHold _ \<Rightarrow> Some []
      | _ \<Rightarrow> None)"

definition absent :: "js_value option \<Rightarrow> bool" where
  "absent v \<longleftrightarrow> v = None \<or> v = Some JNull"

definition readPinnedPolicy :: "string \<Rightarrow> js_value \<Rightarrow> pinned_error + js_value" where
  "readPinnedPolicy loanId raw =
     (case object_fields raw of
        None \<Rightarrow> Inl (PinnedSnapshotError loanId NoSnapshot)
      | Some fs \<Rightarrow>
          if map_of fs ''v'' \<noteq> Some (JNumber POLICY_SNAPSHOT_VERSION)
          then Inl (PinnedSnapshotError loanId WrongVersion)
          else
            (case find (\<lambda>key. absent (map_of fs key)) [''loan'', ''overdueFine'', ''lostItemFee''] of
               Some key \<Rightarrow> Inl (PinnedSnapshotError loanId (MissingPolicy key))
             | None \<Rightarrow>
                 (case map_of fs ''timezone'' of
                    Some (JString tz) \<Rightarrow>
                      if length tz = 0 then Inl (PinnedSnapshotError loanId NoTimezone) else Inr raw
                  | _ \<Rightarrow> Inl (PinnedSnapshotError loanId NoTimezone))))"

section \<open>The frozen terms of a hold\<close>

record pinned_hold_snapshot =
  ph_v :: int
  ph_resolvedAt :: string
  ph_snapshotVersion :: int
  ph_ruleId :: string
  ph_branchId :: string
  ph_timezone :: string
  ph_calendarId :: "string option"
  ph_itemTypeId :: "string option"
  ph_patronCategoryId :: "string option"
  ph_hold :: hold_policy
  ph_pickupBranchIds :: "string list"
  ph_rolls :: "calendar_roll list"

definition pinNamedHoldPolicy ::
    "int \<Rightarrow> string \<Rightarrow> pin_place \<Rightarrow> hold_policy \<Rightarrow> string list \<Rightarrow> pinned_hold_snapshot" where
  "pinNamedHoldPolicy snapVersion ruleId place hold branches =
     \<lparr>ph_v = HOLD_SNAPSHOT_VERSION, ph_resolvedAt = toISOString (pin_resolvedAt place),
      ph_snapshotVersion = snapVersion, ph_ruleId = ruleId, ph_branchId = pin_branchId place,
      ph_timezone = pin_timezone place, ph_calendarId = pin_calendarId place,
      ph_itemTypeId = pin_itemTypeId place, ph_patronCategoryId = pin_patronCategoryId place,
      ph_hold = hold, ph_pickupBranchIds = branches, ph_rolls = []\<rparr>"

definition pinHoldPolicy ::
    "resolved_policy \<Rightarrow> pin_place \<Rightarrow> string list \<Rightarrow> calendar_roll list option \<Rightarrow> pinned_hold_snapshot" where
  "pinHoldPolicy resolved place branches rolls =
     \<lparr>ph_v = HOLD_SNAPSHOT_VERSION, ph_resolvedAt = toISOString (pin_resolvedAt place),
      ph_snapshotVersion = snapshotVersion (rp_trace resolved),
      ph_ruleId = matchedRuleId (rp_trace resolved), ph_branchId = pin_branchId place,
      ph_timezone = pin_timezone place, ph_calendarId = pin_calendarId place,
      ph_itemTypeId = pin_itemTypeId place, ph_patronCategoryId = pin_patronCategoryId place,
      ph_hold = rp_hold resolved, ph_pickupBranchIds = branches,
      ph_rolls = (case rolls of None \<Rightarrow> [] | Some rs \<Rightarrow> rs)\<rparr>"

definition store_hold :: "pinned_hold_snapshot \<Rightarrow> js_value" where
  "store_hold s = JObject
     [(''v'', JNumber (ph_v s)), (''resolvedAt'', JString (ph_resolvedAt s)),
      (''snapshotVersion'', JNumber (ph_snapshotVersion s)), (''ruleId'', JString (ph_ruleId s)),
      (''branchId'', JString (ph_branchId s)), (''timezone'', JString (ph_timezone s)),
      (''calendarId'', JOption (ph_calendarId s)), (''itemTypeId'', JOption (ph_itemTypeId s)),
      (''patronCategoryId'', JOption (ph_patronCategoryId s)), (''hold'', JHold (ph_hold s)),
      (''pickupBranchIds'', JArray (map JString (ph_pickupBranchIds s))),
      (''rolls'', JRolls (ph_rolls s))]"

definition readPinnedHoldPolicy :: "string \<Rightarrow> js_value \<Rightarrow> pinned_error + js_value" where
  "readPinnedHoldPolicy holdId raw =
     (case object_fields raw of
        None \<Rightarrow> Inl (PinnedHoldSnapshotError holdId NoSnapshot)
      | Some fs \<Rightarrow>
          if map_of fs ''v'' \<noteq> Some (JNumber HOLD_SNAPSHOT_VERSION)
          then Inl (PinnedHoldSnapshotError holdId WrongVersion)
          else if absent (map_of fs ''hold'')
          then Inl (PinnedHoldSnapshotError holdId (MissingPolicy ''hold''))
          else Inr (JObject (map_set ''pickupBranchIds''
                 (if absent (map_of fs ''pickupBranchIds'') then JArray []
                  else the (map_of fs ''pickupBranchIds'')) fs)))"

section \<open>Where a copy may be collected\<close>

record pickup_verdict =
  ok :: bool
  pv_reason :: string

record pickup_question =
  pq_policy :: hold_policy
  explicitPickupBranchIds :: "string list"
  wantedBranchId :: string
  pq_itemOwningBranchId :: "string option"
  pq_itemCurrentBranchId :: "string option"
  pq_patronHomeBranchId :: "string option"

definition verdict :: "bool \<Rightarrow> string \<Rightarrow> pickup_verdict" where
  "verdict b r = \<lparr>ok = b, pv_reason = r\<rparr>"

text \<open>\<open>Some v\<close> is an early return from the \<open>switch\<close>, \<open>None\<close> its \<open>break\<close>.\<close>

definition pickup_arm :: "string option \<Rightarrow> string \<Rightarrow> string \<Rightarrow> string \<Rightarrow> pickup_verdict option" where
  "pickup_arm branch wanted unknown refusal =
     (case branch of
        None \<Rightarrow> Some (verdict True unknown)
      | Some b \<Rightarrow> if b \<noteq> wanted then Some (verdict False refusal) else None)"

definition pickup_switch :: "pickup_question \<Rightarrow> pickup_verdict option" where
  "pickup_switch q =
     (case pickupPolicy (pq_policy q) of
        AnyBranch \<Rightarrow> None
      | OwningBranch \<Rightarrow> pickup_arm (pq_itemOwningBranchId q) (wantedBranchId q)
          ''No copy is assigned yet, so there is no owning branch to test.''
          ''This copy may only be collected at the branch that owns it.''
      | HoldingBranch \<Rightarrow> pickup_arm (pq_itemCurrentBranchId q) (wantedBranchId q)
          ''No copy is assigned yet, so there is nowhere it currently is.''
          ''This copy may only be collected where it currently is.''
      | PatronHomeBranch \<Rightarrow> pickup_arm (pq_patronHomeBranchId q) (wantedBranchId q)
          ''This reader has no home branch recorded, so none is enforced.''
          ''This reader may only collect at their home branch.''
      | ExplicitSet \<Rightarrow>
          if length (explicitPickupBranchIds q) = 0 then
            Some (verdict False (''The pickup policy names an explicit set of branches and the set is empty, so no ''
              @ ''branch can be collected at. Fix the hold policy.''))
          else if wantedBranchId q \<notin> set (explicitPickupBranchIds q) then
            Some (verdict False (''That branch is not in this policy'' @ utf8 [0x2019] @ ''s pickup list.''))
          else None)"

definition canCollectAt :: "pickup_question \<Rightarrow> pickup_verdict" where
  "canCollectAt q =
     (case pickup_switch q of
        Some v \<Rightarrow> v
      | None \<Rightarrow>
          if \<not> transitAllowed (pq_policy q) \<and> pq_itemCurrentBranchId q \<noteq> None \<and>
             pq_itemCurrentBranchId q \<noteq> Some (wantedBranchId q)
          then verdict False
            ''This copy is at another branch and this policy does not move copies between branches.''
          else verdict True ''Collectable.'')"

section \<open>Freezing is a round trip, and each reader refuses the other's snapshots\<close>

text \<open>The contract of a frozen snapshot: what is written is read back, and only what is written.\<close>

locale frozen =
  fixes store :: "'s \<Rightarrow> js_value" and restore :: "string \<Rightarrow> js_value \<Rightarrow> pinned_error + js_value"
    and wf :: "'s \<Rightarrow> bool"
  assumes read_back: "wf s \<Longrightarrow> restore ident (store s) = Inr (store s)"
    and store_eq: "store s = store t \<Longrightarrow> s = t"
begin

lemma frozen_unique: "wf s \<Longrightarrow> restore i (store s) = Inr (store t) \<Longrightarrow> t = s"
  by (auto simp: read_back dest: store_eq)

lemma restore_idem: "wf s \<Longrightarrow> bind_res (restore i (store s)) (restore j) = Inr (store s)"
  by (simp add: read_back)

end

lemma JOption_inj: "JOption a = JOption b \<longleftrightarrow> a = b"
  by (simp add: JOption_def split: option.splits)

definition wf_pinned :: "pinned_policy_snapshot \<Rightarrow> bool" where
  "wf_pinned s \<longleftrightarrow> pp_v s = 1 \<and> pp_timezone s \<noteq> []"

definition wf_pinned_hold :: "pinned_hold_snapshot \<Rightarrow> bool" where
  "wf_pinned_hold s \<longleftrightarrow> ph_v s = 1"

lemma map_JString_inj: "map JString xs = map JString ys \<longleftrightarrow> xs = ys"
  by (rule inj_map_eq_map) (simp add: inj_def)

interpretation frozen_loan: frozen store_policy readPinnedPolicy wf_pinned
proof
  fix s t ident
  show "wf_pinned s \<Longrightarrow> readPinnedPolicy ident (store_policy s) = Inr (store_policy s)"
    by (simp add: readPinnedPolicy_def store_policy_def object_fields_def absent_def wf_pinned_def
        POLICY_SNAPSHOT_VERSION_def)
  show "store_policy s = store_policy t \<Longrightarrow> s = t"
    by (cases s; cases t) (simp add: store_policy_def JOption_inj)
qed

interpretation frozen_hold: frozen store_hold readPinnedHoldPolicy wf_pinned_hold
proof
  fix s t ident
  show "wf_pinned_hold s \<Longrightarrow> readPinnedHoldPolicy ident (store_hold s) = Inr (store_hold s)"
    by (simp add: readPinnedHoldPolicy_def store_hold_def object_fields_def absent_def wf_pinned_hold_def
        HOLD_SNAPSHOT_VERSION_def)
  show "store_hold s = store_hold t \<Longrightarrow> s = t"
    by (cases s; cases t) (simp add: store_hold_def JOption_inj map_JString_inj)
qed

lemma pinPolicy_wf: "pin_timezone place \<noteq> [] \<Longrightarrow> wf_pinned (pinPolicy r place rolls)"
  by (simp add: wf_pinned_def pinPolicy_def POLICY_SNAPSHOT_VERSION_def)

lemma pinHoldPolicy_wf: "wf_pinned_hold (pinHoldPolicy r place bs rolls)"
  by (simp add: wf_pinned_hold_def pinHoldPolicy_def HOLD_SNAPSHOT_VERSION_def)

lemma hold_is_no_loan:
  "wf_pinned_hold s \<Longrightarrow>
     readPinnedPolicy i (store_hold s) = Inl (PinnedSnapshotError i (MissingPolicy ''loan''))"
  by (simp add: readPinnedPolicy_def store_hold_def object_fields_def absent_def wf_pinned_hold_def
      POLICY_SNAPSHOT_VERSION_def)

lemma loan_is_no_hold:
  "wf_pinned s \<Longrightarrow>
     readPinnedHoldPolicy i (store_policy s) = Inl (PinnedHoldSnapshotError i (MissingPolicy ''hold''))"
  by (simp add: readPinnedHoldPolicy_def store_policy_def object_fields_def absent_def wf_pinned_def
      HOLD_SNAPSHOT_VERSION_def)

lemma readPinnedPolicy_Inr:
  assumes "readPinnedPolicy i raw = Inr v"
  shows "v = raw \<and> (\<exists>fs tz. raw = JObject fs \<and> map_of fs ''v'' = Some (JNumber 1) \<and>
    map_of fs ''timezone'' = Some (JString tz) \<and> tz \<noteq> [] \<and>
    (\<forall>key \<in> {''loan'', ''overdueFine'', ''lostItemFee''}. \<not> absent (map_of fs key)))"
  using assms
  by (cases raw)
    (auto simp: readPinnedPolicy_def object_fields_def POLICY_SNAPSHOT_VERSION_def
      split: if_splits option.splits js_value.splits)

section \<open>Placement and promotion agree\<close>

text \<open>The question a promotion asks about a copy, from the state a placement was judged on.\<close>

definition question_of :: "hold_policy \<Rightarrow> circulation_state \<Rightarrow> string \<Rightarrow> pickup_question" where
  "question_of hold state wanted =
     \<lparr>pq_policy = hold, explicitPickupBranchIds = pickupBranchIds hold, wantedBranchId = wanted,
      pq_itemOwningBranchId = itemHomeBranchId state, pq_itemCurrentBranchId = itemCurrentBranchId state,
      pq_patronHomeBranchId = patronHomeBranchId state\<rparr>"

lemma collectable_not_blocked:
  assumes "requestedPickupBranchId state = Some wanted" "ok (canCollectAt (question_of hold state wanted))"
  shows "pickupBlock hold state = None"
  using assms
  by (cases "pickupPolicy hold")
    (auto simp: pickupBlock_def canCollectAt_def pickup_switch_def pickup_arm_def question_of_def verdict_def Let_def
      split: option.splits if_splits)

lemma not_blocked_collectable:
  assumes "requestedPickupBranchId state = Some wanted" "pickupBlock hold state = None" "transitAllowed hold"
  shows "ok (canCollectAt (question_of hold state wanted))"
  using assms
  by (cases "pickupPolicy hold")
    (auto simp: pickupBlock_def canCollectAt_def pickup_switch_def pickup_arm_def question_of_def verdict_def Let_def
      split: option.splits if_splits)

text \<open>A verdict that lets a copy go to a branch it is not at, under a policy that moves no copies.\<close>

definition moves_a_copy :: "pickup_question \<Rightarrow> bool" where
  "moves_a_copy q \<longleftrightarrow> ok (canCollectAt q) \<and> \<not> transitAllowed (pq_policy q) \<and>
     pq_itemCurrentBranchId q \<noteq> None \<and> pq_itemCurrentBranchId q \<noteq> Some (wantedBranchId q)"

lemma moves_a_copy_iff:
  "moves_a_copy q \<longleftrightarrow> \<not> transitAllowed (pq_policy q) \<and>
     pq_itemCurrentBranchId q \<noteq> None \<and> pq_itemCurrentBranchId q \<noteq> Some (wantedBranchId q) \<and>
     (pickupPolicy (pq_policy q) = PatronHomeBranch \<and> pq_patronHomeBranchId q = None \<or>
      pickupPolicy (pq_policy q) = OwningBranch \<and> pq_itemOwningBranchId q = None)"
  by (cases "pickupPolicy (pq_policy q)")
    (auto simp: moves_a_copy_def canCollectAt_def pickup_switch_def pickup_arm_def verdict_def
      split: option.splits if_splits)

end
