(* ===== verification/Policy_Rows.thy ===== *)
theory Policy_Rows
  imports Due_Date
begin

text \<open>
  \<open>packages/circ-policy/src/policy-rows.ts\<close>: a row of a policy table becomes a policy. A pair of
  columns holds a duration, both or neither; the unit column holds one of the five units, which
  a constraint of the table ensures. \<open>bigint\<close> cents become \<open>number\<close> by \<open>Number\<close>, which rounds.
\<close>

definition duration_of :: "int option \<Rightarrow> duration_unit option \<Rightarrow> policy_error + duration option" where
  "duration_of v u =
     (if v = None \<and> u = None then Inr None
      else (case (v, u) of
              (Some n, Some w) \<Rightarrow> Inr (Some \<lparr>dur_value = n, dur_unit = w\<rparr>)
            | _ \<Rightarrow> Inl (PolicyResolutionError PolicyIncomplete None)))"

definition requiredMoney :: "int \<Rightarrow> string \<Rightarrow> money_json" where
  "requiredMoney cents cur = \<lparr>minorUnits = number_of_bigint cents, mj_currency = cur\<rparr>"

definition money_of :: "int option \<Rightarrow> string \<Rightarrow> money_json option" where
  "money_of cents cur =
     (case cents of None \<Rightarrow> None
      | Some c \<Rightarrow> Some \<lparr>minorUnits = number_of_bigint c, mj_currency = cur\<rparr>)"

definition timeOfDay :: "int option \<Rightarrow> time_of_day option" where
  "timeOfDay m =
     (case m of None \<Rightarrow> None
      | Some n \<Rightarrow> Some \<lparr>tod_hour = n div 60, tod_minute = js_rem n 60\<rparr>)"

record row_loan_policy =
  rl_altCheckoutPeriodWithHoldsUnit :: "duration_unit option"
  rl_altCheckoutPeriodWithHoldsValue :: "int option"
  rl_altRenewalPeriodWithHoldsUnit :: "duration_unit option"
  rl_altRenewalPeriodWithHoldsValue :: "int option"
  rl_closedDayHandling :: closed_day_handling
  rl_dueTimeOfDayMin :: "int option"
  rl_fixedDueDateSetId :: "string option"
  rl_id :: string
  rl_itemLimitForPolicy :: "int option"
  rl_loanable :: bool
  rl_maxPeriodUnit :: "duration_unit option"
  rl_maxPeriodValue :: "int option"
  rl_name :: string
  rl_noRenewalBeforeRelativeTo :: relative_to
  rl_noRenewalBeforeUnit :: "duration_unit option"
  rl_noRenewalBeforeValue :: "int option"
  rl_openingTimeOffsetUnit :: "duration_unit option"
  rl_openingTimeOffsetValue :: "int option"
  rl_periodUnit :: "duration_unit option"
  rl_periodValue :: "int option"
  rl_profile :: loan_profile
  rl_renewFrom :: renew_from
  rl_renewWithOutstandingHolds :: bool
  rl_renewable :: bool
  rl_renewalPeriodUnit :: "duration_unit option"
  rl_renewalPeriodValue :: "int option"
  rl_renewalsAllowed :: "int option"

record row_overdue_fine_policy =
  ro_amountPerIntervalCents :: int
  ro_capAtReplacementCost :: bool
  ro_chargeAt :: charge_at
  ro_countClosedDays :: bool
  ro_currency :: string
  ro_forgiveOn :: "forgive_trigger list"
  ro_gracePeriodUnit :: "duration_unit option"
  ro_gracePeriodValue :: "int option"
  ro_graceSuppressesNotice :: bool
  ro_id :: string
  ro_intervalUnit :: duration_unit
  ro_intervalValue :: int
  ro_maximumFineCents :: "int option"
  ro_minimumFineCents :: "int option"
  ro_name :: string
  ro_suspensionDaysPerOverdueDay :: "int option"
  ro_suspensionMaxDays :: "int option"
  ro_suspensionResetOnReturn :: "bool option"

record row_lost_item_fee_policy =
  ri_agedToLostAfterUnit :: duration_unit
  ri_agedToLostAfterValue :: int
  ri_chargeBasis :: charge_basis
  ri_chargeOverdueUpToLost :: bool
  ri_currency :: string
  ri_fixedAmountCents :: "int option"
  ri_id :: string
  ri_name :: string
  ri_processingFeeCents :: int
  ri_refundProcessingFeeOnReturn :: bool
  ri_refundReplacementOnReturn :: bool
  ri_refundWindowUnit :: "duration_unit option"
  ri_refundWindowValue :: "int option"
  ri_stopOverdueAccrualOnLost :: bool

record row_hold_policy =
  rh_currency :: string
  rh_holdShelfExpiryUnit :: duration_unit
  rh_holdShelfExpiryValue :: int
  rh_holdsAllowed :: bool
  rh_id :: string
  rh_itemLevelHolds :: item_level_holds
  rh_maxHoldsPerRecord :: "int option"
  rh_maxHoldsTotal :: "int option"
  rh_maxSuspensionUnit :: "duration_unit option"
  rh_maxSuspensionValue :: "int option"
  rh_maxTransitDays :: "int option"
  rh_name :: string
  rh_notPickedUpFeeCents :: "int option"
  rh_onShelfHolds :: on_shelf_holds
  rh_pickupBranches :: "string list"
  rh_pickupPolicy :: pickup_policy
  rh_placementFeeCents :: "int option"
  rh_requestTypes :: "request_type list"
  rh_shelfExpiryUsesCalendar :: bool
  rh_suspensionAllowed :: bool
  rh_transitAllowed :: bool
  rh_unfilledRequestExpiryUnit :: "duration_unit option"
  rh_unfilledRequestExpiryValue :: "int option"

definition projectLoanPolicy :: "row_loan_policy \<Rightarrow> policy_error + loan_policy" where
  "projectLoanPolicy p =
     bind_res (duration_of (rl_periodValue p) (rl_periodUnit p)) (\<lambda>per.
     bind_res (duration_of (rl_openingTimeOffsetValue p) (rl_openingTimeOffsetUnit p)) (\<lambda>ofs.
     bind_res (duration_of (rl_maxPeriodValue p) (rl_maxPeriodUnit p)) (\<lambda>most.
     bind_res (duration_of (rl_renewalPeriodValue p) (rl_renewalPeriodUnit p)) (\<lambda>renewal.
     bind_res (duration_of (rl_noRenewalBeforeValue p) (rl_noRenewalBeforeUnit p)) (\<lambda>before.
     bind_res (duration_of (rl_altCheckoutPeriodWithHoldsValue p) (rl_altCheckoutPeriodWithHoldsUnit p)) (\<lambda>altc.
     bind_res (duration_of (rl_altRenewalPeriodWithHoldsValue p) (rl_altRenewalPeriodWithHoldsUnit p)) (\<lambda>altr.
       Inr \<lparr>lp_id = rl_id p, lp_name = rl_name p, loanable = rl_loanable p, profile = rl_profile p,
            period = per, fixedDueDateSetId = rl_fixedDueDateSetId p,
            dueTimeOfDay = timeOfDay (rl_dueTimeOfDayMin p), closedDayHandling = rl_closedDayHandling p,
            openingTimeOffset = ofs, maxPeriod = most, renewable = rl_renewable p,
            renewalsAllowed = rl_renewalsAllowed p, renewalPeriod = renewal, renewFrom = rl_renewFrom p,
            noRenewalBefore = before, noRenewalBeforeRelativeTo = rl_noRenewalBeforeRelativeTo p,
            renewWithOutstandingHolds = rl_renewWithOutstandingHolds p,
            alternateCheckoutPeriodWithHolds = altc, alternateRenewalPeriodWithHolds = altr,
            itemLimitForPolicy = rl_itemLimitForPolicy p\<rparr>)))))))"

definition projectOverdueFinePolicy :: "row_overdue_fine_policy \<Rightarrow> policy_error + overdue_fine_policy" where
  "projectOverdueFinePolicy p =
     bind_res (duration_of (ro_gracePeriodValue p) (ro_gracePeriodUnit p)) (\<lambda>grace.
       Inr \<lparr>ofp_id = ro_id p, ofp_name = ro_name p,
            interval = \<lparr>dur_value = ro_intervalValue p, dur_unit = ro_intervalUnit p\<rparr>,
            amountPerInterval = requiredMoney (ro_amountPerIntervalCents p) (ro_currency p),
            chargeAt = ro_chargeAt p, gracePeriod = grace,
            graceSuppressesNotice = ro_graceSuppressesNotice p, countClosedDays = ro_countClosedDays p,
            maximumFine = money_of (ro_maximumFineCents p) (ro_currency p),
            minimumFine = money_of (ro_minimumFineCents p) (ro_currency p),
            capAtReplacementCost = ro_capAtReplacementCost p, forgiveOn = ro_forgiveOn p,
            suspension = (case (ro_suspensionDaysPerOverdueDay p, ro_suspensionResetOnReturn p) of
                (Some d, Some r) \<Rightarrow>
                  Some \<lparr>daysPerOverdueDay = d, maxDays = ro_suspensionMaxDays p, resetOnReturn = r\<rparr>
              | _ \<Rightarrow> None)\<rparr>)"

definition projectLostItemFeePolicy :: "row_lost_item_fee_policy \<Rightarrow> policy_error + lost_item_fee_policy" where
  "projectLostItemFeePolicy p =
     bind_res (duration_of (ri_refundWindowValue p) (ri_refundWindowUnit p)) (\<lambda>window.
       Inr \<lparr>lif_id = ri_id p, lif_name = ri_name p, chargeBasis = ri_chargeBasis p,
            fixedAmount = money_of (ri_fixedAmountCents p) (ri_currency p),
            processingFee = requiredMoney (ri_processingFeeCents p) (ri_currency p),
            agedToLostAfter = \<lparr>dur_value = ri_agedToLostAfterValue p, dur_unit = ri_agedToLostAfterUnit p\<rparr>,
            refundReplacementOnReturn = ri_refundReplacementOnReturn p,
            refundProcessingFeeOnReturn = ri_refundProcessingFeeOnReturn p, refundWindow = window,
            stopOverdueAccrualOnLost = ri_stopOverdueAccrualOnLost p,
            chargeOverdueUpToLost = ri_chargeOverdueUpToLost p\<rparr>)"

text \<open>\<open>sort()\<close> without a comparator compares as strings.\<close>

definition compare_text :: "string \<Rightarrow> string \<Rightarrow> int" where
  "compare_text a b = (if a < b then - 1 else if a > b then 1 else 0)"

definition projectHoldPolicy :: "row_hold_policy \<Rightarrow> policy_error + hold_policy" where
  "projectHoldPolicy p =
     bind_res (duration_of (rh_unfilledRequestExpiryValue p) (rh_unfilledRequestExpiryUnit p)) (\<lambda>unfilled.
     bind_res (duration_of (rh_maxSuspensionValue p) (rh_maxSuspensionUnit p)) (\<lambda>susp.
       Inr \<lparr>hp_id = rh_id p, hp_name = rh_name p, holdsAllowed = rh_holdsAllowed p,
            requestTypes = rh_requestTypes p, onShelfHolds = rh_onShelfHolds p,
            itemLevelHolds = rh_itemLevelHolds p, maxHoldsPerRecord = rh_maxHoldsPerRecord p,
            maxHoldsTotal = rh_maxHoldsTotal p, pickupPolicy = rh_pickupPolicy p,
            pickupBranchIds = js_sort compare_text (rh_pickupBranches p),
            holdShelfExpiry = \<lparr>dur_value = rh_holdShelfExpiryValue p, dur_unit = rh_holdShelfExpiryUnit p\<rparr>,
            shelfExpiryUsesCalendar = rh_shelfExpiryUsesCalendar p, unfilledRequestExpiry = unfilled,
            suspensionAllowed = rh_suspensionAllowed p, maxSuspension = susp,
            placementFee = money_of (rh_placementFeeCents p) (rh_currency p),
            notPickedUpFee = money_of (rh_notPickedUpFeeCents p) (rh_currency p),
            transitAllowed = rh_transitAllowed p, maxTransitDays = rh_maxTransitDays p\<rparr>))"

section \<open>Pairs of columns\<close>

definition half_pair :: "'a option \<Rightarrow> 'b option \<Rightarrow> bool" where
  "half_pair v u \<longleftrightarrow> (v = None) \<noteq> (u = None)"

lemma duration_of_Inl_iff: "(\<exists>e. duration_of v u = Inl e) \<longleftrightarrow> half_pair v u"
  by (auto simp: duration_of_def half_pair_def split: option.split)

lemma duration_of_columns:
  "duration_of (map_option dur_value d) (map_option dur_unit d) = Inr d"
  by (cases d) (simp_all add: duration_of_def)

definition fails :: "'e + 'a \<Rightarrow> bool" where
  "fails m \<longleftrightarrow> (\<exists>e. m = Inl e)"

lemma fails_bind: "(\<And>a. fails (f a) \<longleftrightarrow> P) \<Longrightarrow> fails (bind_res m f) \<longleftrightarrow> fails m \<or> P"
  by (cases m) (simp_all add: fails_def)

lemma fails_Inr: "fails (Inr a) \<longleftrightarrow> False"
  by (simp add: fails_def)

lemma fails_duration_of: "fails (duration_of v u) \<longleftrightarrow> half_pair v u"
  by (simp add: fails_def duration_of_Inl_iff)

lemma projectLoanPolicy_fails:
  "fails (projectLoanPolicy p) \<longleftrightarrow>
     half_pair (rl_periodValue p) (rl_periodUnit p) \<or>
     half_pair (rl_openingTimeOffsetValue p) (rl_openingTimeOffsetUnit p) \<or>
     half_pair (rl_maxPeriodValue p) (rl_maxPeriodUnit p) \<or>
     half_pair (rl_renewalPeriodValue p) (rl_renewalPeriodUnit p) \<or>
     half_pair (rl_noRenewalBeforeValue p) (rl_noRenewalBeforeUnit p) \<or>
     half_pair (rl_altCheckoutPeriodWithHoldsValue p) (rl_altCheckoutPeriodWithHoldsUnit p) \<or>
     half_pair (rl_altRenewalPeriodWithHoldsValue p) (rl_altRenewalPeriodWithHoldsUnit p) \<or> False"
  unfolding projectLoanPolicy_def fails_duration_of [symmetric]
  by (intro fails_bind fails_Inr)

section \<open>The row a policy came from\<close>

definition loan_row :: "loan_policy \<Rightarrow> row_loan_policy" where
  "loan_row p =
     \<lparr>rl_altCheckoutPeriodWithHoldsUnit = map_option dur_unit (alternateCheckoutPeriodWithHolds p),
      rl_altCheckoutPeriodWithHoldsValue = map_option dur_value (alternateCheckoutPeriodWithHolds p),
      rl_altRenewalPeriodWithHoldsUnit = map_option dur_unit (alternateRenewalPeriodWithHolds p),
      rl_altRenewalPeriodWithHoldsValue = map_option dur_value (alternateRenewalPeriodWithHolds p),
      rl_closedDayHandling = closedDayHandling p,
      rl_dueTimeOfDayMin = map_option (\<lambda>t. tod_hour t * 60 + tod_minute t) (dueTimeOfDay p),
      rl_fixedDueDateSetId = fixedDueDateSetId p, rl_id = lp_id p,
      rl_itemLimitForPolicy = itemLimitForPolicy p, rl_loanable = loanable p,
      rl_maxPeriodUnit = map_option dur_unit (maxPeriod p),
      rl_maxPeriodValue = map_option dur_value (maxPeriod p), rl_name = lp_name p,
      rl_noRenewalBeforeRelativeTo = noRenewalBeforeRelativeTo p,
      rl_noRenewalBeforeUnit = map_option dur_unit (noRenewalBefore p),
      rl_noRenewalBeforeValue = map_option dur_value (noRenewalBefore p),
      rl_openingTimeOffsetUnit = map_option dur_unit (openingTimeOffset p),
      rl_openingTimeOffsetValue = map_option dur_value (openingTimeOffset p),
      rl_periodUnit = map_option dur_unit (period p), rl_periodValue = map_option dur_value (period p),
      rl_profile = profile p, rl_renewFrom = renewFrom p,
      rl_renewWithOutstandingHolds = renewWithOutstandingHolds p, rl_renewable = renewable p,
      rl_renewalPeriodUnit = map_option dur_unit (renewalPeriod p),
      rl_renewalPeriodValue = map_option dur_value (renewalPeriod p),
      rl_renewalsAllowed = renewalsAllowed p\<rparr>"

definition wf_time :: "time_of_day option \<Rightarrow> bool" where
  "wf_time t = (case t of None \<Rightarrow> True
     | Some x \<Rightarrow> 0 \<le> tod_hour x \<and> 0 \<le> tod_minute x \<and> tod_minute x < 60)"

lemma timeOfDay_minutes:
  "wf_time t \<Longrightarrow> timeOfDay (map_option (\<lambda>t. tod_hour t * 60 + tod_minute t) t) = t"
proof (cases t)
  case (Some x)
  assume "wf_time t"
  then have r: "0 \<le> tod_hour x" "0 \<le> tod_minute x" "tod_minute x < 60" using Some by (simp_all add: wf_time_def)
  have "tod_hour x * 60 + tod_minute x = 60 * tod_hour x + tod_minute x" by simp
  from int_div_pos_eq [OF this r(2,3)] int_mod_pos_eq [OF this r(2,3)]
  show ?thesis using r Some by (simp add: timeOfDay_def js_rem_nonneg)
qed (simp add: timeOfDay_def)

lemma projectLoanPolicy_loan_row: "wf_time (dueTimeOfDay p) \<Longrightarrow> projectLoanPolicy (loan_row p) = Inr p"
  by (simp add: projectLoanPolicy_def loan_row_def duration_of_columns timeOfDay_minutes)

interpretation texts: keyed_comparator compare_text "\<lambda>s. s"
  by unfold_locales (auto simp: compare_text_def split: if_splits)

lemma projectHoldPolicy_order:
  assumes "mset (rh_pickupBranches p) = mset bs"
  shows "projectHoldPolicy (p\<lparr>rh_pickupBranches := bs\<rparr>) = projectHoldPolicy p"
proof -
  have "js_sort compare_text bs = js_sort compare_text (rh_pickupBranches p)"
    by (rule texts.js_sort_perm) (use assms in simp_all)
  then show ?thesis by (simp add: projectHoldPolicy_def)
qed

lemma projectHoldPolicy_pickup:
  assumes "projectHoldPolicy p = Inr h"
  shows "set (pickupBranchIds h) = set (rh_pickupBranches p)"
    and "sorted_wrt (\<lambda>a b. compare_text a b \<le> 0) (pickupBranchIds h)"
  using assms texts.sorted_js_sort by (auto simp: projectHoldPolicy_def bind_res_Inr_iff)

end
