(* ===== verification/Marc_Bytes.thy ===== *)
theory Marc_Bytes
  imports Prelude
begin

text \<open>
  The byte helpers of the MARC codec (\<open>packages/marc/src/bytes.ts\<close>) and what they use of the
  Encoding Standard: \<open>TextEncoder\<close> and \<open>TextDecoder('utf-8')\<close>, fatal and lossy, with the
  byte-order mark it drops from the front of every input. A byte is a number below 256; a text
  is the list of its UTF-16 code units, as a JavaScript string is.
\<close>

type_synonym byte = nat
type_synonym unit16 = nat
type_synonym utext = "unit16 list"

definition text_of :: "string \<Rightarrow> utext" where
  "text_of s = map of_char s"

definition SUBFIELD_DELIMITER :: byte where "SUBFIELD_DELIMITER = 0x1F"
definition FIELD_TERMINATOR :: byte where "FIELD_TERMINATOR = 0x1E"
definition RECORD_TERMINATOR :: byte where "RECORD_TERMINATOR = 0x1D"

lemmas delimiters = SUBFIELD_DELIMITER_def FIELD_TERMINATOR_def RECORD_TERMINATOR_def

text \<open>\<open>bytes.subarray(from, to)\<close> of indices that are not negative.\<close>

definition slice :: "nat \<Rightarrow> nat \<Rightarrow> 'a list \<Rightarrow> 'a list" where
  "slice i j bs = take (j - i) (drop i bs)"

definition at_index :: "'a list \<Rightarrow> nat \<Rightarrow> 'a option" where
  "at_index bs i = (if i < length bs then Some (bs ! i) else None)"

section \<open>Structure: one byte, one code unit\<close>

definition decodeLatin1 :: "byte list \<Rightarrow> nat \<Rightarrow> nat \<Rightarrow> utext" where
  "decodeLatin1 bs i j = slice i (min j (length bs)) bs"

definition encodeLatin1 :: "utext \<Rightarrow> byte list option" where
  "encodeLatin1 t = (if list_all (\<lambda>c. c \<le> 0xFF) t then Some t else None)"

section \<open>UTF-8\<close>

definition high_surrogate :: "unit16 \<Rightarrow> bool" where
  "high_surrogate u \<longleftrightarrow> 0xD800 \<le> u \<and> u < 0xDC00"

definition low_surrogate :: "unit16 \<Rightarrow> bool" where
  "low_surrogate u \<longleftrightarrow> 0xDC00 \<le> u \<and> u < 0xE000"

definition utf8_bytes :: "nat \<Rightarrow> byte list" where
  "utf8_bytes c =
     (if c < 0x80 then [c]
      else if c < 0x800 then [0xC0 + c div 0x40, 0x80 + c mod 0x40]
      else if c < 0x10000 then [0xE0 + c div 0x1000, 0x80 + c div 0x40 mod 0x40, 0x80 + c mod 0x40]
      else [0xF0 + c div 0x40000, 0x80 + c div 0x1000 mod 0x40, 0x80 + c div 0x40 mod 0x40, 0x80 + c mod 0x40])"

text \<open>A surrogate without its other half is encoded as the replacement character.\<close>

fun encodeUtf8 :: "utext \<Rightarrow> byte list" where
  "encodeUtf8 [] = []"
| "encodeUtf8 (u # us) =
     (if high_surrogate u then (case us of
          v # vs \<Rightarrow> if low_surrogate v then utf8_bytes (0x10000 + (u - 0xD800) * 0x400 + (v - 0xDC00)) @ encodeUtf8 vs
            else utf8_bytes 0xFFFD @ encodeUtf8 us
        | [] \<Rightarrow> utf8_bytes 0xFFFD)
      else if low_surrogate u then utf8_bytes 0xFFFD @ encodeUtf8 us
      else utf8_bytes u @ encodeUtf8 us)"

text \<open>The decoder's state: continuation bytes still needed, the code point so far, and the range
  the next byte has to be in. An error is \<open>None\<close>; the byte that caused it is looked at again.\<close>

record utf8_state =
  u8_needed :: nat
  u8_point :: nat
  u8_lower :: byte
  u8_upper :: byte

definition utf8_start :: utf8_state where
  "utf8_start = \<lparr>u8_needed = 0, u8_point = 0, u8_lower = 0x80, u8_upper = 0xBF\<rparr>"

definition utf8_lead :: "byte \<Rightarrow> nat option list \<times> utf8_state" where
  "utf8_lead b =
     (if b \<le> 0x7F then ([Some b], utf8_start)
      else if 0xC2 \<le> b \<and> b \<le> 0xDF then ([], utf8_start\<lparr>u8_needed := 1, u8_point := b mod 0x20\<rparr>)
      else if 0xE0 \<le> b \<and> b \<le> 0xEF then ([], \<lparr>u8_needed = 2, u8_point = b mod 0x10,
        u8_lower = (if b = 0xE0 then 0xA0 else 0x80), u8_upper = (if b = 0xED then 0x9F else 0xBF)\<rparr>)
      else if 0xF0 \<le> b \<and> b \<le> 0xF4 then ([], \<lparr>u8_needed = 3, u8_point = b mod 8,
        u8_lower = (if b = 0xF0 then 0x90 else 0x80), u8_upper = (if b = 0xF4 then 0x8F else 0xBF)\<rparr>)
      else ([None], utf8_start))"

definition utf8_step :: "byte \<Rightarrow> utf8_state \<Rightarrow> nat option list \<times> utf8_state" where
  "utf8_step b st =
     (if u8_needed st = 0 then utf8_lead b
      else if b < u8_lower st \<or> u8_upper st < b then
        (let (out, st') = utf8_lead b in (None # out, st'))
      else let c = u8_point st * 0x40 + b mod 0x40 in
        if u8_needed st = 1 then ([Some c], utf8_start)
        else ([], utf8_start\<lparr>u8_needed := u8_needed st - 1, u8_point := c\<rparr>))"

fun utf8_run :: "byte list \<Rightarrow> utf8_state \<Rightarrow> nat option list" where
  "utf8_run [] st = (if u8_needed st = 0 then [] else [None])"
| "utf8_run (b # bs) st = (let (out, st') = utf8_step b st in out @ utf8_run bs st')"

definition units_of :: "nat \<Rightarrow> utext" where
  "units_of c = (if c < 0x10000 then [c]
     else [0xD800 + (c - 0x10000) div 0x400, 0xDC00 + (c - 0x10000) mod 0x400])"

definition drop_bom :: "byte list \<Rightarrow> byte list" where
  "drop_bom bs = (if take 3 bs = [0xEF, 0xBB, 0xBF] then drop 3 bs else bs)"

record decoded =
  dc_text :: utext
  dc_valid :: bool

definition decodeUtf8 :: "byte list \<Rightarrow> decoded" where
  "decodeUtf8 bs = (let points = utf8_run (drop_bom bs) utf8_start in
     \<lparr>dc_text = concat (map (\<lambda>p. case p of None \<Rightarrow> [0xFFFD] | Some c \<Rightarrow> units_of c) points),
      dc_valid = (None \<notin> set points)\<rparr>)"

section \<open>Numbers\<close>

text \<open>\<open>NaN\<close> is \<open>None\<close>. The flag says that leading spaces were skipped.\<close>

fun uint_loop :: "byte list \<Rightarrow> nat \<Rightarrow> bool \<Rightarrow> bool \<Rightarrow> nat option \<times> bool" where
  "uint_loop [] value seenDigit spacePadded = (if seenDigit then Some value else None, spacePadded)"
| "uint_loop (b # bs) value seenDigit spacePadded =
     (if b = 0x20 \<and> \<not> seenDigit then uint_loop bs value seenDigit True
      else if b < 0x30 \<or> 0x39 < b then (None, spacePadded)
      else uint_loop bs (value * 10 + (b - 0x30)) True spacePadded)"

definition readUint :: "byte list \<Rightarrow> nat \<Rightarrow> nat \<Rightarrow> nat option \<times> bool" where
  "readUint bs i width = (if length bs < i + width then (None, False)
     else uint_loop (slice i (i + width) bs) 0 False False)"

definition padUint :: "nat \<Rightarrow> nat \<Rightarrow> utext option" where
  "padUint value width = (if width < length (show_nat value) then None
     else Some (text_of (pad_start (CHR ''0'') width (show_nat value))))"

definition concatBytes :: "byte list list \<Rightarrow> byte list" where
  "concatBytes chunks = concat chunks"

definition bytesEqual :: "byte list \<Rightarrow> byte list \<Rightarrow> bool" where
  "bytesEqual a b \<longleftrightarrow> length a = length b \<and> list_all (\<lambda>i. a ! i = b ! i) [0..<length a]"

section \<open>What is written is read\<close>

lemma utf8_run_append_lead: "u8_needed st = 0 \<Longrightarrow> utf8_run (b # bs) st =
    fst (utf8_lead b) @ utf8_run bs (snd (utf8_lead b))"
  by (simp add: utf8_step_def split: prod.split)

lemma utf8_start_needed [simp]: "u8_needed utf8_start = 0" "u8_lower utf8_start = 0x80" "u8_upper utf8_start = 0xBF"
  by (simp_all add: utf8_start_def)

lemma utf8_more: "u8_lower st \<le> b \<Longrightarrow> b \<le> u8_upper st \<Longrightarrow> 1 < u8_needed st \<Longrightarrow>
    utf8_run (b # bs) st = utf8_run bs (utf8_start\<lparr>u8_needed := u8_needed st - 1, u8_point := u8_point st * 0x40 + b mod 0x40\<rparr>)"
  by (simp add: utf8_step_def Let_def)

lemma utf8_last: "u8_lower st \<le> b \<Longrightarrow> b \<le> u8_upper st \<Longrightarrow> u8_needed st = 1 \<Longrightarrow>
    utf8_run (b # bs) st = Some (u8_point st * 0x40 + b mod 0x40) # utf8_run bs utf8_start"
  by (simp add: utf8_step_def Let_def)

lemma utf8_run_bytes1: "c < 0x80 \<Longrightarrow> utf8_run (utf8_bytes c @ bs) utf8_start = Some c # utf8_run bs utf8_start"
  by (simp add: utf8_bytes_def utf8_run_append_lead utf8_lead_def del: utf8_run.simps)

lemma offset_mod: "(x::nat) < m \<Longrightarrow> d mod m = 0 \<Longrightarrow> (d + x) mod m = x"
  by (metis add_0 mod_add_left_eq mod_less)

lemma split_64: "(c::nat) = c div 0x40 * 0x40 + c mod 0x40"
  by simp

lemma div_4096: "(c::nat) div 0x1000 = c div 0x40 div 0x40"
  by (simp add: div_mult2_eq [symmetric])

lemma div_262144: "(c::nat) div 0x40000 = c div 0x40 div 0x40 div 0x40"
  by (simp add: div_mult2_eq [symmetric])

lemma utf8_run_bytes2:
  assumes "0x80 \<le> c" "c < 0x800"
  shows "utf8_run (utf8_bytes c @ bs) utf8_start = Some c # utf8_run bs utf8_start"
proof -
  define h l where hl: "h = c div 0x40" "l = c mod 0x40"
  have c: "c = h * 0x40 + l" unfolding hl by (rule split_64)
  have l: "l < 0x40" unfolding hl by simp
  have h: "2 \<le> h" "h < 0x20" using assms c l by linarith+
  have mods: "(0xC0 + h) mod 0x20 = h" "(0x80 + l) mod 0x40 = l" using h l by (simp_all add: offset_mod)
  have bytes: "utf8_bytes c = [0xC0 + h, 0x80 + l]" using assms by (simp add: utf8_bytes_def hl)
  have lead: "utf8_lead (0xC0 + h) = ([], utf8_start\<lparr>u8_needed := 1, u8_point := h\<rparr>)"
    unfolding utf8_lead_def mods using h by simp
  have "utf8_run ((0x80 + l) # bs) (utf8_start\<lparr>u8_needed := 1, u8_point := h\<rparr>) =
      Some (h * 0x40 + l) # utf8_run bs utf8_start"
    using l by (subst utf8_last) (simp_all add: utf8_start_def mods)
  then show ?thesis
    unfolding bytes append_Cons append_Nil utf8_run_append_lead [OF utf8_start_needed(1)] lead fst_conv snd_conv
    by (simp add: c)
qed

lemma utf8_run_bytes3:
  assumes "0x800 \<le> c" "c < 0x10000" "\<not> (0xD800 \<le> c \<and> c < 0xE000)"
  shows "utf8_run (utf8_bytes c @ bs) utf8_start = Some c # utf8_run bs utf8_start"
proof -
  define h m l where hml: "h = c div 0x1000" "m = c div 0x40 mod 0x40" "l = c mod 0x40"
  have c: "c = h * 0x1000 + m * 0x40 + l"
    using split_64 [of c] split_64 [of "c div 0x40"] unfolding hml div_4096 by linarith
  have b: "m < 0x40" "l < 0x40" unfolding hml by simp_all
  have h: "h < 0x10" using assms c by linarith
  have low: "h = 0 \<Longrightarrow> 0x20 \<le> m" using assms(1) c b by linarith
  have high: "h = 0xD \<Longrightarrow> m \<le> 0x1F" using assms(3) c b by linarith
  have mods: "(0xE0 + h) mod 0x10 = h" "(0x80 + m) mod 0x40 = m" "(0x80 + l) mod 0x40 = l"
    using h b by (simp_all add: offset_mod)
  have bytes: "utf8_bytes c = [0xE0 + h, 0x80 + m, 0x80 + l]" using assms by (simp add: utf8_bytes_def hml)
  let ?st = "\<lparr>u8_needed = 2, u8_point = h, u8_lower = (if h = 0 then 0xA0 else 0x80), u8_upper = (if h = 0xD then 0x9F else 0xBF)\<rparr>"
  have lead: "utf8_lead (0xE0 + h) = ([], ?st)"
    unfolding utf8_lead_def mods using h by simp
  have "utf8_run ((0x80 + m) # (0x80 + l) # bs) ?st =
      utf8_run ((0x80 + l) # bs) (utf8_start\<lparr>u8_needed := 1, u8_point := h * 0x40 + m\<rparr>)"
    using low high b by (subst utf8_more) (simp_all add: mods)
  also have "\<dots> = Some ((h * 0x40 + m) * 0x40 + l) # utf8_run bs utf8_start"
    using b by (subst utf8_last) (simp_all add: utf8_start_def mods)
  also have "(h * 0x40 + m) * 0x40 + l = c" using c by simp
  finally show ?thesis
    unfolding bytes append_Cons append_Nil utf8_run_append_lead [OF utf8_start_needed(1)] lead fst_conv snd_conv .
qed

lemma utf8_run_bytes4:
  assumes "0x10000 \<le> c" "c < 0x110000"
  shows "utf8_run (utf8_bytes c @ bs) utf8_start = Some c # utf8_run bs utf8_start"
proof -
  define k h m l where khml: "k = c div 0x40000" "h = c div 0x1000 mod 0x40" "m = c div 0x40 mod 0x40" "l = c mod 0x40"
  have c: "c = k * 0x40000 + h * 0x1000 + m * 0x40 + l"
    using split_64 [of c] split_64 [of "c div 0x40"] split_64 [of "c div 0x40 div 0x40"]
    unfolding khml div_4096 div_262144 by linarith
  have b: "h < 0x40" "m < 0x40" "l < 0x40" unfolding khml by simp_all
  have k: "k < 5" using assms c by linarith
  have low: "k = 0 \<Longrightarrow> 0x10 \<le> h" using assms(1) c b by linarith
  have high: "k = 4 \<Longrightarrow> h \<le> 0xF" using assms(2) c b by linarith
  have mods: "(0xF0 + k) mod 8 = k" "(0x80 + h) mod 0x40 = h" "(0x80 + m) mod 0x40 = m" "(0x80 + l) mod 0x40 = l"
    using k b by (simp_all add: offset_mod)
  have bytes: "utf8_bytes c = [0xF0 + k, 0x80 + h, 0x80 + m, 0x80 + l]" using assms by (simp add: utf8_bytes_def khml)
  let ?st = "\<lparr>u8_needed = 3, u8_point = k, u8_lower = (if k = 0 then 0x90 else 0x80), u8_upper = (if k = 4 then 0x8F else 0xBF)\<rparr>"
  have lead: "utf8_lead (0xF0 + k) = ([], ?st)"
    unfolding utf8_lead_def mods using k by simp
  have "utf8_run ((0x80 + h) # (0x80 + m) # (0x80 + l) # bs) ?st =
      utf8_run ((0x80 + m) # (0x80 + l) # bs) (utf8_start\<lparr>u8_needed := 2, u8_point := k * 0x40 + h\<rparr>)"
    using low high b by (subst utf8_more) (simp_all add: mods)
  also have "\<dots> = utf8_run ((0x80 + l) # bs) (utf8_start\<lparr>u8_needed := 1, u8_point := (k * 0x40 + h) * 0x40 + m\<rparr>)"
    using b by (subst utf8_more) (simp_all add: utf8_start_def mods)
  also have "\<dots> = Some (((k * 0x40 + h) * 0x40 + m) * 0x40 + l) # utf8_run bs utf8_start"
    using b by (subst utf8_last) (simp_all add: utf8_start_def mods)
  also have "((k * 0x40 + h) * 0x40 + m) * 0x40 + l = c" using c by simp
  finally show ?thesis
    unfolding bytes append_Cons append_Nil utf8_run_append_lead [OF utf8_start_needed(1)] lead fst_conv snd_conv .
qed

lemma utf8_run_bytes:
  "c < 0x110000 \<Longrightarrow> \<not> (0xD800 \<le> c \<and> c < 0xE000) \<Longrightarrow>
     utf8_run (utf8_bytes c @ bs) utf8_start = Some c # utf8_run bs utf8_start"
  using utf8_run_bytes1 utf8_run_bytes2 utf8_run_bytes3 utf8_run_bytes4 by (meson not_less)

text \<open>A well-formed text pairs every surrogate.\<close>

fun well_formed :: "utext \<Rightarrow> bool" where
  "well_formed [] = True"
| "well_formed (u # us) = (u < 0x10000 \<and> (if high_surrogate u then (case us of [] \<Rightarrow> False
     | v # vs \<Rightarrow> low_surrogate v \<and> well_formed vs) else \<not> low_surrogate u \<and> well_formed us))"

definition decode_points :: "nat option list \<Rightarrow> utext" where
  "decode_points ps = concat (map (\<lambda>p. case p of None \<Rightarrow> [0xFFFD] | Some c \<Rightarrow> units_of c) ps)"

lemma units_of_pair:
  assumes "high_surrogate u" "low_surrogate v"
  shows "units_of (0x10000 + (u - 0xD800) * 0x400 + (v - 0xDC00)) = [u, v]"
    "0x10000 + (u - 0xD800) * 0x400 + (v - 0xDC00) < 0x110000"
    "0x10000 \<le> 0x10000 + (u - 0xD800) * 0x400 + (v - 0xDC00)"
proof -
  define a b where ab: "a = u - 0xD800" "b = v - 0xDC00"
  have u: "u = 0xD800 + a" "a < 0x400" and v: "v = 0xDC00 + b" "b < 0x400"
    using assms by (auto simp: ab high_surrogate_def low_surrogate_def)
  have "(a * 0x400 + b) div 0x400 = a" "(a * 0x400 + b) mod 0x400 = b" using v(2) by simp_all
  then show "units_of (0x10000 + (u - 0xD800) * 0x400 + (v - 0xDC00)) = [u, v]"
    by (simp add: units_of_def ab [symmetric] u(1) v(1))
  show "0x10000 + (u - 0xD800) * 0x400 + (v - 0xDC00) < 0x110000"
    "0x10000 \<le> 0x10000 + (u - 0xD800) * 0x400 + (v - 0xDC00)"
    using u(2) v(2) by (simp_all add: ab [symmetric])
qed

lemma utf8_run_encode:
  "well_formed t \<Longrightarrow> None \<notin> set (utf8_run (encodeUtf8 t) utf8_start) \<and>
     decode_points (utf8_run (encodeUtf8 t) utf8_start) = t"
proof (induction t rule: encodeUtf8.induct)
  case 1
  then show ?case by (simp add: decode_points_def)
next
  case (2 u us)
  show ?case
  proof (cases "high_surrogate u")
    case True
    with "2.prems" obtain v vs where us: "us = v # vs" "low_surrogate v" "well_formed vs" by (auto split: list.splits)
    note pair = units_of_pair [OF True us(2)]
    have "utf8_run (encodeUtf8 (u # us)) utf8_start =
        Some (0x10000 + (u - 0xD800) * 0x400 + (v - 0xDC00)) # utf8_run (encodeUtf8 vs) utf8_start"
      using True us pair(2,3) by (simp add: utf8_run_bytes)
    then show ?thesis using "2.IH"(1) [OF True us(1,2)] us pair(1) by (simp add: decode_points_def)
  next
    case False
    with "2.prems" have u: "u < 0x10000" "\<not> low_surrogate u" "well_formed us" by auto
    have "utf8_run (encodeUtf8 (u # us)) utf8_start = Some u # utf8_run (encodeUtf8 us) utf8_start"
      using False u(1,2) by (simp add: utf8_run_bytes) (auto simp: high_surrogate_def low_surrogate_def intro!: utf8_run_bytes)
    then show ?thesis
      using "2.IH"(4) [OF False u(2,3)] u(1) by (simp add: decode_points_def units_of_def)
  qed
qed

lemma decodeUtf8_points: "decodeUtf8 bs = \<lparr>dc_text = decode_points (utf8_run (drop_bom bs) utf8_start),
    dc_valid = (None \<notin> set (utf8_run (drop_bom bs) utf8_start))\<rparr>"
  by (simp add: decodeUtf8_def decode_points_def Let_def)

lemma utf8_bytes_bom: "take 3 (utf8_bytes c @ bs) = [0xEF, 0xBB, 0xBF] \<Longrightarrow> c < 0x110000 \<Longrightarrow> c = 0xFEFF"
proof -
  assume bom: "take 3 (utf8_bytes c @ bs) = [0xEF, 0xBB, 0xBF]" and c: "c < 0x110000"
  have "\<not> c < 0x80" using bom by (auto simp: utf8_bytes_def)
  moreover have "\<not> c < 0x800"
  proof
    assume "c < 0x800"
    with bom \<open>\<not> c < 0x80\<close> have "0xC0 + c div 0x40 = 0xEF" by (simp add: utf8_bytes_def)
    then show False using \<open>c < 0x800\<close> split_64 [of c] by linarith
  qed
  moreover have "c < 0x10000"
  proof (rule ccontr)
    assume "\<not> c < 0x10000"
    with bom have "0xF0 + c div 0x40000 = 0xEF" by (simp add: utf8_bytes_def)
    then show False by simp
  qed
  ultimately have "c div 0x1000 = 0xF" "c div 0x40 mod 0x40 = 0x3B" "c mod 0x40 = 0x3F"
    using bom by (simp_all add: utf8_bytes_def)
  then show "c = 0xFEFF"
    using split_64 [of c] split_64 [of "c div 0x40"] unfolding div_4096 by linarith
qed

definition no_bom :: "utext \<Rightarrow> bool" where
  "no_bom t \<longleftrightarrow> t = [] \<or> hd t \<noteq> 0xFEFF"

lemma drop_bom_encode:
  assumes "well_formed t" "no_bom t"
  shows "drop_bom (encodeUtf8 t) = encodeUtf8 t"
proof (cases t)
  case (Cons u us)
  have "take 3 (encodeUtf8 t) \<noteq> [0xEF, 0xBB, 0xBF]"
  proof
    assume bom: "take 3 (encodeUtf8 t) = [0xEF, 0xBB, 0xBF]"
    show False
    proof (cases "high_surrogate u")
      case True
      with assms(1) Cons obtain v vs where us: "us = v # vs" "low_surrogate v" by (auto split: list.splits)
      have "0x10000 + (u - 0xD800) * 0x400 + (v - 0xDC00) = 0xFEFF"
        by (rule utf8_bytes_bom [where bs = "encodeUtf8 vs"])
          (use bom Cons True us units_of_pair(2) [OF True us(2)] in simp_all)
      then show False by simp
    next
      case False
      then have "u = 0xFEFF"
        using bom Cons assms(1) by (intro utf8_bytes_bom [where bs = "encodeUtf8 us"]) auto
      then show False using assms(2) Cons by (simp add: no_bom_def)
    qed
  qed
  then show ?thesis by (simp add: drop_bom_def)
qed (simp add: drop_bom_def)

lemma decodeUtf8_encodeUtf8:
  "well_formed t \<Longrightarrow> no_bom t \<Longrightarrow> decodeUtf8 (encodeUtf8 t) = \<lparr>dc_text = t, dc_valid = True\<rparr>"
  using utf8_run_encode [of t] by (simp add: decodeUtf8_points drop_bom_encode)

text \<open>A leading U+FEFF is taken for a byte-order mark and lost.\<close>

lemma decodeUtf8_bom:
  assumes "well_formed t"
  shows "decodeUtf8 (encodeUtf8 (0xFEFF # t)) = \<lparr>dc_text = t, dc_valid = True\<rparr>"
proof -
  have "encodeUtf8 (0xFEFF # t) = [0xEF, 0xBB, 0xBF] @ encodeUtf8 t"
    by (simp add: high_surrogate_def low_surrogate_def utf8_bytes_def)
  then show ?thesis using utf8_run_encode [OF assms] by (simp add: decodeUtf8_points drop_bom_def)
qed

text \<open>Bytes below \<open>0x80\<close> are code units of the text: no delimiter appears by encoding.\<close>

lemma utf8_bytes_ascii: "b \<in> set (utf8_bytes c) \<Longrightarrow> b < 0x80 \<Longrightarrow> b = c"
  by (auto simp: utf8_bytes_def split: if_splits)

lemma encodeUtf8_ascii:
  "b \<in> set (encodeUtf8 t) \<Longrightarrow> b < 0x80 \<Longrightarrow> b \<in> set t"
proof (induction t rule: encodeUtf8.induct)
  case (2 u us)
  have nonascii: "\<not> 0x80 \<le> c" if "b \<in> set (utf8_bytes c)" for c
    using utf8_bytes_ascii [OF that] "2.prems"(2) by simp
  show ?case
  proof (cases "high_surrogate u")
    case True
    show ?thesis
    proof (cases us)
      case Nil
      then show ?thesis using True "2.prems" nonascii [of "0xFFFD"] by simp
    next
      case (Cons v vs)
      have step: "encodeUtf8 (u # v # vs) = (if low_surrogate v
          then utf8_bytes (0x10000 + (u - 0xD800) * 0x400 + (v - 0xDC00)) @ encodeUtf8 vs
          else utf8_bytes 0xFFFD @ encodeUtf8 (v # vs))"
        by (subst encodeUtf8.simps(2)) (simp add: True del: encodeUtf8.simps(2))
      from Cons show ?thesis
        using True "2.prems" "2.IH"(1) [OF True Cons] "2.IH"(2) [OF True Cons] nonascii [of "0xFFFD"]
          nonascii [of "0x10000 + (u - 0xD800) * 0x400 + (v - 0xDC00)"]
        by (auto simp del: encodeUtf8.simps(2) simp: step split: if_splits)
    qed
  next
    case False
    then show ?thesis
      using "2.prems" "2.IH"(3) [OF False] "2.IH"(4) [OF False] nonascii [of "0xFFFD"] utf8_bytes_ascii [of b u] by (auto split: if_splits)
  qed
qed simp

lemma utf8_bytes_le: "c < 0x110000 \<Longrightarrow> b \<in> set (utf8_bytes c) \<Longrightarrow> b \<le> 0xFF"
proof -
  assume c: "c < 0x110000" and b: "b \<in> set (utf8_bytes c)"
  have "0x80 + x mod 0x40 \<le> 0xFF" for x :: nat using mod_less_divisor [of "0x40" x] by linarith
  moreover have "c < 0x800 \<Longrightarrow> c div 0x40 < 0x20" "c < 0x10000 \<Longrightarrow> c div 0x1000 < 0x10" "c div 0x40000 < 5"
    using c by (auto simp: div_less_iff_less_mult)
  ultimately show ?thesis using b by (auto simp: utf8_bytes_def split: if_splits)
qed

section \<open>Padded numbers\<close>

lemma length_text_of [simp]: "length (text_of s) = length s"
  by (simp add: text_of_def)

lemma uint_loop_digits:
  "list_all is_digit s \<Longrightarrow> uint_loop (text_of s) v seen sp =
     (if s = [] \<and> \<not> seen then None else Some (v * 10 ^ length s + digits_val s), sp)"
proof (induction s arbitrary: v seen)
  case (Cons c s)
  have c: "48 \<le> (of_char c :: nat)" "(of_char c :: nat) \<le> 57" using Cons.prems by (simp_all add: is_digit_def)
  have "uint_loop (text_of (c # s)) v seen sp = uint_loop (text_of s) (v * 10 + digit_val c) True sp"
    using c by (simp add: text_of_def digit_val_def)
  then show ?case using Cons by (simp add: digits_val_Cons algebra_simps)
qed (simp add: text_of_def)

lemma padUint_digits:
  assumes "padUint v w = Some t"
  shows "length t = w" "\<exists>s. t = text_of s \<and> list_all is_digit s \<and> digits_val s = v"
proof -
  have t: "t = text_of (pad_start (CHR ''0'') w (show_nat v))" "length (show_nat v) \<le> w"
    using assms by (auto simp: padUint_def split: if_splits)
  show "length t = w" using t by simp
  have "list_all is_digit (pad_start (CHR ''0'') w (show_nat v))"
    using show_nat_digits [of _ v] by (auto simp: list_all_iff pad_start_def)
  then show "\<exists>s. t = text_of s \<and> list_all is_digit s \<and> digits_val s = v"
    using t(1) by (intro exI [of _ "pad_start (CHR ''0'') w (show_nat v)"]) simp
qed

lemma slice_middle: "length as = i \<Longrightarrow> length bs = w \<Longrightarrow> slice i (i + w) (as @ bs @ cs) = bs"
  by (simp add: slice_def)

lemma readUint_padUint:
  assumes "padUint v w = Some t" "0 < w" "length as = i"
  shows "readUint (as @ t @ bs) i w = (Some v, False)"
proof -
  from padUint_digits [OF assms(1)] obtain s where s: "t = text_of s" "list_all is_digit s" "digits_val s = v" "length s = w"
    by auto
  have "slice i (i + w) (as @ t @ bs) = text_of s" using s assms(3) by (simp add: slice_middle)
  moreover have "s \<noteq> []" using s(4) assms(2) by auto
  ultimately show ?thesis
    using s assms(3) by (simp add: readUint_def uint_loop_digits)
qed

lemma padUint_Some: "v < 10 ^ w \<Longrightarrow> 0 < w \<Longrightarrow> \<exists>t. padUint v w = Some t"
  using length_show_nat [of v w] by (auto simp: padUint_def)

lemma padUint_ascii: "padUint v w = Some t \<Longrightarrow> b \<in> set t \<Longrightarrow> 0x30 \<le> b \<and> b \<le> 0x39"
  using padUint_digits(2) [of v w t] by (auto simp: text_of_def list_all_iff is_digit_def)

lemma bytesEqual_iff: "bytesEqual a b \<longleftrightarrow> a = b"
  by (auto simp: bytesEqual_def list_all_iff intro: nth_equalityI)

end
