(* ===== verification/Marc_Record.thy ===== *)
theory Marc_Record
  imports Marc_Bytes
begin

text \<open>
  The MARC record as it is stored (\<open>packages/marc/src/types.ts\<close>): fields, anomalies, errors,
  and the 24 positions of the leader. The optional \<open>x\<close> of a field, present when it is not
  empty, is a list.
\<close>

section \<open>Anomalies and errors\<close>

datatype anomaly_code =
    NonStandardEntryMap | NonStandardCounts | LeaderLengthWrong | BaseAddressWrong
  | MissingRecordTerminator | MissingFieldTerminator | MissingDirectoryTerminator
  | DirectoryEntryNotNumeric | DirectoryEntryOutOfRange | DirectoryLengthRagged | TagMalformed
  | ControlFieldHasSubfields | DataFieldHasNoIndicators | IndicatorTruncated
  | SubfieldCodeTruncated | DataBeforeFirstSubfield | DataFieldHasNoSubfields
  | EmbeddedFieldTerminator | FieldsOutOfOrder | RecordTooLongAnomaly | Marc8DecodeFailed
  | Marc8UnsupportedCharset | Marc8UnmappedByte | InvalidUtf8

record marc_anomaly =
  an_code :: anomaly_code
  an_tag :: "utext option"
  an_occurrence :: "nat option"
  an_at :: "nat option"
  an_saw :: "utext option"

datatype marc_error =
    RecordTooShort | TagInvalid | StructureNotEncodable | SubfieldCodeInvalid | DataNotEncodable
  | FieldTooLong | RecordTooLong | Marc8Unencodable | RangeError

section \<open>Fields\<close>

type_synonym subfield = "utext \<times> utext"

datatype marc_field =
    ControlField (field_tag: utext) (control_value: utext) (field_x: "anomaly_code list")
  | DataField (field_tag: utext) (indicators: utext) (subfields: "subfield list") (field_x: "anomaly_code list")

record marc_record =
  mr_leader :: utext
  mr_fields :: "marc_field list"

record parsed_record =
  pr_record :: marc_record
  pr_anomalies :: "marc_anomaly list"

definition isControlField :: "marc_field \<Rightarrow> bool" where
  "isControlField f = (case f of ControlField _ _ _ \<Rightarrow> True | DataField _ _ _ _ \<Rightarrow> False)"

definition isControlTag :: "utext \<Rightarrow> bool" where
  "isControlTag t \<longleftrightarrow> length t = 3 \<and> take 2 t = text_of ''00'' \<and> t \<noteq> text_of ''00 ''"

section \<open>The leader\<close>

datatype leader_position =
    LdrRecordLength | LdrRecordStatus | LdrTypeOfRecord | LdrBibliographicLevel | LdrTypeOfControl
  | LdrCharacterCodingScheme | LdrIndicatorCount | LdrSubfieldCodeCount | LdrBaseAddress
  | LdrEncodingLevel | LdrDescriptiveCatalogingForm | LdrMultipartResourceRecordLevel | LdrEntryMap

primrec LEADER :: "leader_position \<Rightarrow> nat \<times> nat" where
  "LEADER LdrRecordLength = (0, 5)"
| "LEADER LdrRecordStatus = (5, 6)"
| "LEADER LdrTypeOfRecord = (6, 7)"
| "LEADER LdrBibliographicLevel = (7, 8)"
| "LEADER LdrTypeOfControl = (8, 9)"
| "LEADER LdrCharacterCodingScheme = (9, 10)"
| "LEADER LdrIndicatorCount = (10, 11)"
| "LEADER LdrSubfieldCodeCount = (11, 12)"
| "LEADER LdrBaseAddress = (12, 17)"
| "LEADER LdrEncodingLevel = (17, 18)"
| "LEADER LdrDescriptiveCatalogingForm = (18, 19)"
| "LEADER LdrMultipartResourceRecordLevel = (19, 20)"
| "LEADER LdrEntryMap = (20, 24)"

definition leaderAt :: "utext \<Rightarrow> leader_position \<Rightarrow> utext" where
  "leaderAt ldr p = slice (fst (LEADER p)) (snd (LEADER p)) ldr"

record entry_map =
  fieldLengthWidth :: nat
  startPositionWidth :: nat
  implementationDefinedWidth :: nat
  tagWidth :: nat

definition DEFAULT_ENTRY_MAP :: entry_map where
  "DEFAULT_ENTRY_MAP = \<lparr>fieldLengthWidth = 4, startPositionWidth = 5, implementationDefinedWidth = 0, tagWidth = 3\<rparr>"

definition entryWidth :: "entry_map \<Rightarrow> nat" where
  "entryWidth m = tagWidth m + fieldLengthWidth m + startPositionWidth m + implementationDefinedWidth m"

text \<open>A digit of the leader; \<open>NaN\<close>, or no character there, is \<open>None\<close>.\<close>

definition digit_of :: "utext \<Rightarrow> nat \<Rightarrow> nat option" where
  "digit_of t i = (case at_index t i of None \<Rightarrow> None
     | Some c \<Rightarrow> if 48 \<le> c \<and> c \<le> 57 then Some (c - 48) else None)"

definition readEntryMap :: "utext \<Rightarrow> entry_map \<times> bool" where
  "readEntryMap ldr = (let declared = leaderAt ldr LdrEntryMap in
     if declared = text_of ''4500'' then (DEFAULT_ENTRY_MAP, True)
     else case (digit_of declared 0, digit_of declared 1, digit_of declared 2) of
       (Some len, Some start, Some impl) \<Rightarrow>
         if len = 0 \<or> start = 0 then (DEFAULT_ENTRY_MAP, False)
         else (\<lparr>fieldLengthWidth = len, startPositionWidth = start, implementationDefinedWidth = impl,
           tagWidth = tagWidth DEFAULT_ENTRY_MAP\<rparr>, False)
     | _ \<Rightarrow> (DEFAULT_ENTRY_MAP, False))"

lemma entryWidth_default [simp]: "entryWidth DEFAULT_ENTRY_MAP = 12" "tagWidth DEFAULT_ENTRY_MAP = 3"
    "fieldLengthWidth DEFAULT_ENTRY_MAP = 4" "startPositionWidth DEFAULT_ENTRY_MAP = 5"
    "implementationDefinedWidth DEFAULT_ENTRY_MAP = 0"
  by (simp_all add: entryWidth_def DEFAULT_ENTRY_MAP_def)

text \<open>Whatever a leader declares, an entry is at least five bytes wide and its numbers are not empty.\<close>

lemma readEntryMap_widths:
  "readEntryMap ldr = (m, s) \<Longrightarrow> tagWidth m = 3 \<and> 0 < fieldLengthWidth m \<and> 0 < startPositionWidth m \<and> 5 \<le> entryWidth m"
  by (auto simp: readEntryMap_def Let_def entryWidth_def split: if_splits option.splits)

end
