(* ===== verification/Marc_Path.thy ===== *)
theory Marc_Path
  imports Marc_Record
begin

text \<open>
  How a place in a MARC record is named (\<open>packages/marc/src/path.ts\<close>): the parser of paths, the
  stricter parser of paths that address an edit, the canonical text of a path, and reading the
  values a path names. A text is the list of its UTF-16 code units, as in the codec.
\<close>

text \<open>The codes of the \<open>MarcError\<close> that paths, edits and linkage throw.\<close>

datatype edit_error =
    PathInvalid | PathNotAddressable | PathNotAField | PathNotFound | IndexOutOfRange
  | PreconditionFailed | NewTagInvalid | NotADataField | NotAControlField | IndicatorsInvalid
  | ValueTooLong | LinkageExhausted

section \<open>Paths\<close>

datatype path_index = IndexAt nat | IndexLast | IndexAll | IndexImplicit

datatype range_end = EndAt nat | EndLast

record char_range =
  cr_from :: nat
  cr_to :: range_end

record sub_path =
  sp_code :: utext
  sp_occ :: path_index
  sp_chars :: "char_range option"

record field_path =
  fp_tag :: utext
  fp_occ :: path_index
  fp_indicator :: "nat option"
  fp_chars :: "char_range option"
  fp_sub :: "sub_path option"

datatype marc_path = LeaderPath "char_range option" | FieldPath field_path

section \<open>Parsing\<close>

definition digit16 :: "unit16 \<Rightarrow> bool" where
  "digit16 c \<longleftrightarrow> 48 \<le> c \<and> c \<le> 57"

definition alnum16 :: "unit16 \<Rightarrow> bool" where
  "alnum16 c \<longleftrightarrow> digit16 c \<or> 65 \<le> c \<and> c \<le> 90 \<or> 97 \<le> c \<and> c \<le> 122"

definition TAG :: "utext \<Rightarrow> bool" where
  "TAG t \<longleftrightarrow> length t = 3 \<and> list_all alnum16 t"

definition all_digits :: "utext \<Rightarrow> bool" where
  "all_digits t \<longleftrightarrow> t \<noteq> [] \<and> list_all digit16 t"

definition number_of :: "utext \<Rightarrow> nat" where
  "number_of t = foldl (\<lambda>n c. 10 * n + (c - 48)) 0 t"

definition index_of :: "'a \<Rightarrow> 'a list \<Rightarrow> nat option" where
  "index_of c t = (if c \<in> set t then Some (length (takeWhile (\<lambda>x. x \<noteq> c) t)) else None)"

text \<open>\<open>text.split(d)\<close> of a one-character separator.\<close>

fun split_units :: "unit16 \<Rightarrow> utext \<Rightarrow> utext list" where
  "split_units d [] = [[]]"
| "split_units d (c # cs) = (if c = d then [] # split_units d cs
     else (case split_units d cs of [] \<Rightarrow> [[c]] | p # ps \<Rightarrow> (c # p) # ps))"

definition parseIndex :: "utext \<Rightarrow> edit_error + path_index" where
  "parseIndex t =
     (if t = text_of ''*'' then Inr IndexAll
      else if t = text_of ''#'' then Inr IndexLast
      else if \<not> all_digits t then Inl PathInvalid
      else Inr (IndexAt (number_of t)))"

definition parseCharSpec :: "utext \<Rightarrow> edit_error + char_range" where
  "parseCharSpec t = (case split_units 45 (drop 1 t) of
       [f] \<Rightarrow> if all_digits f then Inr \<lparr>cr_from = number_of f, cr_to = EndAt (number_of f)\<rparr> else Inl PathInvalid
     | [f, e] \<Rightarrow>
         if \<not> all_digits f then Inl PathInvalid
         else if e = text_of ''#'' then Inr \<lparr>cr_from = number_of f, cr_to = EndLast\<rparr>
         else if \<not> all_digits e then Inl PathInvalid
         else if number_of e < number_of f then Inl PathInvalid
         else Inr \<lparr>cr_from = number_of f, cr_to = EndAt (number_of e)\<rparr>
     | _ \<Rightarrow> Inl PathInvalid)"

text \<open>An occurrence in brackets, or none, and the text after it.\<close>

definition parse_occ :: "utext \<Rightarrow> edit_error + path_index \<times> utext" where
  "parse_occ rest = (case rest of
       [] \<Rightarrow> Inr (IndexImplicit, [])
     | c # cs \<Rightarrow> if c \<noteq> 91 then Inr (IndexImplicit, rest)
         else (case index_of 93 cs of None \<Rightarrow> Inl PathInvalid
           | Some k \<Rightarrow> bind_res (parseIndex (take k cs)) (\<lambda>i. Inr (i, drop (Suc k) cs))))"

definition parse_sub :: "utext \<Rightarrow> edit_error + sub_path" where
  "parse_sub sub = (case sub of [] \<Rightarrow> Inl PathInvalid
     | code # rest \<Rightarrow> bind_res (parse_occ rest) (\<lambda>(occ, tail).
         if tail = [] then Inr \<lparr>sp_code = [code], sp_occ = occ, sp_chars = None\<rparr>
         else bind_res (parseCharSpec tail) (\<lambda>c. Inr \<lparr>sp_code = [code], sp_occ = occ, sp_chars = Some c\<rparr>)))"

definition field_at :: "utext \<Rightarrow> path_index \<Rightarrow> field_path" where
  "field_at tag occ = \<lparr>fp_tag = tag, fp_occ = occ, fp_indicator = None, fp_chars = None, fp_sub = None\<rparr>"

text \<open>What may follow the tag and its occurrence.\<close>

definition parse_tail :: "field_path \<Rightarrow> utext \<Rightarrow> edit_error + marc_path" where
  "parse_tail p rest = (case rest of
       [] \<Rightarrow> Inr (FieldPath p)
     | c # cs \<Rightarrow>
         if c = 94 then
           (if cs = text_of ''1'' then Inr (FieldPath (p\<lparr>fp_indicator := Some 1\<rparr>))
            else if cs = text_of ''2'' then Inr (FieldPath (p\<lparr>fp_indicator := Some 2\<rparr>))
            else Inl PathInvalid)
         else if c = 47 then bind_res (parseCharSpec rest) (\<lambda>r. Inr (FieldPath (p\<lparr>fp_chars := Some r\<rparr>)))
         else if c = 36 then bind_res (parse_sub cs) (\<lambda>s. Inr (FieldPath (p\<lparr>fp_sub := Some s\<rparr>)))
         else Inl PathInvalid)"

definition parseMarcPath :: "utext \<Rightarrow> edit_error + marc_path" where
  "parseMarcPath t =
     (if t = [] then Inl PathInvalid
      else if take 3 t = text_of ''LDR'' then
        (case drop 3 t of [] \<Rightarrow> Inr (LeaderPath None)
         | c # cs \<Rightarrow> if c \<noteq> 47 then Inl PathInvalid
             else bind_res (parseCharSpec (c # cs)) (\<lambda>r. Inr (LeaderPath (Some r))))
      else if \<not> TAG (take 3 t) then Inl PathInvalid
      else bind_res (parse_occ (drop 3 t)) (\<lambda>(occ, rest). parse_tail (field_at (take 3 t) occ) rest))"

text \<open>A path that addresses an edit: every level that repeats is indexed by a number.\<close>

definition parseOpPath :: "utext \<Rightarrow> edit_error + marc_path" where
  "parseOpPath t = bind_res (parseMarcPath t) (\<lambda>p. case p of
       LeaderPath _ \<Rightarrow> Inr p
     | FieldPath f \<Rightarrow> (case fp_occ f of
         IndexAll \<Rightarrow> Inl PathNotAddressable
       | IndexLast \<Rightarrow> Inl PathNotAddressable
       | IndexImplicit \<Rightarrow> Inl PathNotAddressable
       | IndexAt _ \<Rightarrow> (case fp_sub f of None \<Rightarrow> Inr p
           | Some s \<Rightarrow> (case sp_occ s of
               IndexAll \<Rightarrow> Inl PathNotAddressable
             | IndexLast \<Rightarrow> Inl PathNotAddressable
             | IndexImplicit \<Rightarrow> Inl PathNotAddressable
             | IndexAt _ \<Rightarrow> Inr p))))"

section \<open>The canonical text\<close>

definition format_index :: "path_index \<Rightarrow> utext" where
  "format_index i = (case i of IndexImplicit \<Rightarrow> [] | IndexAll \<Rightarrow> text_of ''[*]'' | IndexLast \<Rightarrow> text_of ''[#]''
     | IndexAt n \<Rightarrow> [91] @ text_of (show_nat n) @ [93])"

definition format_pos :: "nat \<Rightarrow> utext" where
  "format_pos n = text_of (pad_start (CHR ''0'') 2 (show_nat n))"

definition format_chars :: "char_range option \<Rightarrow> utext" where
  "format_chars c = (case c of None \<Rightarrow> []
     | Some r \<Rightarrow> (case cr_to r of
         EndLast \<Rightarrow> [47] @ format_pos (cr_from r) @ [45, 35]
       | EndAt e \<Rightarrow> if cr_from r = e then [47] @ format_pos (cr_from r)
           else [47] @ format_pos (cr_from r) @ [45] @ format_pos e))"

definition format_tail :: "field_path \<Rightarrow> utext" where
  "format_tail f = (case fp_indicator f of Some k \<Rightarrow> [94] @ text_of (show_nat k)
     | None \<Rightarrow> (case fp_chars f of Some r \<Rightarrow> format_chars (Some r)
       | None \<Rightarrow> (case fp_sub f of None \<Rightarrow> []
         | Some s \<Rightarrow> [36] @ sp_code s @ format_index (sp_occ s) @ format_chars (sp_chars s))))"

definition formatMarcPath :: "marc_path \<Rightarrow> utext" where
  "formatMarcPath p = (case p of
       LeaderPath c \<Rightarrow> text_of ''LDR'' @ format_chars c
     | FieldPath f \<Rightarrow> fp_tag f @ format_index (fp_occ f) @ format_tail f)"

section \<open>Reading what a path names\<close>

definition fieldsWithTag :: "marc_record \<Rightarrow> utext \<Rightarrow> marc_field list" where
  "fieldsWithTag r tag = filter (\<lambda>f. field_tag f = tag) (mr_fields r)"

definition pick :: "'a list \<Rightarrow> path_index \<Rightarrow> 'a list" where
  "pick items i = (case i of
       IndexAll \<Rightarrow> items
     | IndexLast \<Rightarrow> if items = [] then [] else [last items]
     | IndexAt n \<Rightarrow> if n < length items then [items ! n] else []
     | IndexImplicit \<Rightarrow> take 1 items)"

definition slice_range :: "utext \<Rightarrow> char_range option \<Rightarrow> utext" where
  "slice_range v rng = (case rng of None \<Rightarrow> v
     | Some r \<Rightarrow> (case cr_to r of EndLast \<Rightarrow> slice (cr_from r) (length v) v
       | EndAt e \<Rightarrow> slice (cr_from r) (Suc e) v))"

definition join_space :: "utext list \<Rightarrow> utext" where
  "join_space ts = (case ts of [] \<Rightarrow> [] | t # us \<Rightarrow> t @ concat (map (\<lambda>u. 32 # u) us))"

definition get_field :: "field_path \<Rightarrow> marc_field \<Rightarrow> utext list" where
  "get_field p f = (case fp_indicator p of
       Some k \<Rightarrow> (case f of ControlField _ _ _ \<Rightarrow> []
         | DataField _ i _ _ \<Rightarrow> [case at_index i (k - 1) of None \<Rightarrow> [32] | Some c \<Rightarrow> [c]])
     | None \<Rightarrow> (case fp_sub p of
         Some s \<Rightarrow> (case f of ControlField _ _ _ \<Rightarrow> []
           | DataField _ _ sfs _ \<Rightarrow>
               map (\<lambda>sf. slice_range (snd sf) (sp_chars s)) (pick (filter (\<lambda>sf. fst sf = sp_code s) sfs) (sp_occ s)))
       | None \<Rightarrow> (case f of ControlField _ v _ \<Rightarrow> [slice_range v (fp_chars p)]
           | DataField _ _ sfs _ \<Rightarrow> [join_space (map snd sfs)])))"

definition get :: "marc_record \<Rightarrow> marc_path \<Rightarrow> utext list" where
  "get r path = (case path of
       LeaderPath c \<Rightarrow> [slice_range (mr_leader r) c]
     | FieldPath p \<Rightarrow> concat (map (get_field p) (pick (fieldsWithTag r (fp_tag p)) (fp_occ p))))"

definition getOne :: "marc_record \<Rightarrow> marc_path \<Rightarrow> utext option" where
  "getOne r path = (case get r path of [] \<Rightarrow> None | v # _ \<Rightarrow> Some v)"

definition path_exists :: "marc_record \<Rightarrow> marc_path \<Rightarrow> bool" where
  "path_exists r path \<longleftrightarrow> 0 < length (get r path)"

section \<open>Well-formed paths\<close>

definition wf_range :: "char_range \<Rightarrow> bool" where
  "wf_range r \<longleftrightarrow> (case cr_to r of EndLast \<Rightarrow> True | EndAt e \<Rightarrow> cr_from r \<le> e)"

definition wf_path :: "marc_path \<Rightarrow> bool" where
  "wf_path p \<longleftrightarrow> (case p of
       LeaderPath c \<Rightarrow> pred_option wf_range c
     | FieldPath f \<Rightarrow> TAG (fp_tag f) \<and> fp_tag f \<noteq> text_of ''LDR'' \<and> pred_option wf_range (fp_chars f) \<and>
         (case fp_indicator f of Some k \<Rightarrow> (k = 1 \<or> k = 2) \<and> fp_chars f = None \<and> fp_sub f = None
          | None \<Rightarrow> fp_chars f = None \<or> fp_sub f = None) \<and>
         pred_option (\<lambda>s. length (sp_code s) = 1 \<and> pred_option wf_range (sp_chars s)) (fp_sub f))"

section \<open>Round trips\<close>

lemma text_of_append [simp]: "text_of (s @ t) = text_of s @ text_of t"
  by (simp add: text_of_def)

lemma number_of_text [simp]: "number_of (text_of s) = digits_val s"
  by (simp add: number_of_def text_of_def digits_val_def foldl_map digit_val_def)

lemma all_digits_text:
  assumes "s \<noteq> []" "\<And>c. c \<in> set s \<Longrightarrow> is_digit c"
  shows "all_digits (text_of s)"
  using assms by (auto simp: all_digits_def text_of_def list_all_iff digit16_def is_digit_def)

lemma all_digits_show [simp]: "all_digits (text_of (show_nat n))"
  by (rule all_digits_text) (simp_all add: show_nat_digits)

lemma all_digits_pos [simp]: "all_digits (format_pos n)"
  unfolding format_pos_def
  by (rule all_digits_text) (use pad_start_digits show_nat_digits in \<open>auto simp: pad_start_def\<close>)

lemma number_of_pos [simp]: "number_of (format_pos n) = n"
  by (simp add: format_pos_def)

lemma all_digits_not_in: "all_digits t \<Longrightarrow> \<not> digit16 c \<Longrightarrow> c \<notin> set t"
  by (auto simp: all_digits_def list_all_iff)

lemma all_digits_not_symbol:
  "\<not> all_digits (text_of ''*'')" "\<not> all_digits (text_of ''#'')"
  by (simp_all add: all_digits_def text_of_def digit16_def)

lemma split_units_none: "d \<notin> set t \<Longrightarrow> split_units d t = [t]"
  by (induction t) auto

lemma split_units_append: "d \<notin> set t \<Longrightarrow> split_units d (t @ d # u) = t # split_units d u"
  by (induction t) auto

lemma split_units_digits:
  "all_digits t \<Longrightarrow> split_units 45 t = [t]" "all_digits t \<Longrightarrow> split_units 45 (t @ 45 # u) = t # split_units 45 u"
  by (simp_all add: split_units_none split_units_append all_digits_not_in digit16_def)

lemma parseCharSpec_format: "wf_range r \<Longrightarrow> parseCharSpec (format_chars (Some r)) = Inr r"
proof (cases "cr_to r")
  case EndLast
  then show ?thesis
    by (simp add: parseCharSpec_def format_chars_def split_units_digits text_of_def)
next
  case (EndAt e)
  moreover have "format_pos e \<noteq> text_of ''#''"
    using all_digits_pos [of e] all_digits_not_symbol(2) by metis
  moreover assume "wf_range r"
  ultimately show ?thesis
    by (auto simp: parseCharSpec_def format_chars_def split_units_digits wf_range_def)
qed

lemma parseIndex_number [simp]: "parseIndex (text_of (show_nat n)) = Inr (IndexAt n)"
  using all_digits_show [of n] all_digits_not_symbol
  by (auto simp: parseIndex_def simp del: all_digits_show)

lemma index_of_append: "c \<notin> set t \<Longrightarrow> index_of c (t @ c # u) = Some (length t)"
  by (simp add: index_of_def takeWhile_append)

lemma parse_occ_format:
  assumes "rest = [] \<or> hd rest \<noteq> 91"
  shows "parse_occ (format_index i @ rest) = Inr (i, rest)"
proof (cases i)
  case (IndexAt n)
  have "index_of 93 (text_of (show_nat n) @ 93 # rest) = Some (length (show_nat n))"
    using index_of_append [of 93 "text_of (show_nat n)" rest] all_digits_not_in [OF all_digits_show, of 93 n]
    by (simp add: digit16_def)
  with IndexAt show ?thesis by (simp add: parse_occ_def format_index_def)
next
  case IndexImplicit
  with assms show ?thesis by (auto simp: parse_occ_def format_index_def split: list.split)
qed (simp_all add: parse_occ_def format_index_def text_of_def index_of_def parseIndex_def)

lemma format_chars_head: "format_chars c = [] \<and> c = None \<or> (\<exists>t. format_chars c = 47 # t \<and> c \<noteq> None)"
  by (auto simp: format_chars_def split: option.split range_end.split)

lemma format_chars_None [simp]: "format_chars None = []"
  by (simp add: format_chars_def)

lemma format_chars_Some: "\<exists>t. format_chars (Some r) = 47 # t"
  using format_chars_head [of "Some r"] by auto

lemma parse_sub_format:
  assumes "length (sp_code s) = 1" "pred_option wf_range (sp_chars s)"
  shows "parse_sub (sp_code s @ format_index (sp_occ s) @ format_chars (sp_chars s)) = Inr s"
proof -
  obtain c where c: "sp_code s = [c]" using assms(1) by (cases "sp_code s") auto
  have "parse_occ (format_index (sp_occ s) @ format_chars (sp_chars s)) = Inr (sp_occ s, format_chars (sp_chars s))"
    using format_chars_head [of "sp_chars s"] by (intro parse_occ_format) auto
  with c assms(2) show ?thesis
    using format_chars_head [of "sp_chars s"]
    by (cases "sp_chars s") (auto simp: parse_sub_def parseCharSpec_format)
qed

lemma parse_field:
  assumes "TAG tag" "tag \<noteq> text_of ''LDR''"
  shows "parseMarcPath (tag @ t) = bind_res (parse_occ t) (\<lambda>(occ, rest). parse_tail (field_at tag occ) rest)"
proof -
  have len: "length tag = 3" using assms(1) by (simp add: TAG_def)
  have "take 3 (tag @ t) = tag" "drop 3 (tag @ t) = t" using len by simp_all
  moreover have "tag @ t \<noteq> []" using len by auto
  ultimately show ?thesis using assms by (simp only: parseMarcPath_def if_False not_True_eq_False)
qed

lemma text_LDR: "text_of ''LDR'' = [76, 68, 82]"
  by (simp add: text_of_def)

lemma format_tail_head: "format_tail f = [] \<or> hd (format_tail f) \<noteq> 91"
proof (cases "fp_chars f")
  case (Some r)
  obtain t where "format_chars (Some r) = 47 # t" using format_chars_Some by blast
  with Some show ?thesis by (simp add: format_tail_def split: option.split)
qed (simp add: format_tail_def split: option.split)

lemma show_indicator: "text_of (show_nat (Suc 0)) = [49]" "text_of (show_nat 2) = [50]"
    "text_of ''1'' = [49]" "text_of ''2'' = [50]"
  by (simp_all add: show_nat.simps digit_char_def text_of_def)

lemma parse_tail_format:
  assumes "wf_path (FieldPath f)"
  shows "parse_tail (field_at (fp_tag f) (fp_occ f)) (format_tail f) = Inr (FieldPath f)"
proof (cases "fp_indicator f")
  case (Some k)
  then have "k = 1 \<or> k = 2" "fp_chars f = None" "fp_sub f = None" using assms by (simp_all add: wf_path_def)
  with Some show ?thesis
    by (elim disjE) (simp_all add: parse_tail_def format_tail_def field_at_def show_indicator)
next
  case ind: None
  show ?thesis
  proof (cases "fp_chars f")
    case (Some r)
    obtain t where t: "format_chars (Some r) = 47 # t" using format_chars_Some by blast
    have "parseCharSpec (47 # t) = Inr r" "fp_sub f = None"
      using parseCharSpec_format [of r] assms t by (simp_all add: wf_path_def ind Some)
    with Some ind t show ?thesis by (simp add: parse_tail_def format_tail_def field_at_def)
  next
    case None
    with ind assms show ?thesis
      by (cases "fp_sub f") (simp_all add: parse_tail_def format_tail_def field_at_def parse_sub_format wf_path_def)
  qed
qed

text \<open>What the formatter writes, the parser reads back.\<close>

theorem parse_format:
  assumes "wf_path p"
  shows "parseMarcPath (formatMarcPath p) = Inr p"
proof (cases p)
  case (LeaderPath c)
  show ?thesis
  proof (cases c)
    case None
    then show ?thesis by (simp add: LeaderPath formatMarcPath_def parseMarcPath_def text_LDR)
  next
    case (Some r)
    obtain t where t: "format_chars c = 47 # t" using format_chars_Some Some by blast
    moreover have "parseCharSpec (47 # t) = Inr r"
      using parseCharSpec_format [of r] t assms by (simp add: LeaderPath wf_path_def Some)
    ultimately show ?thesis by (simp add: LeaderPath formatMarcPath_def parseMarcPath_def text_LDR Some)
  qed
next
  case (FieldPath f)
  have "TAG (fp_tag f)" "fp_tag f \<noteq> text_of ''LDR''" using assms by (simp_all add: FieldPath wf_path_def)
  then show ?thesis
    using parse_tail_format [OF assms [unfolded FieldPath]] parse_occ_format [OF format_tail_head [of f], of "fp_occ f"]
    by (simp add: FieldPath formatMarcPath_def parse_field)
qed

lemma number_of_range: "parseCharSpec t = Inr r \<Longrightarrow> wf_range r"
  by (auto simp: parseCharSpec_def wf_range_def split: list.splits if_splits)

lemma parse_sub_wf: "parse_sub t = Inr s \<Longrightarrow> length (sp_code s) = 1 \<and> pred_option wf_range (sp_chars s)"
  by (auto simp: parse_sub_def bind_res_Inr_iff number_of_range split: list.splits if_splits)

lemma parse_tail_wf:
  assumes "parse_tail (field_at tag occ) rest = Inr p" "TAG tag" "tag \<noteq> text_of ''LDR''"
  shows "wf_path p"
  using assms parse_sub_wf number_of_range
  by (auto simp: parse_tail_def wf_path_def field_at_def bind_res_Inr_iff split: list.splits if_splits)

text \<open>Whatever is parsed is well formed, so the canonical text of a parsed path parses to it again.\<close>

theorem parse_wf:
  assumes "parseMarcPath t = Inr p"
  shows "wf_path p"
proof (cases "take 3 t = text_of ''LDR''")
  case True
  with assms number_of_range show ?thesis
    by (auto simp: parseMarcPath_def wf_path_def bind_res_Inr_iff split: list.splits if_splits)
next
  case False
  with assms show ?thesis
    by (auto simp: parseMarcPath_def bind_res_Inr_iff intro: parse_tail_wf split: if_splits)
qed

section \<open>One node per edit\<close>

definition addressable :: "marc_path \<Rightarrow> bool" where
  "addressable p \<longleftrightarrow> (case p of LeaderPath _ \<Rightarrow> True
     | FieldPath f \<Rightarrow> (\<exists>n. fp_occ f = IndexAt n) \<and> pred_option (\<lambda>s. \<exists>n. sp_occ s = IndexAt n) (fp_sub f))"

lemma parseOpPath_iff: "parseOpPath t = Inr p \<longleftrightarrow> parseMarcPath t = Inr p \<and> addressable p"
proof (cases "parseMarcPath t")
  case (Inr q)
  then show ?thesis
    by (cases q) (auto simp: parseOpPath_def addressable_def split: path_index.split option.split)
qed (simp add: parseOpPath_def)

lemma parseOpPath_format: "wf_path p \<Longrightarrow> addressable p \<Longrightarrow> parseOpPath (formatMarcPath p) = Inr p"
  by (simp add: parseOpPath_iff parse_format)

lemma length_pick_at: "length (pick xs (IndexAt n)) \<le> Suc 0"
  by (simp add: pick_def)

lemma get_field_at_most_one:
  assumes "pred_option (\<lambda>s. \<exists>n. sp_occ s = IndexAt n) (fp_sub p)"
  shows "length (get_field p f) \<le> 1"
  using assms by (auto simp: get_field_def length_pick_at split: option.split marc_field.split)

theorem addressable_one:
  assumes "addressable p"
  shows "length (get r p) \<le> 1"
proof (cases p)
  case (FieldPath f)
  with assms obtain n where n: "fp_occ f = IndexAt n"
    and sub: "pred_option (\<lambda>s. \<exists>n. sp_occ s = IndexAt n) (fp_sub f)"
    by (auto simp: addressable_def)
  show ?thesis using get_field_at_most_one [OF sub] by (simp add: get_def FieldPath n pick_def)
qed (simp add: get_def)

section \<open>What the parser lets through\<close>

text \<open>
  After a subfield code and its occurrence the parser takes the rest as a character range without
  looking for the slash: \<open>245$a12\<close> is read as \<open>245$a/2\<close>, and any one character stands for the slash.
\<close>

lemma parse_occ_plain: "rest = [] \<or> hd rest \<noteq> 91 \<Longrightarrow> parse_occ rest = Inr (IndexImplicit, rest)"
  using parse_occ_format [of rest IndexImplicit] by (simp add: format_index_def)

theorem slash_not_required:
  assumes "c \<noteq> 91" "TAG tag" "tag \<noteq> text_of ''LDR''"
  shows "parseMarcPath (tag @ [36, code, c] @ rest) = parseMarcPath (tag @ [36, code, 47] @ rest)"
  using assms by (simp add: parse_field parse_occ_plain parse_tail_def parse_sub_def parseCharSpec_def)

lemma digits_read_as_a_range: "parseMarcPath (text_of ''245$a12'') = parseMarcPath (text_of ''245$a/02'')"
  by code_simp

end
