(* ===== verification/Linkage.thy ===== *)
theory Linkage
  imports Marc_Path
begin

text \<open>
  \<open>$6\<close>, the link between a field and its counterpart in another script
  (\<open>packages/marc/src/linkage.ts\<close>): its text, what a record's links look like, and the two policies
  that bring them back in order. The regular expression is written out as the matches it has. The
  function that returns the same object when nothing changed is modelled by the value it returns.
\<close>

section \<open>The text of a link\<close>

definition LINKED_FIELD_TAG :: utext where "LINKED_FIELD_TAG = text_of ''880''"
definition LINKAGE_SUBFIELD :: utext where "LINKAGE_SUBFIELD = text_of ''6''"
definition UNLINKED_OCCURRENCE :: utext where "UNLINKED_OCCURRENCE = text_of ''00''"

record linkage =
  lk_tag :: utext
  lk_occurrence :: utext
  lk_script :: "utext option"
  lk_orientation :: "utext option"

definition line_end :: "unit16 \<Rightarrow> bool" where
  "line_end c \<longleftrightarrow> c \<in> {10, 13, 0x2028, 0x2029}"

definition nonempty :: "utext \<Rightarrow> utext option" where
  "nonempty t = (if t = [] then None else Some t)"

definition parseLinkage :: "utext \<Rightarrow> linkage option" where
  "parseLinkage v =
     (if \<not> (TAG (take 3 v) \<and> take 1 (drop 3 v) = text_of ''-'' \<and>
            length (take 2 (drop 4 v)) = 2 \<and> list_all digit16 (take 2 (drop 4 v))) then None
      else (let link = \<lparr>lk_tag = take 3 v, lk_occurrence = take 2 (drop 4 v), lk_script = None, lk_orientation = None\<rparr>
        in case drop 6 v of
          [] \<Rightarrow> Some link
        | c # u \<Rightarrow> if c \<noteq> 47 then None
            else (let script = nonempty (takeWhile (\<lambda>x. x \<noteq> 47) u) in
              case dropWhile (\<lambda>x. x \<noteq> 47) u of
                [] \<Rightarrow> Some (link\<lparr>lk_script := script\<rparr>)
              | _ # w \<Rightarrow> if list_ex line_end w then None
                  else Some (link\<lparr>lk_script := script, lk_orientation := nonempty w\<rparr>))))"

definition formatLinkage :: "linkage \<Rightarrow> utext" where
  "formatLinkage l = lk_tag l @ [45] @ lk_occurrence l @
     (case lk_script l of None \<Rightarrow> [] | Some s \<Rightarrow> if s = [] then [] else 47 # s) @
     (case lk_orientation l of None \<Rightarrow> [] | Some s \<Rightarrow> if s = [] then [] else 47 # s)"

definition linkageOf :: "marc_field \<Rightarrow> linkage option" where
  "linkageOf f = (case f of ControlField _ _ _ \<Rightarrow> None
     | DataField _ _ sfs _ \<Rightarrow> (case sfs of [] \<Rightarrow> None
         | sf # _ \<Rightarrow> if fst sf \<noteq> LINKAGE_SUBFIELD then None else parseLinkage (snd sf)))"

definition isLinked :: "linkage option \<Rightarrow> bool" where
  "isLinked l \<longleftrightarrow> (case l of None \<Rightarrow> False | Some k \<Rightarrow> lk_occurrence k \<noteq> UNLINKED_OCCURRENCE)"

section \<open>The links of a record\<close>

record linkage_report =
  lr_byOccurrence :: "(utext \<times> nat list) list"
  lr_dangling :: "nat list"
  lr_collisions :: "utext list"
  lr_used :: "utext set"

definition note_link :: "nat \<times> marc_field \<Rightarrow> (utext \<times> nat list) list \<times> utext set \<Rightarrow> (utext \<times> nat list) list \<times> utext set" where
  "note_link = (\<lambda>(index, f) (by, used). case linkageOf f of
       None \<Rightarrow> (by, used)
     | Some l \<Rightarrow> if \<not> isLinked (Some l) then (by, used)
         else (let found = (case map_of by (lk_occurrence l) of None \<Rightarrow> [] | Some is \<Rightarrow> is) in
           (map_set (lk_occurrence l) (found @ [index]) by, insert (lk_occurrence l) used)))"

definition inspectLinkage :: "marc_field list \<Rightarrow> linkage_report" where
  "inspectLinkage fs = (let (by, used) = fold note_link (enumerate 0 fs) ([], {}) in
     \<lparr>lr_byOccurrence = by,
      lr_dangling = map hd (filter (\<lambda>is. length is = 1) (map snd by)),
      lr_collisions = map fst (filter (\<lambda>(oc, is). 2 < length is) by),
      lr_used = used\<rparr>)"

definition allocateOccurrence :: "utext set \<Rightarrow> edit_error + utext" where
  "allocateOccurrence used =
     (case find (\<lambda>c. c \<notin> used) (map format_pos [1..<100]) of None \<Rightarrow> Inl LinkageExhausted | Some c \<Rightarrow> Inr c)"

section \<open>Bringing them in order\<close>

datatype linkage_policy = Repair | Compact

definition withLinkage :: "marc_field \<Rightarrow> linkage \<Rightarrow> marc_field" where
  "withLinkage f l = (case f of ControlField _ _ _ \<Rightarrow> f
     | DataField t i sfs x \<Rightarrow> DataField t i ((LINKAGE_SUBFIELD, formatLinkage l) # drop 1 sfs) x)"

definition partners :: "marc_field list \<Rightarrow> nat \<Rightarrow> nat \<Rightarrow> bool" where
  "partners fs i j \<longleftrightarrow> (case (linkageOf (fs ! i), linkageOf (fs ! j)) of
       (Some li, Some lj) \<Rightarrow> lk_tag li = field_tag (fs ! j) \<and> lk_tag lj = field_tag (fs ! i)
     | _ \<Rightarrow> False)"

function partnerGroups :: "marc_field list \<Rightarrow> nat list \<Rightarrow> nat list list" where
  "partnerGroups fs [] = []"
| "partnerGroups fs (i # rest) = (case List.extract (partners fs i) rest of
       None \<Rightarrow> [i] # partnerGroups fs rest
     | Some (ys, j, zs) \<Rightarrow> [i, j] # partnerGroups fs (ys @ zs))"
  by pat_completeness auto

termination
  by (relation "measure (length \<circ> snd)") (auto dest!: extract_SomeE [OF sym] extract_SomeE)

definition setOccurrence :: "utext \<Rightarrow> nat \<Rightarrow> marc_field list \<Rightarrow> marc_field list" where
  "setOccurrence oc index fs = (case linkageOf (fs ! index) of
       None \<Rightarrow> fs
     | Some l \<Rightarrow> if \<not> isLinked (Some l) \<or> lk_occurrence l = oc then fs
         else fs[index := withLinkage (fs ! index) (l\<lparr>lk_occurrence := oc\<rparr>)])"

fun renumber_groups :: "marc_field list \<times> utext set \<Rightarrow> nat list list \<Rightarrow> edit_error + marc_field list \<times> utext set" where
  "renumber_groups st [] = Inr st"
| "renumber_groups (fs, used) (g # gs) = bind_res (allocateOccurrence used) (\<lambda>fresh.
     renumber_groups (fold (setOccurrence fresh) g fs, insert fresh used) gs)"

fun resolve_collisions :: "marc_field list \<Rightarrow> (utext \<times> nat list) list \<Rightarrow> marc_field list \<times> utext set \<Rightarrow> utext list
    \<Rightarrow> edit_error + marc_field list \<times> utext set" where
  "resolve_collisions orig by st [] = Inr st"
| "resolve_collisions orig by st (oc # ocs) = bind_res
     (renumber_groups st (drop 1 (partnerGroups orig (case map_of by oc of None \<Rightarrow> [] | Some is \<Rightarrow> is))))
     (\<lambda>st'. resolve_collisions orig by st' ocs)"

fun compact_loop :: "(utext \<rightharpoonup> utext) \<Rightarrow> nat \<Rightarrow> marc_field list \<Rightarrow> nat list \<Rightarrow> edit_error + marc_field list" where
  "compact_loop assigned next fs [] = Inr fs"
| "compact_loop assigned next fs (i # is) = (case linkageOf (fs ! i) of
       None \<Rightarrow> compact_loop assigned next fs is
     | Some l \<Rightarrow> if \<not> isLinked (Some l) then compact_loop assigned next fs is
         else (case assigned (lk_occurrence l) of
             Some oc \<Rightarrow> compact_loop assigned next (setOccurrence oc i fs) is
           | None \<Rightarrow> if 99 < next then Inl LinkageExhausted
               else compact_loop (assigned(lk_occurrence l \<mapsto> format_pos next)) (Suc next)
                 (setOccurrence (format_pos next) i fs) is))"

definition normalizeLinkage :: "linkage_policy \<Rightarrow> marc_record \<Rightarrow> edit_error + marc_record" where
  "normalizeLinkage policy r = (let report = inspectLinkage (mr_fields r) in
     if policy = Repair \<and> lr_collisions report = [] then Inr r
     else bind_res (resolve_collisions (mr_fields r) (lr_byOccurrence report) (mr_fields r, lr_used report) (lr_collisions report))
       (\<lambda>(fs, used). if policy = Repair then Inr (r\<lparr>mr_fields := fs\<rparr>)
         else bind_res (compact_loop Map.empty 1 fs [0..<length fs]) (\<lambda>fs'. Inr (r\<lparr>mr_fields := fs'\<rparr>))))"

section \<open>Reading a written link\<close>

definition two_digits :: "utext \<Rightarrow> bool" where
  "two_digits t \<longleftrightarrow> length t = 2 \<and> list_all digit16 t"

definition wf_linkage :: "linkage \<Rightarrow> bool" where
  "wf_linkage l \<longleftrightarrow> TAG (lk_tag l) \<and> two_digits (lk_occurrence l) \<and>
     pred_option (\<lambda>s. s \<noteq> [] \<and> 47 \<notin> set s) (lk_script l) \<and>
     pred_option (\<lambda>s. s \<noteq> [] \<and> \<not> list_ex line_end s) (lk_orientation l)"

lemma parse_wf_linkage:
  assumes "parseLinkage v = Some l"
  shows "wf_linkage l"
proof -
  have "TAG (take 3 v)" "two_digits (take 2 (drop 4 v))"
    using assms by (simp_all add: parseLinkage_def two_digits_def split: if_splits)
  moreover have "47 \<notin> set (takeWhile (\<lambda>x. x \<noteq> (47::nat)) u)" for u by (auto dest: set_takeWhileD)
  ultimately show ?thesis
    using assms by (auto simp: parseLinkage_def wf_linkage_def nonempty_def Let_def split: if_splits list.splits)
qed

lemma parse_link_text:
  assumes "TAG tag" "two_digits oc"
  shows "parseLinkage (tag @ [45] @ oc @ rest) =
    (let link = \<lparr>lk_tag = tag, lk_occurrence = oc, lk_script = None, lk_orientation = None\<rparr>
        in case rest of
          [] \<Rightarrow> Some link
        | c # u \<Rightarrow> if c \<noteq> 47 then None
            else (let script = nonempty (takeWhile (\<lambda>x. x \<noteq> 47) u) in
              case dropWhile (\<lambda>x. x \<noteq> 47) u of
                [] \<Rightarrow> Some (link\<lparr>lk_script := script\<rparr>)
              | _ # w \<Rightarrow> if list_ex line_end w then None
                  else Some (link\<lparr>lk_script := script, lk_orientation := nonempty w\<rparr>)))"
proof -
  have "length tag = 3" "length oc = 2" using assms by (simp_all add: TAG_def two_digits_def)
  then have "take 3 (tag @ [45] @ oc @ rest) = tag" "take 1 (drop 3 (tag @ [45] @ oc @ rest)) = text_of ''-''"
    "take 2 (drop 4 (tag @ [45] @ oc @ rest)) = oc" "drop 6 (tag @ [45] @ oc @ rest) = rest" "length oc = 2"
    by (simp_all add: text_of_def)
  then show ?thesis using assms unfolding parseLinkage_def two_digits_def by simp
qed

text \<open>
  A written link is read back as it was, unless it has an orientation and no script: the text has
  no place for a script that is not there, so the orientation is read as the script.
\<close>

theorem parse_format_linkage:
  assumes "wf_linkage l" "lk_orientation l = None \<or> lk_script l \<noteq> None"
  shows "parseLinkage (formatLinkage l) = Some l"
proof -
  have tw: "takeWhile (\<lambda>x. x \<noteq> 47) (s @ 47 # w) = s" "dropWhile (\<lambda>x. x \<noteq> 47) (s @ 47 # w) = 47 # w"
    "takeWhile (\<lambda>x. x \<noteq> 47) s = s" "dropWhile (\<lambda>x. x \<noteq> 47) s = []" if "47 \<notin> set s" for s w :: utext
    using that by (auto simp: takeWhile_append dropWhile_append)
  show ?thesis
    using assms by (cases "lk_script l"; cases "lk_orientation l")
      (auto simp: wf_linkage_def formatLinkage_def parse_link_text [unfolded append_Cons append_Nil]
         parse_link_text [where rest = "[]", unfolded append_Cons append_Nil append_Nil2] nonempty_def tw)
qed

lemma parse_format_occurrence:
  assumes "wf_linkage l"
  shows "\<exists>k. parseLinkage (formatLinkage l) = Some k \<and> lk_occurrence k = lk_occurrence l \<and> lk_tag k = lk_tag l"
proof (cases "lk_orientation l = None \<or> lk_script l \<noteq> None")
  case True
  with parse_format_linkage [OF assms] show ?thesis by blast
next
  case False
  then obtain s where s: "lk_orientation l = Some s" "lk_script l = None" by auto
  have "\<not> list_ex line_end w" if "dropWhile (\<lambda>x. x \<noteq> 47) s = c # w" for c w
  proof -
    have "set (c # w) \<subseteq> set s" using that by (metis set_dropWhileD subsetI)
    with assms s(1) show ?thesis by (auto simp: wf_linkage_def list_ex_iff)
  qed
  with s assms show ?thesis
    by (auto simp: wf_linkage_def formatLinkage_def parse_link_text [unfolded append_Cons append_Nil] Let_def split: list.split)
qed

lemma orientation_becomes_script:
  "parseLinkage (text_of ''245-01//r'') = Some \<lparr>lk_tag = text_of ''245'', lk_occurrence = text_of ''01'',
     lk_script = None, lk_orientation = Some (text_of ''r'')\<rparr>"
  "parseLinkage (formatLinkage \<lparr>lk_tag = text_of ''245'', lk_occurrence = text_of ''01'',
     lk_script = None, lk_orientation = Some (text_of ''r'')\<rparr>) =
   Some \<lparr>lk_tag = text_of ''245'', lk_occurrence = text_of ''01'', lk_script = Some (text_of ''r''), lk_orientation = None\<rparr>"
  by code_simp+

section \<open>The number of a field\<close>

definition occ_of :: "marc_field \<Rightarrow> utext option" where
  "occ_of f = (case linkageOf f of None \<Rightarrow> None
     | Some l \<Rightarrow> if lk_occurrence l = UNLINKED_OCCURRENCE then None else Some (lk_occurrence l))"

lemma isLinked_Some [simp]: "isLinked (Some l) \<longleftrightarrow> lk_occurrence l \<noteq> UNLINKED_OCCURRENCE" "\<not> isLinked None"
  by (simp_all add: isLinked_def)

lemma linkageOf_wf:
  assumes "linkageOf f = Some l"
  shows "wf_linkage l"
  using assms by (auto simp: linkageOf_def intro: parse_wf_linkage split: marc_field.splits list.splits if_splits)

lemma field_tag_withLinkage [simp]: "field_tag (withLinkage f l) = field_tag f"
  by (simp add: withLinkage_def split: marc_field.split)

lemma occ_of_withLinkage:
  assumes "linkageOf f = Some l" "two_digits oc" "oc \<noteq> UNLINKED_OCCURRENCE"
  shows "occ_of (withLinkage f (l\<lparr>lk_occurrence := oc\<rparr>)) = Some oc"
proof -
  have "wf_linkage (l\<lparr>lk_occurrence := oc\<rparr>)" using linkageOf_wf [OF assms(1)] assms(2) by (simp add: wf_linkage_def)
  from parse_format_occurrence [OF this] obtain k where
    "parseLinkage (formatLinkage (l\<lparr>lk_occurrence := oc\<rparr>)) = Some k" "lk_occurrence k = oc" by auto
  with assms show ?thesis
    by (auto simp: occ_of_def linkageOf_def withLinkage_def split: marc_field.splits)
qed

definition fresh_number :: "utext \<Rightarrow> bool" where
  "fresh_number oc \<longleftrightarrow> (\<exists>n \<in> {1..<100}. oc = format_pos n)"

lemma fresh_number_digits:
  assumes "fresh_number oc"
  shows "two_digits oc" "oc \<noteq> UNLINKED_OCCURRENCE"
proof -
  obtain n where n: "1 \<le> n" "n < 100" "oc = format_pos n" using assms by (auto simp: fresh_number_def)
  have "length (show_nat n) \<le> 2" using n length_show_nat [of n 2] by simp
  then have "length oc = 2" by (simp add: n format_pos_def)
  moreover have "list_all digit16 oc" using all_digits_pos [of n] by (simp add: n all_digits_def)
  ultimately show "two_digits oc" by (simp add: two_digits_def)
  have "number_of UNLINKED_OCCURRENCE = 0" by code_simp
  moreover have "number_of oc = n" using n by simp
  ultimately show "oc \<noteq> UNLINKED_OCCURRENCE" using n(1) by auto
qed

lemma allocate_fresh:
  assumes "allocateOccurrence used = Inr c"
  shows "c \<notin> used" "fresh_number c"
  using assms by (auto simp: allocateOccurrence_def fresh_number_def find_Some_iff split: option.splits)

lemma setOccurrence_length [simp]: "length (setOccurrence oc i fs) = length fs"
  by (simp add: setOccurrence_def split: option.split)

lemma setOccurrence_other [simp]: "i \<noteq> j \<Longrightarrow> setOccurrence oc i fs ! j = fs ! j"
  by (simp add: setOccurrence_def split: option.split)

lemma setOccurrence_occ:
  assumes "i < length fs" "occ_of (fs ! i) \<noteq> None" "fresh_number oc"
  shows "occ_of (setOccurrence oc i fs ! i) = Some oc"
proof -
  obtain l where l: "linkageOf (fs ! i) = Some l" "lk_occurrence l \<noteq> UNLINKED_OCCURRENCE"
    using assms(2) by (auto simp: occ_of_def split: option.splits if_splits)
  show ?thesis
  proof (cases "lk_occurrence l = oc")
    case True
    with l show ?thesis by (simp add: setOccurrence_def) (simp add: occ_of_def)
  next
    case False
    with l assms(1) occ_of_withLinkage [OF l(1) fresh_number_digits [OF assms(3)]] show ?thesis
      by (simp add: setOccurrence_def)
  qed
qed

lemma fold_setOccurrence_length [simp]: "length (fold (setOccurrence oc) g fs) = length fs"
  by (induction g arbitrary: fs) simp_all

lemma fold_setOccurrence_other: "j \<notin> set g \<Longrightarrow> fold (setOccurrence oc) g fs ! j = fs ! j"
  by (induction g arbitrary: fs) simp_all

lemma fold_setOccurrence_occ:
  assumes "j \<in> set g" "\<And>i. i \<in> set g \<Longrightarrow> i < length fs \<and> occ_of (fs ! i) \<noteq> None" "distinct g" "fresh_number oc"
  shows "occ_of (fold (setOccurrence oc) g fs ! j) = Some oc"
  using assms
proof (induction g arbitrary: fs)
  case (Cons i g)
  show ?case
  proof (cases "j = i")
    case True
    with Cons.prems show ?thesis by (simp add: fold_setOccurrence_other setOccurrence_occ)
  next
    case False
    have "k < length (setOccurrence oc i fs) \<and> occ_of (setOccurrence oc i fs ! k) \<noteq> None" if "k \<in> set g" for k
      using Cons.prems(2) [of k] Cons.prems(3) that by (cases "k = i") auto
    with False Cons show ?thesis by simp
  qed
qed simp
section \<open>What the report says\<close>

definition numbered :: "marc_field list \<Rightarrow> utext \<Rightarrow> nat list" where
  "numbered fs oc = filter (\<lambda>i. occ_of (fs ! i) = Some oc) [0..<length fs]"

lemma set_numbered: "set (numbered fs oc) = {i. i < length fs \<and> occ_of (fs ! i) = Some oc}"
  by (auto simp: numbered_def)

lemma distinct_numbered [simp]: "distinct (numbered fs oc)"
  by (simp add: numbered_def)

lemma numbered_snoc: "numbered (fs @ [f]) oc = numbered fs oc @ (if occ_of f = Some oc then [length fs] else [])"
  by (auto simp: numbered_def nth_append intro!: filter_cong)

lemma note_link_occ: "note_link (n, f) (by, used) = (case occ_of f of None \<Rightarrow> (by, used)
    | Some oc \<Rightarrow> (map_set oc ((case map_of by oc of None \<Rightarrow> [] | Some is \<Rightarrow> is) @ [n]) by, insert oc used))"
  by (simp add: note_link_def occ_of_def Let_def split: option.split)

lemma fold_note_link:
  assumes "fold note_link (enumerate 0 fs) ([], {}) = (by, used)"
  shows "distinct (map fst by) \<and> used = {oc. numbered fs oc \<noteq> []} \<and>
    (\<forall>oc. map_of by oc = (if numbered fs oc = [] then None else Some (numbered fs oc)))"
  using assms
proof (induction fs arbitrary: "by" used rule: rev_induct)
  case (snoc f fs)
  obtain by0 used0 where st: "fold note_link (enumerate 0 fs) ([], {}) = (by0, used0)" by fastforce
  note IH = snoc.IH [OF st]
  have step: "(by, used) = note_link (length fs, f) (by0, used0)"
    using snoc.prems st by (simp add: enumerate_append_eq)
  show ?case
  proof (cases "occ_of f")
    case None
    with step IH show ?thesis by (simp add: note_link_occ numbered_snoc)
  next
    case (Some oc)
    with step IH have "by = map_set oc (numbered fs oc @ [length fs]) by0" "used = insert oc used0"
      by (auto simp: note_link_occ)
    with IH Some show ?thesis by (auto simp: map_of_map_set distinct_map_set numbered_snoc)
  qed
qed (simp add: numbered_def)

lemma inspect_facts:
  shows "map_of (lr_byOccurrence (inspectLinkage fs)) oc = (if numbered fs oc = [] then None else Some (numbered fs oc))"
    and "lr_used (inspectLinkage fs) = {oc. numbered fs oc \<noteq> []}"
    and "oc \<in> set (lr_collisions (inspectLinkage fs)) \<longleftrightarrow> 2 < length (numbered fs oc)"
    and "distinct (lr_collisions (inspectLinkage fs))"
proof -
  obtain "by" used where st: "fold note_link (enumerate 0 fs) ([], {}) = (by, used)" by fastforce
  note f = fold_note_link [OF st]
  then show "map_of (lr_byOccurrence (inspectLinkage fs)) oc = (if numbered fs oc = [] then None else Some (numbered fs oc))"
    and "lr_used (inspectLinkage fs) = {oc. numbered fs oc \<noteq> []}"
    by (simp_all add: inspectLinkage_def st)
  have mem: "(oc, is) \<in> set by \<longleftrightarrow> is \<noteq> [] \<and> is = numbered fs oc" for oc "is"
    using f map_of_eq_Some_iff [of "by" oc "is"] by (auto split: if_splits)
  show "oc \<in> set (lr_collisions (inspectLinkage fs)) \<longleftrightarrow> 2 < length (numbered fs oc)"
    by (force simp: inspectLinkage_def st mem image_iff)
  have "distinct (map fst (filter P by))" for P
    using f by (simp add: distinct_map_filter)
  then show "distinct (lr_collisions (inspectLinkage fs))" by (simp add: inspectLinkage_def st)
qed

lemma partnerGroups_mset: "mset (concat (partnerGroups fs is)) = mset is"
proof (induction fs "is" rule: partnerGroups.induct)
  case (2 fs i rest)
  show ?case
  proof (cases "List.extract (partners fs i) rest")
    case None
    with 2 show ?thesis by simp
  next
    case (Some t)
    obtain ys j zs where t: "t = (ys, j, zs)" by (cases t) auto
    from extract_SomeE [OF Some [unfolded t]] have "rest = ys @ j # zs" by simp
    with 2(2) [OF Some, of ys "(j, zs)" j zs] Some t show ?thesis by simp
  qed
qed simp

lemma partnerGroups_size: "g \<in> set (partnerGroups fs is) \<Longrightarrow> g \<noteq> [] \<and> length g \<le> 2"
proof (induction fs "is" rule: partnerGroups.induct)
  case (2 fs i rest)
  show ?case
  proof (cases "List.extract (partners fs i) rest")
    case (Some t)
    with 2(2) [OF Some, of "fst t" "snd t" "fst (snd t)" "snd (snd t)"] 2(3) show ?thesis
      by (auto simp: split_beta)
  qed (use 2 in auto)
qed simp

lemma partnerGroups_sets:
  assumes "distinct is"
  shows "set (concat (partnerGroups fs is)) = set is" "distinct (concat (partnerGroups fs is))"
  using partnerGroups_mset [of fs "is"] assms by (metis set_mset_mset, metis mset_eq_imp_distinct_iff)

section \<open>Renumbering\<close>

definition numbers :: "marc_field list \<Rightarrow> utext set" where
  "numbers fs = {oc. numbered fs oc \<noteq> []}"

lemma in_numbers: "oc \<in> numbers fs \<longleftrightarrow> (\<exists>i < length fs. occ_of (fs ! i) = Some oc)"
  by (auto simp: numbers_def numbered_def filter_empty_conv)

text \<open>Each group gets a number of its own that nobody had, and nobody else changes.\<close>

lemma renumber_groups_spec:
  assumes "renumber_groups (fs, used) gs = Inr (fs', used')" "numbers fs \<subseteq> used"
    and "distinct (concat gs)" "\<And>i. i \<in> set (concat gs) \<Longrightarrow> i < length fs \<and> occ_of (fs ! i) \<noteq> None"
    and "\<And>g. g \<in> set gs \<Longrightarrow> g \<noteq> []"
  shows "length fs' = length fs \<and> used \<subseteq> used' \<and> numbers fs' \<subseteq> used' \<and>
    (\<forall>i. i \<notin> set (concat gs) \<longrightarrow> fs' ! i = fs ! i) \<and>
    (\<forall>g \<in> set gs. \<exists>oc. oc \<notin> used \<and> fresh_number oc \<and> set (numbered fs' oc) = set g)"
  using assms
proof (induction gs arbitrary: fs used)
  case (Cons g gs)
  obtain fresh where al: "allocateOccurrence used = Inr fresh"
    and rec: "renumber_groups (fold (setOccurrence fresh) g fs, insert fresh used) gs = Inr (fs', used')"
    using Cons.prems(1) by (auto simp: bind_res_Inr_iff)
  note fresh = allocate_fresh [OF al]
  let ?fs = "fold (setOccurrence fresh) g fs"
  have g: "\<And>i. i \<in> set g \<Longrightarrow> i < length fs \<and> occ_of (fs ! i) \<noteq> None" "distinct g"
    using Cons.prems(3,4) by auto
  have inside: "occ_of (?fs ! i) = Some fresh" if "i \<in> set g" for i
    by (rule fold_setOccurrence_occ [OF that g(1) g(2) fresh(2)])
  have outside: "?fs ! i = fs ! i" if "i \<notin> set g" for i
    by (rule fold_setOccurrence_other [OF that])
  have "numbers ?fs \<subseteq> insert fresh used"
  proof
    fix oc assume "oc \<in> numbers ?fs"
    then obtain i where i: "i < length fs" "occ_of (?fs ! i) = Some oc" by (auto simp: in_numbers)
    show "oc \<in> insert fresh used"
    proof (cases "i \<in> set g")
      case True
      with inside i show ?thesis by simp
    next
      case False
      with outside i have "oc \<in> numbers fs" by (auto simp: in_numbers)
      with Cons.prems(2) show ?thesis by auto
    qed
  qed
  moreover have "i < length ?fs \<and> occ_of (?fs ! i) \<noteq> None" if "i \<in> set (concat gs)" for i
  proof -
    have "i \<notin> set g" using that Cons.prems(3) by auto
    with outside Cons.prems(4) [of i] that show ?thesis by simp
  qed
  ultimately have IH: "length fs' = length ?fs \<and> insert fresh used \<subseteq> used' \<and> numbers fs' \<subseteq> used' \<and>
      (\<forall>i. i \<notin> set (concat gs) \<longrightarrow> fs' ! i = ?fs ! i) \<and>
      (\<forall>g \<in> set gs. \<exists>oc. oc \<notin> insert fresh used \<and> fresh_number oc \<and> set (numbered fs' oc) = set g)"
    using Cons.prems by (intro Cons.IH [OF rec]) auto
  have "set (numbered fs' fresh) = set g"
  proof (intro set_eqI iffI)
    fix i assume "i \<in> set g"
    moreover have "i \<notin> set (concat gs)" using \<open>i \<in> set g\<close> Cons.prems(3) by auto
    ultimately show "i \<in> set (numbered fs' fresh)" using IH inside g by (simp add: set_numbered)
  next
    fix i assume i: "i \<in> set (numbered fs' fresh)"
    have "i \<notin> set (concat gs)"
    proof
      assume "i \<in> set (concat gs)"
      then obtain g' where "g' \<in> set gs" "i \<in> set g'" by auto
      with IH obtain oc where "oc \<noteq> fresh" "i \<in> set (numbered fs' oc)" by auto
      with i show False by (simp add: set_numbered)
    qed
    with IH i have oc: "occ_of (?fs ! i) = Some fresh" "i < length fs" by (auto simp: set_numbered)
    show "i \<in> set g"
    proof (rule ccontr)
      assume "i \<notin> set g"
      with oc outside have "fresh \<in> numbers fs" by (auto simp: in_numbers)
      with fresh(1) Cons.prems(2) show False by auto
    qed
  qed
  with IH fresh have "\<forall>g' \<in> set (g # gs). \<exists>oc. oc \<notin> used \<and> fresh_number oc \<and> set (numbered fs' oc) = set g'"
    by auto
  with IH outside show ?case by auto
qed simp
lemma in_groups: "(\<exists>g \<in> set (partnerGroups fs (numbered fs oc)). i \<in> set g) \<longleftrightarrow> i < length fs \<and> occ_of (fs ! i) = Some oc"
  using partnerGroups_sets(1) [of "numbered fs oc" fs] by (simp add: set_numbered set_eq_iff)

text \<open>The loop over the collisions: the first set of each keeps the number, every other set moves.\<close>

lemma resolve_collisions_spec:
  assumes "resolve_collisions orig by (fs, used) ocs = Inr (fs', used')"
    and by_law: "\<And>oc. map_of by oc = (if numbered orig oc = [] then None else Some (numbered orig oc))"
    and "numbers fs \<subseteq> used" "numbers orig \<subseteq> used" "length fs = length orig" "distinct ocs"
    and "\<And>oc i. oc \<in> set ocs \<Longrightarrow> i \<in> set (numbered orig oc) \<Longrightarrow> fs ! i = orig ! i"
  shows "length fs' = length fs \<and> numbers fs' \<subseteq> used' \<and> used \<subseteq> used' \<and>
    (\<forall>i. (\<forall>oc \<in> set ocs. \<forall>g \<in> set (drop 1 (partnerGroups orig (numbered orig oc))). i \<notin> set g) \<longrightarrow> fs' ! i = fs ! i) \<and>
    (\<forall>oc \<in> set ocs. \<forall>g \<in> set (drop 1 (partnerGroups orig (numbered orig oc))).
       \<exists>oc'. oc' \<notin> used \<and> fresh_number oc' \<and> set (numbered fs' oc') = set g)"
  using assms
proof (induction ocs arbitrary: fs used)
  case (Cons oc ocs)
  let ?gs = "partnerGroups orig (numbered orig oc)"
  have look: "(case map_of by oc of None \<Rightarrow> [] | Some is \<Rightarrow> is) = numbered orig oc" by (simp add: by_law)
  obtain fs1 used1 where first: "renumber_groups (fs, used) (drop 1 ?gs) = Inr (fs1, used1)"
    and rec: "resolve_collisions orig by (fs1, used1) ocs = Inr (fs', used')"
    using Cons.prems(1) by (auto simp: bind_res_Inr_iff look)
  have sets: "set (concat ?gs) = set (numbered orig oc)" "distinct (concat ?gs)"
    by (rule partnerGroups_sets, simp)+
  have sub: "set (concat (drop 1 ?gs)) \<subseteq> set (numbered orig oc)"
    using sets(1) set_drop_subset [of 1 ?gs] by auto
  have d: "distinct (concat (drop 1 ?gs))" using sets(2) by (cases ?gs) simp_all
  have lk: "i < length fs \<and> occ_of (fs ! i) \<noteq> None" if "i \<in> set (concat (drop 1 ?gs))" for i
    using that sub Cons.prems(5) Cons.prems(7) [of oc i] by (auto simp: set_numbered subset_iff)
  have ne: "g \<noteq> []" if "g \<in> set (drop 1 ?gs)" for g using partnerGroups_size in_set_dropD [OF that] by blast
  note R = renumber_groups_spec [OF first Cons.prems(3) d lk ne]
  have R_len: "length fs1 = length fs" and R_used: "used \<subseteq> used1" "numbers fs1 \<subseteq> used1" using R by simp_all
  have R_other: "fs1 ! i = fs ! i" if "i \<notin> set (concat (drop 1 ?gs))" for i using R that by blast
  have R_group: "\<exists>oc'. oc' \<notin> used \<and> fresh_number oc' \<and> set (numbered fs1 oc') = set g" if "g \<in> set (drop 1 ?gs)" for g
    using R that by blast
  have keep: "fs1 ! i = orig ! i" if "oc' \<in> set ocs" "i \<in> set (numbered orig oc')" for oc' i
  proof -
    have "oc' \<noteq> oc" using that(1) Cons.prems(6) by auto
    with that(2) have "i \<notin> set (numbered orig oc)" by (auto simp: set_numbered)
    with sub have "fs1 ! i = fs ! i" by (intro R_other) blast
    also have "\<dots> = orig ! i" using Cons.prems(7) [of oc' i] that by simp
    finally show ?thesis .
  qed
  have IH: "length fs' = length fs1 \<and> numbers fs' \<subseteq> used' \<and> used1 \<subseteq> used' \<and>
    (\<forall>i. (\<forall>oc \<in> set ocs. \<forall>g \<in> set (drop 1 (partnerGroups orig (numbered orig oc))). i \<notin> set g) \<longrightarrow> fs' ! i = fs1 ! i) \<and>
    (\<forall>oc \<in> set ocs. \<forall>g \<in> set (drop 1 (partnerGroups orig (numbered orig oc))).
       \<exists>oc'. oc' \<notin> used1 \<and> fresh_number oc' \<and> set (numbered fs' oc') = set g)"
  proof (rule Cons.IH [OF rec by_law])
    show "numbers orig \<subseteq> used1" using Cons.prems(4) R by blast
  qed (use Cons.prems(5,6) R_len R_used keep in simp_all)
  have IH_len: "length fs' = length fs1" and IH_used: "numbers fs' \<subseteq> used'" "used1 \<subseteq> used'" using IH by simp_all
  have IH_other: "fs' ! i = fs1 ! i"
    if "\<forall>oc \<in> set ocs. \<forall>g \<in> set (drop 1 (partnerGroups orig (numbered orig oc))). i \<notin> set g" for i
    using IH that by blast
  have IH_group: "\<exists>oc'. oc' \<notin> used1 \<and> fresh_number oc' \<and> set (numbered fs' oc') = set g"
    if "oc2 \<in> set ocs" "g \<in> set (drop 1 (partnerGroups orig (numbered orig oc2)))" for oc2 g
    using IH that by blast
  have first_ok: "\<exists>oc'. oc' \<notin> used \<and> fresh_number oc' \<and> set (numbered fs' oc') = set g" if g: "g \<in> set (drop 1 ?gs)" for g
  proof -
    obtain oc' where oc': "oc' \<notin> used" "fresh_number oc'" "set (numbered fs1 oc') = set g" using R_group [OF g] by blast
    have notin: "\<forall>oc2 \<in> set ocs. \<forall>g' \<in> set (drop 1 (partnerGroups orig (numbered orig oc2))). i \<notin> set g'"
      if i: "i \<in> set (numbered orig oc)" for i
    proof (intro ballI notI)
      fix oc2 g' assume oc2: "oc2 \<in> set ocs" "g' \<in> set (drop 1 (partnerGroups orig (numbered orig oc2)))" "i \<in> set g'"
      then have "occ_of (orig ! i) = Some oc2" using in_groups in_set_dropD by fast
      with i have "oc = oc2" by (simp add: set_numbered)
      with oc2(1) Cons.prems(6) show False by auto
    qed
    have in_g: "i \<in> set g \<Longrightarrow> i \<in> set (numbered orig oc)" for i using sub g by auto
    have "set (numbered fs' oc') = set g"
    proof (intro set_eqI iffI)
      fix i assume "i \<in> set g"
      then have "fs' ! i = fs1 ! i" by (intro IH_other notin in_g)
      with \<open>i \<in> set g\<close> oc'(3) IH_len show "i \<in> set (numbered fs' oc')" by (auto simp: set_numbered)
    next
      fix i assume i: "i \<in> set (numbered fs' oc')"
      have "oc' \<in> used1"
        using R_used(2) oc'(3) ne [OF g] by (auto simp: numbers_def)
      have "\<forall>oc2 \<in> set ocs. \<forall>g' \<in> set (drop 1 (partnerGroups orig (numbered orig oc2))). i \<notin> set g'"
      proof (intro ballI notI)
        fix oc2 g' assume "oc2 \<in> set ocs" "g' \<in> set (drop 1 (partnerGroups orig (numbered orig oc2)))" "i \<in> set g'"
        with IH_group obtain oc3 where "oc3 \<notin> used1" "i \<in> set (numbered fs' oc3)" by blast
        with i \<open>oc' \<in> used1\<close> show False by (auto simp: set_numbered)
      qed
      then have "fs' ! i = fs1 ! i" by (rule IH_other)
      with i IH_len have "i \<in> set (numbered fs1 oc')" by (simp add: set_numbered)
      with oc'(3) show "i \<in> set g" by simp
    qed
    with oc' show ?thesis by blast
  qed
  have kept: "fs' ! i = fs ! i"
    if "\<forall>oc2 \<in> set (oc # ocs). \<forall>g \<in> set (drop 1 (partnerGroups orig (numbered orig oc2))). i \<notin> set g" for i
  proof -
    have "fs1 ! i = fs ! i" using that by (intro R_other) auto
    with IH_other [of i] that show ?thesis by simp
  qed
  have rest_ok: "\<exists>oc'. oc' \<notin> used \<and> fresh_number oc' \<and> set (numbered fs' oc') = set g"
    if "oc2 \<in> set ocs" "g \<in> set (drop 1 (partnerGroups orig (numbered orig oc2)))" for oc2 g
    using IH_group [OF that] R_used(1) by blast
  show ?case
  proof (intro conjI ballI allI impI)
    show "length fs' = length fs" using IH_len R_len by simp
    show "numbers fs' \<subseteq> used'" "used \<subseteq> used'" using IH_used R_used by blast+
  next
    fix i assume "\<forall>oc2 \<in> set (oc # ocs). \<forall>g \<in> set (drop 1 (partnerGroups orig (numbered orig oc2))). i \<notin> set g"
    then show "fs' ! i = fs ! i" by (rule kept)
  next
    fix oc2 g assume "oc2 \<in> set (oc # ocs)" "g \<in> set (drop 1 (partnerGroups orig (numbered orig oc2)))"
    then show "\<exists>oc'. oc' \<notin> used \<and> fresh_number oc' \<and> set (numbered fs' oc') = set g"
      using first_ok rest_ok by auto
  qed
qed simp

section \<open>Who shares a number afterwards\<close>

definition same_set :: "marc_field list \<Rightarrow> nat \<Rightarrow> nat \<Rightarrow> bool" where
  "same_set fs i j \<longleftrightarrow> (\<exists>oc. \<exists>g \<in> set (partnerGroups fs (numbered fs oc)). i \<in> set g \<and> j \<in> set g)"

lemma group_numbered:
  assumes "g \<in> set (partnerGroups fs (numbered fs oc))" "i \<in> set g"
  shows "i < length fs \<and> occ_of (fs ! i) = Some oc"
  using assms in_groups by blast

lemma group_unique:
  assumes "g \<in> set (partnerGroups fs (numbered fs oc))" "g' \<in> set (partnerGroups fs (numbered fs oc))" "i \<in> set g" "i \<in> set g'"
  shows "g = g'"
proof (rule ccontr)
  assume "g \<noteq> g'"
  have "distinct (concat (partnerGroups fs (numbered fs oc)))" by (rule partnerGroups_sets(2)) simp
  with assms \<open>g \<noteq> g'\<close> show False by (auto simp: distinct_concat_iff)
qed

lemma same_set_group:
  assumes "g \<in> set (partnerGroups fs (numbered fs oc))" "i \<in> set g"
  shows "same_set fs i j \<longleftrightarrow> j \<in> set g"
proof
  assume "same_set fs i j"
  then obtain oc' g' where g': "g' \<in> set (partnerGroups fs (numbered fs oc'))" "i \<in> set g'" "j \<in> set g'"
    by (auto simp: same_set_def)
  have "oc' = oc" using group_numbered [OF assms] group_numbered [OF g'(1,2)] by simp
  with group_unique [OF assms(1) _ assms(2) g'(2)] g' show "j \<in> set g" by simp
qed (use assms in \<open>auto simp: same_set_def\<close>)

lemma in_some_group:
  assumes "i < length fs" "occ_of (fs ! i) = Some oc"
  obtains g where "g \<in> set (partnerGroups fs (numbered fs oc))" "i \<in> set g"
  using assms in_groups by blast

text \<open>
  After the collisions are resolved, two linked fields have the same number exactly when they were
  in one partner set, or shared a number that no third field had.
\<close>

lemma resolved_classes:
  assumes res: "resolve_collisions fs (lr_byOccurrence (inspectLinkage fs)) (fs, lr_used (inspectLinkage fs))
      (lr_collisions (inspectLinkage fs)) = Inr (fs', used')"
    and i: "i < length fs" "occ_of (fs ! i) = Some oi" and j: "j < length fs" "occ_of (fs ! j) = Some oj"
  shows "occ_of (fs' ! i) \<noteq> None \<and>
    (occ_of (fs' ! i) = occ_of (fs' ! j) \<longleftrightarrow> same_set fs i j \<or> oi = oj \<and> length (numbered fs oi) \<le> 2)"
proof -
  define tails where "tails oc = drop 1 (partnerGroups fs (numbered fs oc))" for oc
  have used: "lr_used (inspectLinkage fs) = numbers fs" by (simp add: inspect_facts numbers_def)
  note S = resolve_collisions_spec [OF res inspect_facts(1), folded tails_def, unfolded used, OF order.refl order.refl refl
      inspect_facts(4) refl]
  note col = inspect_facts(3) [of _ fs]
  have kept: "fs' ! k = fs ! k" if "\<And>oc g. 2 < length (numbered fs oc) \<Longrightarrow> g \<in> set (tails oc) \<Longrightarrow> k \<notin> set g" for k
    using S that col by blast
  have moved: "\<exists>oc'. oc' \<notin> numbers fs \<and> set (numbered fs' oc') = set g"
    if "2 < length (numbered fs oc)" "g \<in> set (tails oc)" for oc g
    using S that col by blast
  have tail: "g \<in> set (partnerGroups fs (numbered fs oc))" if "g \<in> set (tails oc)" for g oc
    using that unfolding tails_def by (rule in_set_dropD)
  have main: "occ_of (fs' ! k) \<noteq> None \<and>
      (occ_of (fs' ! k) = occ_of (fs' ! l) \<longleftrightarrow> same_set fs k l \<or> ok = ol \<and> length (numbered fs ok) \<le> 2)"
    if k: "k < length fs" "occ_of (fs ! k) = Some ok" and l: "l < length fs" "occ_of (fs ! l) = Some ol"
      and g: "g \<in> set (tails ok)" "k \<in> set g" and big: "2 < length (numbered fs ok)" for k l ok ol g
  proof -
    obtain oc' where oc': "set (numbered fs' oc') = set g" using moved [OF big g(1)] by blast
    then have "occ_of (fs' ! k) = Some oc'" using g(2) by (auto simp: set_numbered)
    moreover have "occ_of (fs' ! l) = Some oc' \<longleftrightarrow> l \<in> set g" using oc' l(1) S by (auto simp: set_numbered)
    moreover have "\<not> length (numbered fs ok) \<le> 2" using big by simp
    ultimately show ?thesis using same_set_group [OF tail [OF g(1)] g(2), of l] by (metis option.distinct(1))
  qed
  have sym: "same_set fs k l \<longleftrightarrow> same_set fs l k" for k l by (auto simp: same_set_def)
  define stays where "stays k ok \<longleftrightarrow> length (numbered fs ok) \<le> 2 \<or> (\<forall>g \<in> set (tails ok). k \<notin> set g)" for k ok
  have stays: "fs' ! k = fs ! k" if "k < length fs" "occ_of (fs ! k) = Some ok" "stays k ok" for k ok
  proof (rule kept)
    fix oc g assume a: "2 < length (numbered fs oc)" "g \<in> set (tails oc)"
    show "k \<notin> set g"
    proof
      assume "k \<in> set g"
      with group_numbered [OF tail [OF a(2)]] that(2) have "oc = ok" by simp
      with a \<open>k \<in> set g\<close> that(3) show False by (auto simp: stays_def)
    qed
  qed
  show ?thesis
  proof (cases "stays i oi")
    case False
    then obtain g where "g \<in> set (tails oi)" "i \<in> set g" "2 < length (numbered fs oi)" by (auto simp: stays_def)
    from main [OF i j this] show ?thesis .
  next
    case si: True
    note ki = stays [OF i si]
    show ?thesis
    proof (cases "stays j oj")
      case False
      then obtain g where "g \<in> set (tails oj)" "j \<in> set g" "2 < length (numbered fs oj)" by (auto simp: stays_def)
      from main [OF j i this] have m: "occ_of (fs' ! j) = occ_of (fs' ! i) \<longleftrightarrow> same_set fs j i \<or> oj = oi \<and> length (numbered fs oj) \<le> 2"
        by (rule conjunct2)
      have "occ_of (fs' ! i) \<noteq> None" using ki i(2) by simp
      with m sym [of i j] show ?thesis by metis
    next
      case sj: True
      have "same_set fs i j" if eq: "oi = oj" and "2 < length (numbered fs oi)"
      proof -
        obtain g where g: "g \<in> set (partnerGroups fs (numbered fs oi))" "i \<in> set g" using in_some_group [OF i] .
        obtain g' where g': "g' \<in> set (partnerGroups fs (numbered fs oi))" "j \<in> set g'"
          using in_some_group [OF j [folded eq]] .
        have hd_of: "hd_of = g" if "g \<in> set (partnerGroups fs (numbered fs oi))" "g \<notin> set (tails oi)"
            "partnerGroups fs (numbered fs oi) = hd_of # more" for g hd_of more
          using that by (auto simp: tails_def)
        have nt: "g \<notin> set (tails oi)" "g' \<notin> set (tails oi)"
          using si sj g(2) g'(2) eq \<open>2 < length (numbered fs oi)\<close> by (auto simp: stays_def)
        have "g = g'"
        proof (cases "partnerGroups fs (numbered fs oi)")
          case (Cons h more)
          from hd_of [OF g(1) nt(1) Cons] hd_of [OF g'(1) nt(2) Cons] show ?thesis by simp
        qed (use g(1) in simp)
        with g g' show ?thesis unfolding same_set_def by blast
      qed
      moreover have "oi = oj" if same: "same_set fs i j"
      proof -
        obtain oc g where "g \<in> set (partnerGroups fs (numbered fs oc))" "i \<in> set g" "j \<in> set g"
          using same unfolding same_set_def by blast
        with group_numbered i(2) j(2) show ?thesis by fastforce
      qed
      ultimately show ?thesis using ki stays [OF j sj] i(2) j(2) by (metis not_le option.distinct(1) option.inject)
    qed
  qed
qed
section \<open>Nothing but the links changes\<close>

definition beyond_link :: "marc_field \<Rightarrow> marc_field" where
  "beyond_link f = (case f of ControlField _ _ _ \<Rightarrow> f
     | DataField t i sfs x \<Rightarrow> if linkageOf f = None then f else DataField t i (drop 1 sfs) x)"

definition only_links :: "marc_field list \<Rightarrow> marc_field list \<Rightarrow> bool" where
  "only_links fs fs' \<longleftrightarrow> length fs' = length fs \<and>
     (\<forall>i < length fs. beyond_link (fs' ! i) = beyond_link (fs ! i) \<and> (occ_of (fs ! i) = None \<longrightarrow> fs' ! i = fs ! i))"

lemma only_links_refl [simp]: "only_links fs fs"
  by (simp add: only_links_def)

lemma only_links_trans: "only_links fs gs \<Longrightarrow> only_links gs hs \<Longrightarrow> only_links fs hs"
  by (auto simp: only_links_def)

lemma beyond_link_with:
  assumes "linkageOf f = Some l" "two_digits oc"
  shows "beyond_link (withLinkage f (l\<lparr>lk_occurrence := oc\<rparr>)) = beyond_link f"
proof -
  have "wf_linkage (l\<lparr>lk_occurrence := oc\<rparr>)" using linkageOf_wf [OF assms(1)] assms(2) by (simp add: wf_linkage_def)
  from parse_format_occurrence [OF this] show ?thesis using assms(1)
    by (auto simp: beyond_link_def linkageOf_def withLinkage_def split: marc_field.splits list.splits if_splits)
qed

lemma only_links_set: "fresh_number oc \<Longrightarrow> only_links fs (setOccurrence oc i fs)"
  unfolding only_links_def
proof (intro conjI allI impI)
  fix j assume oc: "fresh_number oc" and j: "j < length fs"
  show "beyond_link (setOccurrence oc i fs ! j) = beyond_link (fs ! j)"
    using j beyond_link_with [OF _ fresh_number_digits(1) [OF oc]]
    by (cases "i = j") (auto simp: setOccurrence_def split: option.split)
  show "setOccurrence oc i fs ! j = fs ! j" if "occ_of (fs ! j) = None"
    using j that by (cases "i = j") (auto simp: setOccurrence_def occ_of_def split: option.splits if_splits)
qed simp

lemma only_links_fold: "fresh_number oc \<Longrightarrow> only_links fs (fold (setOccurrence oc) g fs)"
  by (induction g arbitrary: fs) (auto intro: only_links_trans only_links_set)

lemma only_links_groups: "renumber_groups st gs = Inr st' \<Longrightarrow> only_links (fst st) (fst st')"
proof (induction st gs rule: renumber_groups.induct)
  case (2 fs used g gs)
  from "2.prems" obtain fresh where al: "allocateOccurrence used = Inr fresh"
    and rec: "renumber_groups (fold (setOccurrence fresh) g fs, insert fresh used) gs = Inr st'"
    by (auto simp: bind_res_Inr_iff)
  from only_links_trans [OF only_links_fold [OF allocate_fresh(2) [OF al]]] "2.IH" [OF al rec] show ?case by simp
qed simp

lemma only_links_resolve: "resolve_collisions orig by st ocs = Inr st' \<Longrightarrow> only_links (fst st) (fst st')"
proof (induction orig "by" st ocs rule: resolve_collisions.induct)
  case (2 orig "by" st oc ocs)
  from "2.prems" obtain st1 where first: "renumber_groups st
        (drop 1 (partnerGroups orig (case map_of by oc of None \<Rightarrow> [] | Some is \<Rightarrow> is))) = Inr st1"
    and rec: "resolve_collisions orig by st1 ocs = Inr st'"
    unfolding resolve_collisions.simps by (rule bind_res_InrE)
  show ?case by (rule only_links_trans [OF only_links_groups [OF first] "2.IH" [OF first rec]])
qed simp

section \<open>Dense numbers\<close>

lemma format_pos_inj: "format_pos m = format_pos n \<Longrightarrow> m = n"
  by (metis number_of_pos)

definition renamed :: "(utext \<rightharpoonup> utext) \<Rightarrow> marc_field \<Rightarrow> marc_field \<Rightarrow> bool" where
  "renamed a f g \<longleftrightarrow> (case occ_of f of None \<Rightarrow> g = f | Some oc \<Rightarrow> a oc \<noteq> None \<and> occ_of g = a oc)"

definition dense :: "(utext \<rightharpoonup> utext) \<Rightarrow> nat \<Rightarrow> bool" where
  "dense a next \<longleftrightarrow> 1 \<le> next \<and> next \<le> 100 \<and> ran a = format_pos ` {1..<next} \<and> inj_on a (dom a)"

lemma dense_update:
  assumes "dense a next" "a oc = None" "next \<le> 99"
  shows "dense (a(oc \<mapsto> format_pos next)) (Suc next)"
proof -
  have "format_pos next \<notin> ran a" using assms(1) format_pos_inj by (fastforce simp: dense_def)
  moreover have "inj_on a (dom a - {oc})" using assms(1) by (auto simp: dense_def intro: inj_on_subset)
  ultimately have "inj_on (a(oc \<mapsto> format_pos next)) (dom (a(oc \<mapsto> format_pos next)))"
    using assms(2) by (auto simp: inj_on_def ran_def dom_def)
  then show ?thesis using assms by (auto simp: dense_def atLeastLessThanSuc)
qed

lemma dense_fresh: "dense a next \<Longrightarrow> a oc = Some x \<Longrightarrow> fresh_number x"
  by (auto simp: dense_def fresh_number_def ran_def set_eq_iff) (metis atLeastLessThan_iff image_iff less_le_trans)

lemma compact_loop_spec:
  assumes "compact_loop a next gs is = Inr fs'" "length gs = length fs" "distinct is" "set is \<subseteq> {..<length fs}"
    and "\<And>i. i \<in> set is \<Longrightarrow> gs ! i = fs ! i"
    and "\<And>i. i < length fs \<Longrightarrow> i \<notin> set is \<Longrightarrow> renamed a (fs ! i) (gs ! i)"
    and "dense a next" "dom a \<subseteq> numbers fs" "only_links fs gs"
  shows "\<exists>b m. dense b m \<and> dom b \<subseteq> numbers fs \<and> only_links fs fs' \<and> (\<forall>i < length fs. renamed b (fs ! i) (fs' ! i))"
  using assms
proof (induction "is" arbitrary: a "next" gs)
  case Nil
  from Nil.prems(1) have "fs' = gs" by simp
  with Nil.prems(6-9) show ?case by (intro exI [of _ a] exI [of _ "next"]) simp
next
  case (Cons i "is")
  have i: "i < length fs" "gs ! i = fs ! i" "i \<notin> set is" using Cons.prems(3,4,5) by auto
  have after: "renamed b (fs ! k) (gs' ! k)"
    if "a \<subseteq>\<^sub>m b" "\<And>k. k \<noteq> i \<Longrightarrow> gs' ! k = gs ! k" "renamed b (fs ! i) (gs' ! i)" "k < length fs" "k \<notin> set is" for b gs' k
  proof (cases "k = i")
    case False
    then have "renamed a (fs ! k) (gs ! k)" using Cons.prems(6) [of k] that(4,5) by simp
    with that(1,2) False show ?thesis by (auto simp: renamed_def map_le_def dom_def split: option.splits)
  qed (use that in simp)
  have sub: "distinct is" "set is \<subseteq> {..<length fs}" using Cons.prems(3,4) by auto
  show ?case
  proof (cases "occ_of (fs ! i)")
    case None
    then have run: "compact_loop a next gs is = Inr fs'"
      using Cons.prems(1) i by (auto simp: occ_of_def split: option.splits if_splits)
    have ren: "renamed a (fs ! i) (gs ! i)" using None i by (simp add: renamed_def)
    show ?thesis
    proof (rule Cons.IH [OF run Cons.prems(2) sub _ _ Cons.prems(7,8,9)])
      fix k assume "k \<in> set is"
      then show "gs ! k = fs ! k" by (intro Cons.prems(5)) simp
    next
      fix k assume "k < length fs" "k \<notin> set is"
      with after [of a gs k] ren show "renamed a (fs ! k) (gs ! k)" by simp
    qed
  next
    case (Some oc)
    then obtain l where l: "linkageOf (gs ! i) = Some l" "lk_occurrence l = oc" "oc \<noteq> UNLINKED_OCCURRENCE"
      using i by (auto simp: occ_of_def split: option.splits if_splits)
    have num: "oc \<in> numbers fs" using Some i by (auto simp: in_numbers)
    have set: "occ_of (setOccurrence x i gs ! i) = Some x" if "fresh_number x" for x
      using setOccurrence_occ [of i gs x] that Some i Cons.prems(2) by simp
    have step: ?thesis if "compact_loop b m (setOccurrence x i gs) is = Inr fs'" "dense b m" "a \<subseteq>\<^sub>m b"
        "dom b \<subseteq> numbers fs" "b oc = Some x" for b m x
    proof -
      have x: "fresh_number x" by (rule dense_fresh [OF that(2,5)])
      have ren: "renamed b (fs ! i) (setOccurrence x i gs ! i)" using Some that(5) set [OF x] by (simp add: renamed_def)
      have links: "only_links fs (setOccurrence x i gs)"
        using only_links_trans [OF Cons.prems(9) only_links_set [OF x]] .
      have len: "length (setOccurrence x i gs) = length fs" using Cons.prems(2) by simp
      show ?thesis
      proof (rule Cons.IH [OF that(1) len sub _ _ that(2,4) links])
        fix k assume k: "k \<in> set is"
        with i(3) have "k \<noteq> i" by auto
        with k show "setOccurrence x i gs ! k = fs ! k" using Cons.prems(5) [of k] by simp
      next
        fix k assume "k < length fs" "k \<notin> set is"
        with after [OF that(3) _ ren] show "renamed b (fs ! k) (setOccurrence x i gs ! k)" by simp
      qed
    qed
    show ?thesis
    proof (cases "a oc")
      case (Some x)
      have "compact_loop a next (setOccurrence x i gs) is = Inr fs'" using Cons.prems(1) l Some by simp
      from step [OF this Cons.prems(7) map_le_refl Cons.prems(8) Some] show ?thesis .
    next
      case None
      with Cons.prems(1) l have "next \<le> 99"
        and run: "compact_loop (a(oc \<mapsto> format_pos next)) (Suc next) (setOccurrence (format_pos next) i gs) is = Inr fs'"
        by (auto split: if_splits)
      show ?thesis
      proof (rule step [OF run dense_update [OF Cons.prems(7) None \<open>next \<le> 99\<close>]])
        show "a \<subseteq>\<^sub>m a(oc \<mapsto> format_pos next)" using None by (auto simp: map_le_def)
        show "dom (a(oc \<mapsto> format_pos next)) \<subseteq> numbers fs" using Cons.prems(8) num by simp
      qed simp
    qed
  qed
qed

text \<open>
  Under either policy: two linked fields end with the same number exactly when they were in one
  partner set, or shared a number that no third field had; nothing but links changes.
\<close>

definition share_after :: "marc_field list \<Rightarrow> nat \<Rightarrow> nat \<Rightarrow> bool" where
  "share_after fs i j \<longleftrightarrow> same_set fs i j \<or>
     occ_of (fs ! i) = occ_of (fs ! j) \<and> length (numbered fs (the (occ_of (fs ! i)))) \<le> 2"

theorem normalizeLinkage_classes:
  assumes "normalizeLinkage p r = Inr r'"
  shows "mr_leader r' = mr_leader r \<and> only_links (mr_fields r) (mr_fields r')"
    and "\<lbrakk>i < length (mr_fields r); j < length (mr_fields r); occ_of (mr_fields r ! i) \<noteq> None; occ_of (mr_fields r ! j) \<noteq> None\<rbrakk> \<Longrightarrow>
      occ_of (mr_fields r' ! i) \<noteq> None \<and>
      (occ_of (mr_fields r' ! i) = occ_of (mr_fields r' ! j) \<longleftrightarrow> share_after (mr_fields r) i j)"
proof -
  let ?fs = "mr_fields r" and ?rep = "inspectLinkage (mr_fields r)"
  have goal: "mr_leader r' = mr_leader r \<and> only_links ?fs (mr_fields r') \<and>
    (\<forall>i < length ?fs. \<forall>j < length ?fs. occ_of (?fs ! i) \<noteq> None \<longrightarrow> occ_of (?fs ! j) \<noteq> None \<longrightarrow>
      occ_of (mr_fields r' ! i) \<noteq> None \<and> (occ_of (mr_fields r' ! i) = occ_of (mr_fields r' ! j) \<longleftrightarrow> share_after ?fs i j))"
  proof (cases "p = Repair \<and> lr_collisions ?rep = []")
    case True
    then have r: "r' = r" using assms by (simp add: normalizeLinkage_def)
    have small: "length (numbered ?fs oc) \<le> 2" for oc
      using True inspect_facts(3) [of oc ?fs] by simp
    have "occ_of (?fs ! i) = occ_of (?fs ! j)" if "same_set ?fs i j" for i j
      using that group_numbered by (fastforce simp: same_set_def)
    with small show ?thesis by (auto simp: r share_after_def)
  next
    case False
    then have "bind_res (resolve_collisions ?fs (lr_byOccurrence ?rep) (?fs, lr_used ?rep) (lr_collisions ?rep))
       (\<lambda>(fs, used). if p = Repair then Inr (r\<lparr>mr_fields := fs\<rparr>)
         else bind_res (compact_loop Map.empty 1 fs [0..<length fs]) (\<lambda>fs'. Inr (r\<lparr>mr_fields := fs'\<rparr>))) = Inr r'"
      using assms by (simp only: normalizeLinkage_def Let_def if_False)
    then obtain fs1 used1 where res: "resolve_collisions ?fs (lr_byOccurrence ?rep) (?fs, lr_used ?rep) (lr_collisions ?rep) = Inr (fs1, used1)"
      and fin: "(if p = Repair then Inr (r\<lparr>mr_fields := fs1\<rparr>)
         else bind_res (compact_loop Map.empty 1 fs1 [0..<length fs1]) (\<lambda>fs'. Inr (r\<lparr>mr_fields := fs'\<rparr>))) = Inr r'"
      by (elim bind_res_InrE) (simp add: split_paired_all)
    have links: "only_links ?fs fs1" using only_links_resolve [OF res] by simp
    then have len: "length fs1 = length ?fs" by (simp add: only_links_def)
    have classes: "occ_of (fs1 ! i) \<noteq> None \<and> (occ_of (fs1 ! i) = occ_of (fs1 ! j) \<longleftrightarrow> share_after ?fs i j)"
      if "i < length ?fs" "j < length ?fs" "occ_of (?fs ! i) \<noteq> None" "occ_of (?fs ! j) \<noteq> None" for i j
      using resolved_classes [OF res that(1) _ that(2)] that(3,4) by (auto simp: share_after_def)
    show ?thesis
    proof (cases "p = Repair")
      case True
      with fin have "r' = r\<lparr>mr_fields := fs1\<rparr>" by simp
      with links classes show ?thesis by simp
    next
      case comp: False
      then obtain fs2 where run: "compact_loop Map.empty 1 fs1 [0..<length fs1] = Inr fs2" and r': "r' = r\<lparr>mr_fields := fs2\<rparr>"
        using fin by (auto simp: bind_res_Inr_iff)
      have "\<exists>b m. dense b m \<and> dom b \<subseteq> numbers fs1 \<and> only_links fs1 fs2 \<and> (\<forall>i < length fs1. renamed b (fs1 ! i) (fs2 ! i))"
        by (rule compact_loop_spec [OF run]) (auto simp: dense_def)
      then obtain b m where b: "dense b m" "only_links fs1 fs2" "\<And>i. i < length fs1 \<Longrightarrow> renamed b (fs1 ! i) (fs2 ! i)"
        by blast
      have same: "occ_of (fs2 ! i) \<noteq> None \<and> (occ_of (fs2 ! i) = occ_of (fs2 ! j) \<longleftrightarrow> occ_of (fs1 ! i) = occ_of (fs1 ! j))"
        if ij: "i < length fs1" "j < length fs1" "occ_of (fs1 ! i) \<noteq> None" "occ_of (fs1 ! j) \<noteq> None" for i j
      proof -
        obtain oi oj where o: "occ_of (fs1 ! i) = Some oi" "occ_of (fs1 ! j) = Some oj" using ij by auto
        have "b oi \<noteq> None" "occ_of (fs2 ! i) = b oi" "b oj \<noteq> None" "occ_of (fs2 ! j) = b oj"
          using b(3) [OF ij(1)] b(3) [OF ij(2)] o by (simp_all add: renamed_def)
        moreover have "b oi = b oj \<longleftrightarrow> oi = oj"
          using b(1) calculation by (auto simp: dense_def inj_on_def dom_def)
        ultimately show ?thesis by (simp add: o)
      qed
      have "only_links ?fs fs2" by (rule only_links_trans [OF links b(2)])
      moreover have "occ_of (fs2 ! i) \<noteq> None \<and> (occ_of (fs2 ! i) = occ_of (fs2 ! j) \<longleftrightarrow> share_after ?fs i j)"
        if "i < length ?fs" "j < length ?fs" "occ_of (?fs ! i) \<noteq> None" "occ_of (?fs ! j) \<noteq> None" for i j
        using classes [OF that] classes [OF that(2,1,4,3)] same [of i j] len that by metis
      ultimately show ?thesis by (simp add: r')
    qed
  qed
  then show "mr_leader r' = mr_leader r \<and> only_links ?fs (mr_fields r')" by blast
  from goal show "\<lbrakk>i < length ?fs; j < length ?fs; occ_of (?fs ! i) \<noteq> None; occ_of (?fs ! j) \<noteq> None\<rbrakk> \<Longrightarrow>
      occ_of (mr_fields r' ! i) \<noteq> None \<and> (occ_of (mr_fields r' ! i) = occ_of (mr_fields r' ! j) \<longleftrightarrow> share_after ?fs i j)"
    by blast
qed

lemma same_set_occ: "same_set fs i j \<Longrightarrow> occ_of (fs ! i) = occ_of (fs ! j)"
  using group_numbered by (fastforce simp: same_set_def)

text \<open>So no number is left with more than two fields, and a second repair finds nothing to do.\<close>

theorem normalizeLinkage_no_collisions:
  assumes "normalizeLinkage p r = Inr r'"
  shows "lr_collisions (inspectLinkage (mr_fields r')) = []"
proof (rule ccontr)
  let ?fs = "mr_fields r" and ?fs' = "mr_fields r'"
  assume "\<not> ?thesis"
  then obtain oc where big: "2 < length (numbered ?fs' oc)" using inspect_facts(3) [of _ ?fs'] by (metis list.set_intros(1) neq_Nil_conv)
  let ?S = "set (numbered ?fs' oc)"
  have card: "2 < card ?S" using big by (simp add: distinct_card)
  note N = normalizeLinkage_classes [OF assms]
  have len: "length ?fs' = length ?fs" using N(1) by (simp add: only_links_def)
  have S: "k < length ?fs \<and> occ_of (?fs' ! k) = Some oc \<and> occ_of (?fs ! k) \<noteq> None" if "k \<in> ?S" for k
    using that len N(1) by (auto simp: set_numbered only_links_def)
  obtain i where i: "i \<in> ?S" using card by (metis card.empty equals0I not_less_zero)
  obtain oi where oi: "occ_of (?fs ! i) = Some oi" using S [OF i] by auto
  have share: "share_after ?fs i j" if "j \<in> ?S" for j
    using N(2) [of i j] S [OF i] S [OF that] by simp
  show False
  proof (cases "length (numbered ?fs oi) \<le> 2")
    case True
    have "?S \<subseteq> set (numbered ?fs oi)"
    proof
      fix j assume j: "j \<in> ?S"
      have "occ_of (?fs ! j) = Some oi" using share [OF j] same_set_occ oi by (fastforce simp: share_after_def)
      with S [OF j] show "j \<in> set (numbered ?fs oi)" by (simp add: set_numbered)
    qed
    then have "card ?S \<le> length (numbered ?fs oi)" by (metis card_length card_mono finite_set le_trans)
    with card True show False by simp
  next
    case False
    obtain g where g: "g \<in> set (partnerGroups ?fs (numbered ?fs oi))" "i \<in> set g"
      using in_some_group [OF _ oi] S [OF i] by blast
    have "?S \<subseteq> set g"
      using share False oi same_set_group [OF g] by (auto simp: share_after_def)
    then have "card ?S \<le> length g" by (metis card_length card_mono finite_set le_trans)
    with card partnerGroups_size [OF g(1)] show False by simp
  qed
qed

corollary repair_settles:
  assumes "normalizeLinkage p r = Inr r'"
  shows "normalizeLinkage Repair r' = Inr r'"
  using normalizeLinkage_no_collisions [OF assms] by (simp add: normalizeLinkage_def)

lemma field_tag_beyond_link [simp]: "field_tag (beyond_link f) = field_tag f"
  by (simp add: beyond_link_def split: marc_field.split)

lemma only_links_tags: "only_links fs fs' \<Longrightarrow> map field_tag fs' = map field_tag fs"
proof (rule nth_equalityI)
  fix i assume links: "only_links fs fs'" and "i < length (map field_tag fs')"
  then have "beyond_link (fs' ! i) = beyond_link (fs ! i)" "i < length fs" "i < length fs'" by (simp_all add: only_links_def)
  then show "map field_tag fs' ! i = map field_tag fs ! i"
    using field_tag_beyond_link [of "fs' ! i"] by simp
qed (simp add: only_links_def)

text \<open>
  What the module promises, that a number names at most one partner set, does not follow: two fields
  that are not partners and share a number are not seen as a collision.
\<close>

definition strangers :: marc_record where
  "strangers = \<lparr>mr_leader = [], mr_fields = [DataField (text_of ''245'') [32, 32] [(text_of ''6'', text_of ''880-01'')] [],
     DataField (text_of ''100'') [32, 32] [(text_of ''6'', text_of ''880-01'')] []]\<rparr>"

lemma strangers_keep_their_number:
  "normalizeLinkage Repair strangers = Inr strangers" "\<not> same_set (mr_fields strangers) 0 1"
proof -
  show "normalizeLinkage Repair strangers = Inr strangers" by code_simp
  have num: "numbered (mr_fields strangers) (text_of ''01'') = [0, 1]" by code_simp
  have grp: "partnerGroups (mr_fields strangers) [0, 1] = [[0], [1]]" by code_simp
  have occ: "occ_of (mr_fields strangers ! 0) = Some (text_of ''01'')" by code_simp
  have g: "[0] \<in> set (partnerGroups (mr_fields strangers) (numbered (mr_fields strangers) (text_of ''01'')))"
    by (simp only: num grp) simp
  from same_set_group [OF g, of 0 1] show "\<not> same_set (mr_fields strangers) 0 1" by simp
qed
end
