(* ===== verification/Marc_Ops.thy ===== *)
theory Marc_Ops
  imports Linkage
begin

text \<open>
  The edits of a MARC record (\<open>packages/marc/src/ops.ts\<close>): the eight operations, the inverse of one,
  and applying a batch. The working copies of the fields are a list in the order of the record, so
  the identity of an entry is its original index. Positions are integers, as a request can send a
  negative one. The text of an error is not modelled, its code is.
\<close>

section \<open>Operations\<close>

datatype marc_op =
    InsertField (op_at: int) (op_field: marc_field)
  | DeleteField (op_at: int) (op_field: marc_field)
  | MoveField (op_move_from: int) (op_move_to: int)
  | SetIndicators (op_path: utext) (op_from: utext) (op_to: utext)
  | SetTag (op_at: int) (op_from: utext) (op_to: utext)
  | InsertSubfield (op_path: utext) (op_at: int) (op_subfield: subfield)
  | DeleteSubfield (op_path: utext) (op_at: int) (op_subfield: subfield)
  | SetValue (op_path: utext) (op_from: utext) (op_to: utext)

primrec invert :: "marc_op \<Rightarrow> marc_op" where
  "invert (InsertField i f) = DeleteField i f"
| "invert (DeleteField i f) = InsertField i f"
| "invert (MoveField a b) = MoveField b a"
| "invert (SetIndicators p a b) = SetIndicators p b a"
| "invert (SetTag i a b) = SetTag i b a"
| "invert (InsertSubfield p i s) = DeleteSubfield p i s"
| "invert (DeleteSubfield p i s) = InsertSubfield p i s"
| "invert (SetValue p a b) = SetValue p b a"

record apply_options =
  ao_linkage :: "linkage_policy option"
  ao_unchecked :: bool

record entry =
  en_field :: marc_field
  en_deleted :: bool

record staged_insert =
  in_at :: int
  in_field :: marc_field
  in_seq :: nat

record edit_state =
  es_entries :: "entry list"
  es_leader :: utext
  es_inserts :: "staged_insert list"
  es_moves :: "(nat \<times> nat) list"
  es_retags :: "(nat \<times> utext) list"

section \<open>Ranges of a value\<close>

definition pad_units :: "nat \<Rightarrow> utext \<Rightarrow> utext" where
  "pad_units w t = t @ replicate (w - length t) 32"

definition check :: "apply_options \<Rightarrow> utext \<Rightarrow> utext \<Rightarrow> edit_error + unit" where
  "check opts actual expected =
     (if ao_unchecked opts \<or> actual = pad_units (length actual) expected then Inr () else Inl PreconditionFailed)"

text \<open>Where a range ends, exclusively, when it is read and when it is written.\<close>

definition read_stop :: "utext \<Rightarrow> char_range \<Rightarrow> nat" where
  "read_stop v r = (case cr_to r of EndLast \<Rightarrow> length v | EndAt e \<Rightarrow> Suc e)"

definition write_stop :: "utext \<Rightarrow> char_range \<Rightarrow> nat" where
  "write_stop v r = (case cr_to r of EndLast \<Rightarrow> max (length v) (Suc (cr_from r)) | EndAt e \<Rightarrow> Suc e)"

definition readRange :: "utext \<Rightarrow> char_range option \<Rightarrow> utext" where
  "readRange v rng = (case rng of None \<Rightarrow> v
     | Some r \<Rightarrow> pad_units (read_stop v r - cr_from r) (slice (cr_from r) (read_stop v r) v))"

definition writeRange :: "utext \<Rightarrow> utext \<Rightarrow> char_range option \<Rightarrow> edit_error + utext" where
  "writeRange v new rng = (case rng of None \<Rightarrow> Inr new
     | Some r \<Rightarrow> (let stop = write_stop v r; width = stop - cr_from r; padded = pad_units stop v in
         if width < length new then Inl ValueTooLong
         else Inr (take (cr_from r) padded @ pad_units width new @ drop stop padded)))"

section \<open>Lists by index\<close>

definition nth_int :: "'a list \<Rightarrow> int \<Rightarrow> 'a option" where
  "nth_int xs i = (if 0 \<le> i \<and> i < int (length xs) then Some (xs ! nat i) else None)"

definition insert_at :: "nat \<Rightarrow> 'a \<Rightarrow> 'a list \<Rightarrow> 'a list" where
  "insert_at k x xs = take k xs @ x # drop k xs"

definition remove_at :: "nat \<Rightarrow> 'a list \<Rightarrow> 'a list" where
  "remove_at k xs = take k xs @ drop (Suc k) xs"

text \<open>The index of the element that satisfies \<open>P\<close> after \<open>k\<close> others that do.\<close>

fun find_occ :: "('a \<Rightarrow> bool) \<Rightarrow> nat \<Rightarrow> 'a list \<Rightarrow> nat option" where
  "find_occ P k [] = None"
| "find_occ P k (x # xs) =
     (if \<not> P x then map_option Suc (find_occ P k xs)
      else if k = 0 then Some 0 else map_option Suc (find_occ P (k - 1) xs))"

section \<open>One operation\<close>

definition sameField :: "marc_field \<Rightarrow> marc_field \<Rightarrow> bool" where
  "sameField a b \<longleftrightarrow> field_tag a = field_tag b \<and> (case (a, b) of
       (ControlField _ v _, ControlField _ w _) \<Rightarrow> v = w
     | (DataField _ i s _, DataField _ j t _) \<Rightarrow> i = j \<and> length s = length t \<and> list_all2 (=) s t
     | _ \<Rightarrow> False)"

definition index_at :: "path_index \<Rightarrow> nat" where
  "index_at i = (case i of IndexAt n \<Rightarrow> n | _ \<Rightarrow> 0)"

definition resolveField :: "entry list \<Rightarrow> utext \<Rightarrow> edit_error + nat \<times> field_path" where
  "resolveField es pathText = bind_res (parseOpPath pathText) (\<lambda>path. case path of
       LeaderPath _ \<Rightarrow> Inl PathNotAField
     | FieldPath p \<Rightarrow> (case find_occ (\<lambda>e. field_tag (en_field e) = fp_tag p) (index_at (fp_occ p)) es of
         None \<Rightarrow> Inl PathNotFound | Some k \<Rightarrow> Inr (k, p)))"

definition set_field :: "nat \<Rightarrow> marc_field \<Rightarrow> edit_state \<Rightarrow> edit_state" where
  "set_field k f st = st\<lparr>es_entries := (es_entries st)[k := (es_entries st ! k)\<lparr>en_field := f\<rparr>]\<rparr>"

definition live_entry :: "entry list \<Rightarrow> int \<Rightarrow> entry option" where
  "live_entry es i = (case nth_int es i of None \<Rightarrow> None | Some e \<Rightarrow> if en_deleted e then None else Some e)"

definition set_subfield :: "apply_options \<Rightarrow> sub_path \<Rightarrow> utext \<Rightarrow> utext \<Rightarrow> subfield list \<Rightarrow> edit_error + subfield list" where
  "set_subfield opts sp old new s = (case find_occ (\<lambda>sf. fst sf = sp_code sp) (index_at (sp_occ sp)) s of
       None \<Rightarrow> Inl PathNotFound
     | Some k \<Rightarrow> (let current = snd (s ! k); chars = sp_chars sp in
         if (case chars of None \<Rightarrow> False | Some r \<Rightarrow> length current < read_stop current r) then Inl IndexOutOfRange
         else bind_res (check opts (readRange current chars) old) (\<lambda>_.
           bind_res (writeRange current new chars) (\<lambda>v. Inr (s[k := (sp_code sp, v)])))))"

definition set_value :: "apply_options \<Rightarrow> field_path \<Rightarrow> utext \<Rightarrow> utext \<Rightarrow> marc_field \<Rightarrow> edit_error + marc_field" where
  "set_value opts p old new f = (case fp_sub p of
       Some sp \<Rightarrow> (case f of ControlField _ _ _ \<Rightarrow> Inl NotADataField
         | DataField t i s x \<Rightarrow> bind_res (set_subfield opts sp old new s) (\<lambda>s'. Inr (DataField t i s' x)))
     | None \<Rightarrow> (case f of DataField _ _ _ _ \<Rightarrow> Inl NotAControlField
         | ControlField t v x \<Rightarrow> bind_res (check opts (readRange v (fp_chars p)) old) (\<lambda>_.
             bind_res (writeRange v new (fp_chars p)) (\<lambda>w. Inr (ControlField t w x)))))"

fun apply_op :: "apply_options \<Rightarrow> nat \<Rightarrow> marc_op \<Rightarrow> edit_state \<Rightarrow> edit_error + edit_state" where
  "apply_op opts seq (InsertField at f) st =
     (if at < 0 \<or> int (length (es_entries st)) < at then Inl IndexOutOfRange
      else Inr (st\<lparr>es_inserts := es_inserts st @ [\<lparr>in_at = at, in_field = f, in_seq = seq\<rparr>]\<rparr>))"
| "apply_op opts seq (DeleteField at f) st = (case live_entry (es_entries st) at of
       None \<Rightarrow> Inl IndexOutOfRange
     | Some e \<Rightarrow> if \<not> ao_unchecked opts \<and> \<not> sameField (en_field e) f then Inl PreconditionFailed
         else Inr (st\<lparr>es_entries := (es_entries st)[nat at := e\<lparr>en_deleted := True\<rparr>]\<rparr>))"
| "apply_op opts seq (MoveField from to) st = (case nth_int (es_entries st) from of
       None \<Rightarrow> Inl IndexOutOfRange
     | Some e \<Rightarrow> if to < 0 \<or> int (length (es_entries st)) \<le> to then Inl IndexOutOfRange
         else Inr (st\<lparr>es_moves := es_moves st @ [(nat from, nat to)]\<rparr>))"
| "apply_op opts seq (SetTag at from to) st = (case live_entry (es_entries st) at of
       None \<Rightarrow> Inl IndexOutOfRange
     | Some e \<Rightarrow> bind_res (check opts (field_tag (en_field e)) from) (\<lambda>_.
         if length to \<noteq> 3 then Inl NewTagInvalid
         else Inr (st\<lparr>es_retags := es_retags st @ [(nat at, to)]\<rparr>)))"
| "apply_op opts seq (SetIndicators path from to) st = bind_res (resolveField (es_entries st) path) (\<lambda>(k, p).
     case en_field (es_entries st ! k) of ControlField _ _ _ \<Rightarrow> Inl NotADataField
     | DataField t i s x \<Rightarrow> bind_res (check opts i from) (\<lambda>_.
         if length to \<noteq> 2 then Inl IndicatorsInvalid else Inr (set_field k (DataField t to s x) st)))"
| "apply_op opts seq (InsertSubfield path at sf) st = bind_res (resolveField (es_entries st) path) (\<lambda>(k, p).
     case en_field (es_entries st ! k) of ControlField _ _ _ \<Rightarrow> Inl NotADataField
     | DataField t i s x \<Rightarrow> if at < 0 \<or> int (length s) < at then Inl IndexOutOfRange
         else Inr (set_field k (DataField t i (insert_at (nat at) sf s) x) st))"
| "apply_op opts seq (DeleteSubfield path at sf) st = bind_res (resolveField (es_entries st) path) (\<lambda>(k, p).
     case en_field (es_entries st ! k) of ControlField _ _ _ \<Rightarrow> Inl NotADataField
     | DataField t i s x \<Rightarrow> (case nth_int s at of None \<Rightarrow> Inl IndexOutOfRange
         | Some found \<Rightarrow> if \<not> ao_unchecked opts \<and> found \<noteq> sf then Inl PreconditionFailed
             else Inr (set_field k (DataField t i (remove_at (nat at) s) x) st)))"
| "apply_op opts seq (SetValue path from to) st = bind_res (parseOpPath path) (\<lambda>p. case p of
       LeaderPath chars \<Rightarrow> bind_res (check opts (readRange (es_leader st) chars) from) (\<lambda>_.
         bind_res (writeRange (es_leader st) to chars) (\<lambda>l. Inr (st\<lparr>es_leader := l\<rparr>)))
     | FieldPath _ \<Rightarrow> bind_res (resolveField (es_entries st) path) (\<lambda>(k, fp).
         bind_res (set_value opts fp from to (en_field (es_entries st ! k))) (\<lambda>f. Inr (set_field k f st))))"

section \<open>A batch\<close>

fun run_ops :: "apply_options \<Rightarrow> nat \<Rightarrow> marc_op list \<Rightarrow> edit_state \<Rightarrow> edit_error + edit_state" where
  "run_ops opts seq [] st = Inr st"
| "run_ops opts seq (op # ops) st = bind_res (apply_op opts seq op st) (run_ops opts (Suc seq) ops)"

definition start_state :: "marc_record \<Rightarrow> edit_state" where
  "start_state r = \<lparr>es_entries = map (\<lambda>f. \<lparr>en_field = f, en_deleted = False\<rparr>) (mr_fields r),
     es_leader = mr_leader r, es_inserts = [], es_moves = [], es_retags = []\<rparr>"

definition with_tag :: "utext \<Rightarrow> marc_field \<Rightarrow> marc_field" where
  "with_tag t f = (case f of ControlField _ v x \<Rightarrow> ControlField t v x | DataField _ i s x \<Rightarrow> DataField t i s x)"

definition retag :: "nat \<times> utext \<Rightarrow> entry list \<Rightarrow> entry list" where
  "retag = (\<lambda>(k, t) es. es[k := (es ! k)\<lparr>en_field := with_tag t (en_field (es ! k))\<rparr>])"

definition survivors :: "entry list \<Rightarrow> nat list" where
  "survivors es = filter (\<lambda>i. \<not> en_deleted (es ! i)) [0..<length es]"

definition move_entry :: "entry list \<Rightarrow> nat \<times> nat \<Rightarrow> nat list \<Rightarrow> nat list" where
  "move_entry es = (\<lambda>(from, to) xs. if en_deleted (es ! from) then xs
     else (case index_of from xs of None \<Rightarrow> xs
       | Some k \<Rightarrow> (let rest = remove_at k xs in insert_at (min to (length rest)) from rest)))"

definition compare_inserts :: "staged_insert \<Rightarrow> staged_insert \<Rightarrow> int" where
  "compare_inserts a b = (if in_at a \<noteq> in_at b then in_at a - in_at b else int (in_seq a) - int (in_seq b))"

fun lay_out :: "entry list \<Rightarrow> nat list \<Rightarrow> staged_insert list \<Rightarrow> marc_field list" where
  "lay_out es [] ins = map in_field ins"
| "lay_out es (i # is) ins = map in_field (takeWhile (\<lambda>s. in_at s \<le> int i) ins) @ [en_field (es ! i)] @
     lay_out es is (dropWhile (\<lambda>s. in_at s \<le> int i) ins)"

definition rebuild :: "edit_state \<Rightarrow> marc_record" where
  "rebuild st = (let es = fold retag (es_retags st) (es_entries st);
       xs = fold (move_entry es) (es_moves st) (survivors es);
       ordered = js_sort compare_inserts (es_inserts st)
     in \<lparr>mr_leader = es_leader st, mr_fields = lay_out es xs ordered\<rparr>)"

definition edit_batch :: "apply_options \<Rightarrow> marc_record \<Rightarrow> marc_op list \<Rightarrow> edit_error + marc_record" where
  "edit_batch opts r ops = bind_res (run_ops opts 0 ops (start_state r)) (\<lambda>st. Inr (rebuild st))"

definition applyOps :: "apply_options \<Rightarrow> marc_record \<Rightarrow> marc_op list \<Rightarrow> edit_error + marc_record" where
  "applyOps opts r ops = bind_res (edit_batch opts r ops)
     (normalizeLinkage (case ao_linkage opts of None \<Rightarrow> Repair | Some p \<Rightarrow> p))"

end
