(* ===== verification/Marc_Inverse.thy ===== *)
theory Marc_Inverse
  imports Marc_Ops
begin

text \<open>
  What one edit does, and that its inverse takes it back (\<open>packages/marc/src/ops.ts\<close>): for an edit
  that says exactly what it replaces, inside the value it addresses, and does not upset the links.
  The end of the theory shows edits that are accepted and are not taken back.
\<close>

section \<open>Lists by index\<close>

lemma find_occ_map: "find_occ P k (map g xs) = find_occ (\<lambda>x. P (g x)) k xs"
  by (induction xs arbitrary: k) simp_all

lemma find_occ_tags: "find_occ (\<lambda>f. field_tag f = t) k fs = find_occ (\<lambda>u. u = t) k (map field_tag fs)"
  by (simp add: find_occ_map)

lemma find_occ_Some: "find_occ P k xs = Some i \<Longrightarrow> i < length xs \<and> P (xs ! i)"
  by (induction xs arbitrary: k i) (auto split: if_splits)

lemma insert_at_length [simp]: "length (insert_at k x xs) = Suc (length xs)"
  by (simp add: insert_at_def)

lemma nth_insert_at: "k \<le> length xs \<Longrightarrow> insert_at k x xs ! k = x"
  by (simp add: insert_at_def nth_append)

lemma remove_insert_at: "k \<le> length xs \<Longrightarrow> remove_at k (insert_at k x xs) = xs"
  by (simp add: insert_at_def remove_at_def)

lemma insert_remove_at: "k < length xs \<Longrightarrow> insert_at k (xs ! k) (remove_at k xs) = xs"
  by (simp add: insert_at_def remove_at_def min_def id_take_nth_drop [symmetric])

lemma length_remove_at [simp]: "k < length xs \<Longrightarrow> length (remove_at k xs) = length xs - 1"
  by (simp add: remove_at_def)

lemma map_remove_at: "map f (remove_at k xs) = remove_at k (map f xs)"
  by (simp add: remove_at_def take_map drop_map)

lemma map_insert_at: "map f (insert_at k x xs) = insert_at k (f x) (map f xs)"
  by (simp add: insert_at_def take_map drop_map)

lemma take_map_nth:
  assumes "k \<le> length xs"
  shows "take k xs = map ((!) xs) [0..<k]" "drop k xs = map ((!) xs) [k..<length xs]"
  using assms by (auto intro: nth_equalityI)

lemma nth_int_eq: "nth_int xs i = Some x \<longleftrightarrow> 0 \<le> i \<and> nat i < length xs \<and> xs ! nat i = x"
  by (auto simp: nth_int_def)

section \<open>Ranges\<close>

definition within :: "utext \<Rightarrow> char_range option \<Rightarrow> bool" where
  "within v rng \<longleftrightarrow> (case rng of None \<Rightarrow> True
     | Some r \<Rightarrow> cr_from r < length v \<and> (case cr_to r of EndLast \<Rightarrow> True | EndAt e \<Rightarrow> cr_from r \<le> e \<and> e < length v))"

lemma length_pad_units [simp]: "length (pad_units w t) = max w (length t)"
  by (simp add: pad_units_def)

lemma pad_units_id: "w \<le> length t \<Longrightarrow> pad_units w t = t"
  by (simp add: pad_units_def)

lemma length_slice: "j \<le> length v \<Longrightarrow> length (slice i j v) = j - i"
  by (simp add: slice_def)

lemma within_stops:
  assumes "within v (Some r)"
  shows "write_stop v r = read_stop v r" "cr_from r < read_stop v r" "read_stop v r \<le> length v"
  using assms by (auto simp: within_def read_stop_def write_stop_def split: range_end.splits)

lemma read_stop_length: "length w = length v \<Longrightarrow> read_stop w r = read_stop v r"
  by (simp add: read_stop_def split: range_end.split)

lemma readRange_within: "within v (Some r) \<Longrightarrow> readRange v (Some r) = slice (cr_from r) (read_stop v r) v"
  by (simp add: readRange_def pad_units_id length_slice within_stops)

lemma writeRange_within:
  assumes "within v (Some r)"
  shows "writeRange v new (Some r) = (if read_stop v r - cr_from r < length new then Inl ValueTooLong
    else Inr (take (cr_from r) v @ pad_units (read_stop v r - cr_from r) new @ drop (read_stop v r) v))"
  using within_stops [OF assms] by (simp add: writeRange_def Let_def pad_units_id)

text \<open>Writing back what was read restores the value, and a padded write is recognised as what it is.\<close>

lemma write_back:
  assumes "within v rng" "writeRange v new rng = Inr w"
  shows "within w rng" "check opts (readRange w rng) new = Inr ()" "writeRange w (readRange v rng) rng = Inr v"
    "rng \<noteq> None \<Longrightarrow> length w = length v"
proof -
  have all: "within w rng \<and> check opts (readRange w rng) new = Inr () \<and> writeRange w (readRange v rng) rng = Inr v \<and>
      (rng \<noteq> None \<longrightarrow> length w = length v)"
  proof (cases rng)
    case None
    with assms show ?thesis by (simp add: within_def check_def readRange_def writeRange_def pad_units_id)
  next
    case (Some r)
    let ?i = "cr_from r" and ?j = "read_stop v r"
    note st = within_stops [OF assms(1) [unfolded Some]]
    have fits: "length new \<le> ?j - ?i" and w: "w = take ?i v @ pad_units (?j - ?i) new @ drop ?j v"
      using assms by (auto simp: Some writeRange_within split: if_splits)
    have len: "length w = length v" using st fits by (simp add: w)
    have wi: "within w (Some r)" using assms(1) len by (simp add: Some within_def split: range_end.splits)
    have jw: "read_stop w r = ?j" by (rule read_stop_length [OF len])
    have mid: "slice ?i ?j w = pad_units (?j - ?i) new"
      using st fits by (simp add: w slice_def min_def)
    have "readRange w (Some r) = pad_units (?j - ?i) new" by (simp add: readRange_within [OF wi] jw mid)
    then have "check opts (readRange w rng) new = Inr ()" using fits by (simp add: check_def Some max_def)
    moreover have "writeRange w (readRange v rng) rng = Inr v"
    proof -
      have "take ?i v @ slice ?i ?j v @ drop ?j v = v"
      proof -
        have "take ?i v @ slice ?i ?j v = take ?j v"
          using st take_add [of ?i "?j - ?i" v] by (simp add: slice_def)
        then show ?thesis by (simp flip: append_assoc)
      qed
      moreover have "length (slice ?i ?j v) = ?j - ?i" using st by (simp add: length_slice)
      moreover have "take ?i w = take ?i v" "drop ?j w = drop ?j v"
        using st fits by (simp_all add: w min_def)
      ultimately show ?thesis
        by (simp add: Some writeRange_within [OF wi] jw readRange_within [OF assms(1) [unfolded Some]] pad_units_id)
    qed
    ultimately show ?thesis using wi len by (simp add: Some)
  qed
  then show "within w rng" "check opts (readRange w rng) new = Inr ()" "writeRange w (readRange v rng) rng = Inr v"
    "rng \<noteq> None \<Longrightarrow> length w = length v" by blast+
qed

lemma check_exact [simp]: "check opts a a = Inr ()"
  by (simp add: check_def pad_units_id)

section \<open>One edit\<close>

definition field_index :: "marc_record \<Rightarrow> field_path \<Rightarrow> nat option" where
  "field_index r p = find_occ (\<lambda>f. field_tag f = fp_tag p) (index_at (fp_occ p)) (mr_fields r)"

lemma resolve_start: "resolveField (es_entries (start_state r)) path = bind_res (parseOpPath path) (\<lambda>q. case q of
     LeaderPath _ \<Rightarrow> Inl PathNotAField
   | FieldPath p \<Rightarrow> (case field_index r p of None \<Rightarrow> Inl PathNotFound | Some k \<Rightarrow> Inr (k, p)))"
  by (simp add: resolveField_def start_state_def find_occ_map field_index_def cong: marc_path.case_cong)

lemma field_index_less: "field_index r p = Some k \<Longrightarrow> k < length (mr_fields r)"
  by (auto simp: field_index_def dest: find_occ_Some)

lemma field_index_update:
  assumes "field_index r p = Some k" "field_tag f = field_tag (mr_fields r ! k)"
  shows "field_index (r\<lparr>mr_fields := (mr_fields r)[k := f]\<rparr>) q = field_index r q"
proof -
  have "map field_tag ((mr_fields r)[k := f]) = map field_tag (mr_fields r)"
    using assms by (simp add: map_update) (metis field_index_less list_update_id map_update nth_map)
  then show ?thesis by (simp add: field_index_def find_occ_tags)
qed

lemma start_entry: "k < length (mr_fields r) \<Longrightarrow> es_entries (start_state r) ! k = \<lparr>en_field = mr_fields r ! k, en_deleted = False\<rparr>"
  by (simp add: start_state_def)

lemma start_state_simps [simp]:
  "es_leader (start_state r) = mr_leader r" "es_inserts (start_state r) = []" "es_moves (start_state r) = []"
  "es_retags (start_state r) = []" "length (es_entries (start_state r)) = length (mr_fields r)"
  by (simp_all add: start_state_def)

lemma record_fields: "\<lparr>mr_leader = mr_leader r, mr_fields = fs\<rparr> = r\<lparr>mr_fields := fs\<rparr>"
  by (cases r) simp

lemma live_start: "live_entry (es_entries (start_state r)) i =
    map_option (\<lambda>f. \<lparr>en_field = f, en_deleted = False\<rparr>) (nth_int (mr_fields r) i)"
  by (auto simp: live_entry_def nth_int_def start_state_def)

lemma lay_out_plain: "lay_out es xs [] = map (\<lambda>i. en_field (es ! i)) xs"
  by (induction xs) simp_all

lemma rebuild_plain:
  assumes "es_inserts st = []" "es_moves st = []" "es_retags st = []" "list_all (\<lambda>e. \<not> en_deleted e) (es_entries st)"
  shows "rebuild st = \<lparr>mr_leader = es_leader st, mr_fields = map en_field (es_entries st)\<rparr>"
proof -
  have "survivors (es_entries st) = [0..<length (es_entries st)]"
    using assms(4) by (auto simp: survivors_def list_all_length filter_id_conv)
  then show ?thesis
    using map_nth [of "map en_field (es_entries st)"]
    by (simp add: rebuild_def assms lay_out_plain) (metis (no_types, lifting) atLeastLessThan_iff map_eq_conv nth_map set_upt)
qed

lemma rebuild_set_field:
  assumes "k < length (mr_fields r)"
  shows "rebuild (set_field k f (start_state r)) = r\<lparr>mr_fields := (mr_fields r)[k := f]\<rparr>"
proof -
  have e: "es_entries (set_field k f (start_state r)) =
      map (\<lambda>f. \<lparr>en_field = f, en_deleted = False\<rparr>) ((mr_fields r)[k := f])"
    using assms by (simp add: set_field_def start_state_def map_update)
  have "rebuild (set_field k f (start_state r)) = \<lparr>mr_leader = mr_leader r, mr_fields = (mr_fields r)[k := f]\<rparr>"
    by (subst rebuild_plain) (simp_all add: e list_all_iff comp_def, simp_all add: set_field_def start_state_def)
  then show ?thesis by (cases r) simp
qed

lemma survivors_start: "survivors (es_entries (start_state r)) = [0..<length (mr_fields r)]"
  by (auto simp: survivors_def start_state_def filter_id_conv)

lemma lay_out_low:
  assumes "\<And>i s. i \<in> set xs \<Longrightarrow> s \<in> set ins \<Longrightarrow> int i < in_at s"
  shows "lay_out es (xs @ ys) ins = map (\<lambda>i. en_field (es ! i)) xs @ lay_out es ys ins"
  using assms
proof (induction xs)
  case (Cons a xs)
  have "takeWhile (\<lambda>s. in_at s \<le> int a) ins = []" "dropWhile (\<lambda>s. in_at s \<le> int a) ins = ins"
    using Cons.prems [of a] by (cases ins; force)+
  with Cons show ?case by simp
qed simp

lemma lay_out_high:
  assumes "\<And>i. i \<in> set ys \<Longrightarrow> in_at s \<le> int i"
  shows "lay_out es ys [s] = in_field s # map (\<lambda>i. en_field (es ! i)) ys"
  using assms by (cases ys) (simp_all add: lay_out_plain)

text \<open>What a single edit leaves, for each kind of edit.\<close>

lemma one_insert:
  "edit_batch opts r [InsertField at f] = (if at < 0 \<or> int (length (mr_fields r)) < at then Inl IndexOutOfRange
    else Inr (r\<lparr>mr_fields := insert_at (nat at) f (mr_fields r)\<rparr>))"
proof -
  let ?n = "length (mr_fields r)" and ?es = "es_entries (start_state r)"
  have fields: "map (\<lambda>i. en_field (?es ! i)) xs = map ((!) (mr_fields r)) xs" if "set xs \<subseteq> {..<?n}" for xs
    using that by (auto simp: start_entry)
  note sv = survivors_start [of r]
  show ?thesis
  proof (cases "at < 0 \<or> int ?n < at")
    case False
    let ?k = "nat at" and ?s = "\<lparr>in_at = at, in_field = f, in_seq = 0\<rparr>"
    have k: "?k \<le> ?n" using False by auto
    then have "[0..<?n] = [0..<?k] @ [?k..<?n]" by (metis le_add_diff_inverse upt_add_eq_append zero_le)
    moreover have "lay_out ?es ([0..<?k] @ [?k..<?n]) [?s] = map (\<lambda>i. en_field (?es ! i)) [0..<?k] @ lay_out ?es [?k..<?n] [?s]"
      by (rule lay_out_low) auto
    moreover have "lay_out ?es [?k..<?n] [?s] = in_field ?s # map (\<lambda>i. en_field (?es ! i)) [?k..<?n]"
      by (rule lay_out_high) auto
    moreover have "map (\<lambda>i. en_field (?es ! i)) [0..<?k] = map ((!) (mr_fields r)) [0..<?k]"
      "map (\<lambda>i. en_field (?es ! i)) [?k..<?n] = map ((!) (mr_fields r)) [?k..<?n]"
      using k by (intro fields; auto)+
    ultimately have "lay_out ?es [0..<?n] [?s] = map ((!) (mr_fields r)) [0..<?k] @ f # map ((!) (mr_fields r)) [?k..<?n]"
      by simp
    also have "\<dots> = insert_at ?k f (mr_fields r)"
      using take_map_nth [OF k] by (simp add: insert_at_def)
    finally show ?thesis
      using False by (simp add: edit_batch_def rebuild_def sv Let_def record_fields)
  qed (simp add: edit_batch_def)
qed

lemma one_delete:
  "edit_batch opts r [DeleteField at f] = (case nth_int (mr_fields r) at of None \<Rightarrow> Inl IndexOutOfRange
    | Some g \<Rightarrow> if \<not> ao_unchecked opts \<and> \<not> sameField g f then Inl PreconditionFailed
        else Inr (r\<lparr>mr_fields := remove_at (nat at) (mr_fields r)\<rparr>))"
proof (cases "nth_int (mr_fields r) at")
  case (Some g)
  let ?n = "length (mr_fields r)" and ?k = "nat at"
  let ?es = "(es_entries (start_state r))[?k := \<lparr>en_field = g, en_deleted = True\<rparr>]"
  have k: "?k < ?n" "0 \<le> at" using Some by (auto simp: nth_int_def split: if_splits)
  have sv: "survivors ?es = remove_at ?k [0..<?n]"
  proof -
    have "survivors ?es = filter (\<lambda>i. i \<noteq> ?k) [0..<?n]"
      using k by (auto simp: survivors_def nth_list_update start_entry intro!: filter_cong)
    also have "\<dots> = filter (\<lambda>i. i \<noteq> ?k) ([0..<?k] @ ?k # [Suc ?k..<?n])"
      using k by (metis le_add_diff_inverse less_imp_le_nat upt_add_eq_append upt_conv_Cons zero_le)
    also have "\<dots> = remove_at ?k [0..<?n]" using k by (auto simp: remove_at_def filter_id_conv)
    finally show ?thesis .
  qed
  have "map (\<lambda>i. en_field (?es ! i)) (survivors ?es) = map ((!) (mr_fields r)) (survivors ?es)"
    using k by (auto simp: survivors_def nth_list_update start_entry)
  also have "\<dots> = remove_at ?k (mr_fields r)" by (simp add: sv map_remove_at map_nth)
  finally show ?thesis using Some
    by (simp add: edit_batch_def live_start rebuild_def Let_def lay_out_plain record_fields)
qed (simp add: edit_batch_def live_start)

lemma one_move:
  "edit_batch opts r [MoveField from to] = (if nth_int (mr_fields r) from = None \<or> nth_int (mr_fields r) to = None
    then Inl IndexOutOfRange
    else Inr (r\<lparr>mr_fields := insert_at (nat to) (mr_fields r ! nat from) (remove_at (nat from) (mr_fields r))\<rparr>))"
proof (cases "nth_int (mr_fields r) from = None \<or> nth_int (mr_fields r) to = None")
  case True
  then show ?thesis by (auto simp: edit_batch_def nth_int_def split: if_splits)
next
  case False
  let ?n = "length (mr_fields r)" and ?es = "es_entries (start_state r)"
  have b: "0 \<le> from" "nat from < ?n" "0 \<le> to" "nat to < ?n" using False by (auto simp: nth_int_def split: if_splits)
  have "index_of (nat from) [0..<?n] = Some (nat from)"
  proof -
    have "[0..<?n] = [0..<nat from] @ nat from # [Suc (nat from)..<?n]"
      using b by (metis le_add_diff_inverse less_imp_le_nat upt_add_eq_append upt_conv_Cons zero_le)
    then show ?thesis using index_of_append [of "nat from" "[0..<nat from]" "[Suc (nat from)..<?n]"] by simp
  qed
  then have mv: "move_entry ?es (nat from, nat to) (survivors ?es) = insert_at (nat to) (nat from) (remove_at (nat from) [0..<?n])"
    using b by (simp add: move_entry_def survivors_start start_entry Let_def min_def)
  have "set (insert_at (nat to) (nat from) (remove_at (nat from) [0..<?n])) \<subseteq> {..<?n}"
    using b by (auto simp: insert_at_def remove_at_def dest!: in_set_takeD in_set_dropD)
  then have "map (\<lambda>i. en_field (?es ! i)) (insert_at (nat to) (nat from) (remove_at (nat from) [0..<?n])) =
      map ((!) (mr_fields r)) (insert_at (nat to) (nat from) (remove_at (nat from) [0..<?n]))"
    by (auto simp: start_entry)
  also have "\<dots> = insert_at (nat to) (mr_fields r ! nat from) (remove_at (nat from) (mr_fields r))"
    by (simp add: map_insert_at map_remove_at map_nth)
  finally show ?thesis using False b mv
    by (auto simp: edit_batch_def nth_int_def rebuild_def Let_def lay_out_plain record_fields)
qed

lemma one_retag:
  "edit_batch opts r [SetTag at from to] = (case nth_int (mr_fields r) at of None \<Rightarrow> Inl IndexOutOfRange
    | Some g \<Rightarrow> bind_res (check opts (field_tag g) from) (\<lambda>_. if length to \<noteq> 3 then Inl NewTagInvalid
        else Inr (r\<lparr>mr_fields := (mr_fields r)[nat at := with_tag to g]\<rparr>)))"
proof (cases "nth_int (mr_fields r) at")
  case (Some g)
  let ?k = "nat at" and ?es = "es_entries (start_state r)"
  have k: "?k < length (mr_fields r)" "mr_fields r ! ?k = g" using Some by (auto simp: nth_int_eq)
  have es: "retag (?k, to) ?es = es_entries (set_field ?k (with_tag to g) (start_state r))"
    using k by (simp add: retag_def set_field_def start_entry)
  have "rebuild (start_state r\<lparr>es_retags := [(?k, to)]\<rparr>) = rebuild (set_field ?k (with_tag to g) (start_state r))"
    by (simp add: rebuild_def es set_field_def)
  with Some k show ?thesis
    by (cases "check opts (field_tag g) from") (simp_all add: edit_batch_def live_start rebuild_set_field)
qed (simp add: edit_batch_def live_start)

lemma resolve_start_iff: "resolveField (es_entries (start_state r)) path = Inr (k, p) \<longleftrightarrow>
    parseOpPath path = Inr (FieldPath p) \<and> field_index r p = Some k"
proof (cases "parseOpPath path")
  case (Inr q)
  then show ?thesis by (cases q) (auto simp: resolve_start split: option.split)
qed (simp add: resolve_start)

lemma resolve_start_cases:
  obtains (refused) e where "resolveField (es_entries (start_state r)) path = Inl e"
  | (found) k p where "resolveField (es_entries (start_state r)) path = Inr (k, p)" "k < length (mr_fields r)"
  using resolve_start_iff [of r path] field_index_less
  by (cases "resolveField (es_entries (start_state r)) path") (auto, fastforce)

lemma one_indicators:
  "edit_batch opts r [SetIndicators path from to] = bind_res (resolveField (es_entries (start_state r)) path) (\<lambda>(k, p).
     case mr_fields r ! k of ControlField _ _ _ \<Rightarrow> Inl NotADataField
     | DataField t i s x \<Rightarrow> bind_res (check opts i from) (\<lambda>_. if length to \<noteq> 2 then Inl IndicatorsInvalid
         else Inr (r\<lparr>mr_fields := (mr_fields r)[k := DataField t to s x]\<rparr>)))"
  by (cases rule: resolve_start_cases [of r path])
    (auto simp: edit_batch_def start_entry rebuild_set_field check_def split: marc_field.split option.split)

lemma one_insert_subfield:
  "edit_batch opts r [InsertSubfield path at sf] = bind_res (resolveField (es_entries (start_state r)) path) (\<lambda>(k, p).
     case mr_fields r ! k of ControlField _ _ _ \<Rightarrow> Inl NotADataField
     | DataField t i s x \<Rightarrow> if at < 0 \<or> int (length s) < at then Inl IndexOutOfRange
         else Inr (r\<lparr>mr_fields := (mr_fields r)[k := DataField t i (insert_at (nat at) sf s) x]\<rparr>))"
  by (cases rule: resolve_start_cases [of r path])
    (auto simp: edit_batch_def start_entry rebuild_set_field check_def split: marc_field.split option.split)

lemma one_delete_subfield:
  "edit_batch opts r [DeleteSubfield path at sf] = bind_res (resolveField (es_entries (start_state r)) path) (\<lambda>(k, p).
     case mr_fields r ! k of ControlField _ _ _ \<Rightarrow> Inl NotADataField
     | DataField t i s x \<Rightarrow> (case nth_int s at of None \<Rightarrow> Inl IndexOutOfRange
         | Some found \<Rightarrow> if \<not> ao_unchecked opts \<and> found \<noteq> sf then Inl PreconditionFailed
             else Inr (r\<lparr>mr_fields := (mr_fields r)[k := DataField t i (remove_at (nat at) s) x]\<rparr>)))"
  by (cases rule: resolve_start_cases [of r path])
    (auto simp: edit_batch_def start_entry rebuild_set_field check_def split: marc_field.split option.split)

lemma one_value:
  "edit_batch opts r [SetValue path from to] = bind_res (parseOpPath path) (\<lambda>p. case p of
       LeaderPath chars \<Rightarrow> bind_res (check opts (readRange (mr_leader r) chars) from) (\<lambda>_.
         bind_res (writeRange (mr_leader r) to chars) (\<lambda>l. Inr (r\<lparr>mr_leader := l\<rparr>)))
     | FieldPath fp \<Rightarrow> (case field_index r fp of None \<Rightarrow> Inl PathNotFound
         | Some k \<Rightarrow> bind_res (set_value opts fp from to (mr_fields r ! k)) (\<lambda>f.
             Inr (r\<lparr>mr_fields := (mr_fields r)[k := f]\<rparr>))))"
proof (cases "parseOpPath path")
  case (Inr p)
  show ?thesis
  proof (cases p)
    case (LeaderPath chars)
    have plain: "rebuild (start_state r\<lparr>es_leader := l\<rparr>) = r\<lparr>mr_leader := l\<rparr>" for l
    proof -
      have "rebuild (start_state r\<lparr>es_leader := l\<rparr>) = \<lparr>mr_leader = l, mr_fields = map en_field (es_entries (start_state r))\<rparr>"
        by (subst rebuild_plain) (simp_all add: start_state_def list_all_iff)
      also have "\<dots> = r\<lparr>mr_leader := l\<rparr>" by (cases r) (simp add: start_state_def comp_def)
      finally show ?thesis .
    qed
    show ?thesis
      by (simp add: edit_batch_def Inr LeaderPath bind_res_assoc plain)
  next
    case (FieldPath fp)
    then show ?thesis using Inr
      by (auto simp: edit_batch_def resolve_start bind_res_assoc start_entry field_index_less rebuild_set_field split: option.split)
  qed
qed (simp add: edit_batch_def)

section \<open>The inverse takes it back\<close>

definition field_named :: "marc_record \<Rightarrow> utext \<Rightarrow> marc_field option" where
  "field_named r path = (case parseOpPath path of
       Inr (FieldPath p) \<Rightarrow> map_option (\<lambda>k. mr_fields r ! k) (field_index r p) | _ \<Rightarrow> None)"

definition addressed :: "marc_record \<Rightarrow> marc_path \<Rightarrow> (utext \<times> char_range option) option" where
  "addressed r p = (case p of
       LeaderPath c \<Rightarrow> Some (mr_leader r, c)
     | FieldPath fp \<Rightarrow> (case field_index r fp of None \<Rightarrow> None
         | Some k \<Rightarrow> (case mr_fields r ! k of
             ControlField _ v _ \<Rightarrow> Some (v, fp_chars fp)
           | DataField _ _ s _ \<Rightarrow> (case fp_sub fp of None \<Rightarrow> None
               | Some sp \<Rightarrow> map_option (\<lambda>m. (snd (s ! m), sp_chars sp)) (find_occ (\<lambda>sf. fst sf = sp_code sp) (index_at (sp_occ sp)) s)))))"

text \<open>The edit states what it replaces to the letter, and a range lies inside the value.\<close>

definition exact_op :: "marc_record \<Rightarrow> marc_op \<Rightarrow> bool" where
  "exact_op r op = (case op of
       InsertField at f \<Rightarrow> True
     | DeleteField at f \<Rightarrow> nth_int (mr_fields r) at = Some f
     | MoveField from to \<Rightarrow> True
     | SetIndicators path from to \<Rightarrow> length from = 2 \<and> map_option indicators (field_named r path) = Some from
     | SetTag at from to \<Rightarrow> length from = 3 \<and> map_option field_tag (nth_int (mr_fields r) at) = Some from
     | InsertSubfield path at sf \<Rightarrow> True
     | DeleteSubfield path at sf \<Rightarrow> (case field_named r path of None \<Rightarrow> True | Some f \<Rightarrow> nth_int (subfields f) at = Some sf)
     | SetValue path from to \<Rightarrow> (case parseOpPath path of Inl _ \<Rightarrow> True
         | Inr p \<Rightarrow> (case addressed r p of None \<Rightarrow> True | Some (v, rng) \<Rightarrow> within v rng \<and> from = readRange v rng)))"

lemma with_tag_back: "with_tag (field_tag g) (with_tag t g) = g" "field_tag (with_tag t g) = t"
  by (simp_all add: with_tag_def split: marc_field.split)

lemma sameField_refl [simp]: "sameField f f"
  by (cases f) (simp_all add: sameField_def list.rel_refl)

lemma resolve_cases:
  assumes "bind_res (resolveField (es_entries (start_state r)) path) g = Inr r'"
  obtains k p where "parseOpPath path = Inr (FieldPath p)" "field_index r p = Some k" "k < length (mr_fields r)"
    "g (k, p) = Inr r'" "field_named r path = Some (mr_fields r ! k)"
proof -
  obtain k p where "resolveField (es_entries (start_state r)) path = Inr (k, p)" "g (k, p) = Inr r'"
    using assms by (auto simp: bind_res_Inr_iff)
  with that show thesis by (simp add: resolve_start_iff field_named_def field_index_less)
qed

lemma resolve_again:
  assumes "parseOpPath path = Inr (FieldPath p)" "field_index r p = Some k" "field_tag f = field_tag (mr_fields r ! k)"
  shows "bind_res (resolveField (es_entries (start_state (r\<lparr>mr_fields := (mr_fields r)[k := f]\<rparr>))) path) g = g (k, p)"
    "field_index (r\<lparr>mr_fields := (mr_fields r)[k := f]\<rparr>) p = Some k"
  using assms by (simp_all add: resolve_start field_index_update [OF assms(2,3)])

lemma find_occ_update:
  assumes "find_occ P k xs = Some i" "P y"
  shows "find_occ P k (xs[i := y]) = Some i"
  using assms by (induction P k xs arbitrary: i rule: find_occ.induct) (auto split: if_splits)

lemma set_value_back:
  assumes "set_value opts p old new f = Inr f'"
    and "within v rng" "old = readRange v rng"
    and "(case f of ControlField _ w _ \<Rightarrow> fp_sub p = None \<longrightarrow> (w, fp_chars p) = (v, rng)
       | DataField _ _ s _ \<Rightarrow> (case fp_sub p of None \<Rightarrow> True
           | Some sp \<Rightarrow> map_option (\<lambda>m. (snd (s ! m), sp_chars sp)) (find_occ (\<lambda>sf. fst sf = sp_code sp) (index_at (sp_occ sp)) s) = Some (v, rng)))"
  shows "set_value opts p new old f' = Inr f \<and> field_tag f' = field_tag f"
proof (cases f)
  case (ControlField t w x)
  with assms(1,4) have np: "fp_sub p = None" "w = v" "fp_chars p = rng" by (auto simp: set_value_def split: option.splits)
  with assms(1) ControlField obtain w' where w': "writeRange v new rng = Inr w'" "f' = ControlField t w' x"
    by (auto simp: set_value_def bind_res_Inr_iff)
  from write_back [OF assms(2) w'(1)] show ?thesis
    by (simp add: set_value_def np w' ControlField assms(3))
next
  case (DataField t i s x)
  then obtain sp where sp: "fp_sub p = Some sp" using assms(1) by (auto simp: set_value_def split: option.splits)
  let ?P = "\<lambda>sf. fst sf = sp_code sp" and ?k = "index_at (sp_occ sp)"
  obtain m where m: "find_occ ?P ?k s = Some m" "snd (s ! m) = v" "sp_chars sp = rng"
    using assms(4) by (auto simp: DataField sp split: option.splits)
  from find_occ_Some [OF m(1)] have ms: "m < length s" "fst (s ! m) = sp_code sp" by auto
  obtain w where w: "writeRange v new rng = Inr w" "f' = DataField t i (s[m := (sp_code sp, w)]) x"
    and fits: "\<not> (case rng of None \<Rightarrow> False | Some r \<Rightarrow> length v < read_stop v r)"
    using assms(1) by (auto simp: set_value_def DataField sp set_subfield_def m Let_def bind_res_Inr_iff split: if_splits)
  note B = write_back [OF assms(2) w(1)]
  have fits': "\<not> (case rng of None \<Rightarrow> False | Some r \<Rightarrow> length w < read_stop w r)"
    using B(1) within_stops(3) [of w] by (auto split: option.split) (meson not_le)
  have "find_occ ?P ?k (s[m := (sp_code sp, w)]) = Some m" by (rule find_occ_update [OF m(1)]) simp
  moreover have "(sp_code sp, v) = s ! m" using ms(2) m(2) by (metis prod.collapse)
  ultimately show ?thesis using fits' ms
    by (simp add: set_value_def DataField sp set_subfield_def w m(3) Let_def B(2,3) assms(3))
qed

theorem inverse_takes_back:
  assumes "exact_op r op" "edit_batch opts r [op] = Inr r'"
  shows "edit_batch opts r' [invert op] = Inr r"
proof (cases op)
  case (InsertField at f)
  then have b: "0 \<le> at" "nat at \<le> length (mr_fields r)" and r': "r' = r\<lparr>mr_fields := insert_at (nat at) f (mr_fields r)\<rparr>"
    using assms(2) by (auto simp: one_insert split: if_splits)
  have "nth_int (mr_fields r') at = Some f" using b by (simp add: r' nth_int_eq nth_insert_at)
  with b show ?thesis by (simp add: InsertField one_delete r' remove_insert_at)
next
  case (DeleteField at f)
  then have f: "0 \<le> at" "nat at < length (mr_fields r)" "mr_fields r ! nat at = f"
    using assms(1) by (auto simp: exact_op_def nth_int_eq)
  then have r': "r' = r\<lparr>mr_fields := remove_at (nat at) (mr_fields r)\<rparr>"
    using assms by (auto simp: DeleteField one_delete exact_op_def split: if_splits)
  have "int (length (mr_fields r')) = int (length (mr_fields r)) - 1" using f by (simp add: r')
  then have "\<not> (at < 0 \<or> int (length (mr_fields r')) < at)" using f by linarith
  moreover have "insert_at (nat at) f (remove_at (nat at) (mr_fields r)) = mr_fields r"
    using insert_remove_at [OF f(2)] f(3) by simp
  ultimately show ?thesis by (simp add: DeleteField one_insert r')
next
  case (MoveField a b)
  let ?fs = "mr_fields r"
  have bd: "0 \<le> a" "nat a < length ?fs" "0 \<le> b" "nat b < length ?fs"
    and r': "r' = r\<lparr>mr_fields := insert_at (nat b) (?fs ! nat a) (remove_at (nat a) ?fs)\<rparr>"
    using assms(2) by (auto simp: MoveField one_move nth_int_def split: if_splits)
  let ?rest = "remove_at (nat a) ?fs"
  have len: "length (mr_fields r') = length ?fs" using bd by (simp add: r')
  then have "nth_int (mr_fields r') a \<noteq> None" "nth_int (mr_fields r') b \<noteq> None"
    using bd by (simp_all add: nth_int_def)
  moreover have "nat b \<le> length ?rest" using bd by simp
  ultimately show ?thesis
    using insert_remove_at [OF bd(2)] by (simp add: MoveField one_move r' nth_insert_at remove_insert_at)
next
  case (SetIndicators path old new)
  then obtain k p where k: "parseOpPath path = Inr (FieldPath p)" "field_index r p = Some k" "k < length (mr_fields r)"
    and named: "field_named r path = Some (mr_fields r ! k)"
    and g: "(case mr_fields r ! k of ControlField _ _ _ \<Rightarrow> Inl NotADataField
     | DataField t i s x \<Rightarrow> bind_res (check opts i old) (\<lambda>_. if length new \<noteq> 2 then Inl IndicatorsInvalid
         else Inr (r\<lparr>mr_fields := (mr_fields r)[k := DataField t new s x]\<rparr>))) = Inr r'"
    using assms(2) by (auto simp: one_indicators elim!: resolve_cases)
  then obtain t i s x where f: "mr_fields r ! k = DataField t i s x" by (cases "mr_fields r ! k") auto
  with g have r': "r' = r\<lparr>mr_fields := (mr_fields r)[k := DataField t new s x]\<rparr>"
    by (auto simp: bind_res_Inr_iff split: if_splits)
  have "old = i" "length i = 2" using assms(1) named f by (auto simp: exact_op_def SetIndicators)
  moreover have "(mr_fields r)[k := DataField t i s x] = mr_fields r" using f by (metis list_update_id)
  ultimately show ?thesis
    using f k(3) by (simp add: SetIndicators one_indicators r' resolve_again [OF k(1,2), of "DataField t new s x"])
next
  case (SetTag at old new)
  then obtain g where g: "0 \<le> at" "nat at < length (mr_fields r)" "mr_fields r ! nat at = g" "field_tag g = old" "length old = 3"
    using assms(1) by (auto simp: exact_op_def nth_int_eq)
  then have ng: "nth_int (mr_fields r) at = Some g" by (simp add: nth_int_eq)
  with assms(2) g have r': "r' = r\<lparr>mr_fields := (mr_fields r)[nat at := with_tag new g]\<rparr>"
    by (auto simp: SetTag one_retag bind_res_Inr_iff split: if_splits)
  have "nth_int (mr_fields r') at = Some (with_tag new g)" using g by (simp add: r' nth_int_eq)
  moreover have "(mr_fields r)[nat at := g] = mr_fields r" using g(3) by (metis list_update_id)
  ultimately show ?thesis using with_tag_back(1) [of g new] with_tag_back(2) [of new g] g(4,5) by (simp add: SetTag one_retag r')
next
  case (InsertSubfield path at sf)
  then obtain k p where k: "parseOpPath path = Inr (FieldPath p)" "field_index r p = Some k" "k < length (mr_fields r)"
    and g: "(case mr_fields r ! k of ControlField _ _ _ \<Rightarrow> Inl NotADataField
     | DataField t i s x \<Rightarrow> if at < 0 \<or> int (length s) < at then Inl IndexOutOfRange
         else Inr (r\<lparr>mr_fields := (mr_fields r)[k := DataField t i (insert_at (nat at) sf s) x]\<rparr>)) = Inr r'"
    using assms(2) by (auto simp: one_insert_subfield elim!: resolve_cases)
  then obtain t i s x where f: "mr_fields r ! k = DataField t i s x" by (cases "mr_fields r ! k") auto
  with g have b: "0 \<le> at" "nat at \<le> length s"
    and r': "r' = r\<lparr>mr_fields := (mr_fields r)[k := DataField t i (insert_at (nat at) sf s) x]\<rparr>"
    by (auto split: if_splits)
  have "nth_int (insert_at (nat at) sf s) at = Some sf" using b by (simp add: nth_int_eq nth_insert_at)
  moreover have "(mr_fields r)[k := DataField t i s x] = mr_fields r" using f by (metis list_update_id)
  ultimately show ?thesis
    using f k(3) b
    by (simp add: InsertSubfield one_delete_subfield r' resolve_again [OF k(1,2), of "DataField t i (insert_at (nat at) sf s) x"] remove_insert_at)
next
  case (DeleteSubfield path at sf)
  then obtain k p where k: "parseOpPath path = Inr (FieldPath p)" "field_index r p = Some k" "k < length (mr_fields r)"
    and named: "field_named r path = Some (mr_fields r ! k)"
    and g: "(case mr_fields r ! k of ControlField _ _ _ \<Rightarrow> Inl NotADataField
     | DataField t i s x \<Rightarrow> (case nth_int s at of None \<Rightarrow> Inl IndexOutOfRange
         | Some found \<Rightarrow> if \<not> ao_unchecked opts \<and> found \<noteq> sf then Inl PreconditionFailed
             else Inr (r\<lparr>mr_fields := (mr_fields r)[k := DataField t i (remove_at (nat at) s) x]\<rparr>))) = Inr r'"
    using assms(2) by (auto simp: one_delete_subfield elim!: resolve_cases)
  then obtain t i s x where f: "mr_fields r ! k = DataField t i s x" by (cases "mr_fields r ! k") auto
  have sf: "0 \<le> at" "nat at < length s" "s ! nat at = sf"
    using assms(1) named f by (auto simp: exact_op_def DeleteSubfield nth_int_eq)
  then have "nth_int s at = Some sf" by (simp add: nth_int_eq)
  with g f have r': "r' = r\<lparr>mr_fields := (mr_fields r)[k := DataField t i (remove_at (nat at) s) x]\<rparr>" by simp
  have "int (length (remove_at (nat at) s)) = int (length s) - 1" using sf by simp
  then have "\<not> (at < 0 \<or> int (length (remove_at (nat at) s)) < at)" using sf by linarith
  moreover have "insert_at (nat at) sf (remove_at (nat at) s) = s" using insert_remove_at [OF sf(2)] sf(3) by simp
  moreover have "(mr_fields r)[k := DataField t i s x] = mr_fields r" using f by (metis list_update_id)
  ultimately show ?thesis
    using f k(3)
    by (simp add: DeleteSubfield one_insert_subfield r' resolve_again [OF k(1,2), of "DataField t i (remove_at (nat at) s) x"])
next
  case (SetValue path old new)
  then obtain p where p: "parseOpPath path = Inr p" using assms(2) by (auto simp: one_value bind_res_Inr_iff)
  show ?thesis
  proof (cases p)
    case (LeaderPath chars)
    then obtain l where l: "writeRange (mr_leader r) new chars = Inr l" "r' = r\<lparr>mr_leader := l\<rparr>"
      using assms(2) p by (auto simp: SetValue one_value bind_res_Inr_iff)
    have ex: "within (mr_leader r) chars" "old = readRange (mr_leader r) chars"
      using assms(1) p LeaderPath by (simp_all add: SetValue exact_op_def addressed_def)
    from write_back [OF ex(1) l(1)] show ?thesis by (simp add: SetValue one_value p LeaderPath l(2) ex(2))
  next
    case (FieldPath fp)
    then obtain k f' where k: "field_index r fp = Some k" and f': "set_value opts fp old new (mr_fields r ! k) = Inr f'"
      and r': "r' = r\<lparr>mr_fields := (mr_fields r)[k := f']\<rparr>"
      using assms(2) p by (auto simp: SetValue one_value bind_res_Inr_iff split: option.splits)
    obtain v rng where a: "addressed r p = Some (v, rng)"
      using f' by (cases "mr_fields r ! k") (auto simp: addressed_def FieldPath k set_value_def set_subfield_def bind_res_Inr_iff
          split: option.splits)
    have ex: "within v rng" "old = readRange v rng"
      using assms(1) p a by (simp_all add: SetValue exact_op_def)
    have "set_value opts fp new old f' = Inr (mr_fields r ! k) \<and> field_tag f' = field_tag (mr_fields r ! k)"
      by (rule set_value_back [OF f' ex]) (use a in \<open>auto simp: addressed_def FieldPath k split: marc_field.splits option.splits\<close>)
    moreover have "k < length (mr_fields r)" by (rule field_index_less [OF k])
    ultimately show ?thesis
      using field_index_update [OF k, of f' fp] k by (simp add: SetValue one_value p FieldPath r')
  qed
qed

text \<open>With the links in order before and after the edit, nothing else happens to the record.\<close>

corollary applyOps_inverse:
  assumes "exact_op r op" "edit_batch opts r [op] = Inr r'" "ao_linkage opts \<noteq> Some Compact"
    and "lr_collisions (inspectLinkage (mr_fields r)) = []" "lr_collisions (inspectLinkage (mr_fields r')) = []"
  shows "applyOps opts r [op] = Inr r'" "applyOps opts r' [invert op] = Inr r"
proof -
  have p: "(case ao_linkage opts of None \<Rightarrow> Repair | Some p \<Rightarrow> p) = Repair"
    using assms(3) by (cases "ao_linkage opts") (auto intro: linkage_policy.exhaust)
  show "applyOps opts r [op] = Inr r'"
    using assms(2,5) by (simp add: applyOps_def p normalizeLinkage_def)
  show "applyOps opts r' [invert op] = Inr r"
    using inverse_takes_back [OF assms(1,2)] assms(4) by (simp add: applyOps_def p normalizeLinkage_def)
qed

section \<open>Edits that are not taken back\<close>

text \<open>A note, and a control field that is too short.\<close>

definition note_record :: marc_record where
  "note_record = \<lparr>mr_leader = text_of ''00000nam a2200000 a 4500'',
     mr_fields = [ControlField (text_of ''008'') (text_of ''1946'') [],
       DataField (text_of ''500'') [32, 32] [(text_of ''a'', text_of ''Note. '')] [TagMalformed]]\<rparr>"

definition plain_options :: apply_options where
  "plain_options = \<lparr>ao_linkage = None, ao_unchecked = False\<rparr>"

definition there_and_back :: "marc_op \<Rightarrow> edit_error + marc_record" where
  "there_and_back op = bind_res (applyOps plain_options note_record [op]) (\<lambda>r. applyOps plain_options r [invert op])"

text \<open>
  The expectation is padded to the length of what is there, also outside fixed fields: an edit
  written against \<open>Note.\<close> passes over \<open>Note. \<close>, and its inverse leaves the value without the blank.
\<close>

lemma trailing_blank_lost:
  "there_and_back (SetValue (text_of ''500[0]$a[0]'') (text_of ''Note.'') (text_of ''X'')) =
   Inr (note_record\<lparr>mr_fields := (mr_fields note_record)[1 := DataField (text_of ''500'') [32, 32]
     [(text_of ''a'', text_of ''Note.'')] [TagMalformed]]\<rparr>)"
  by code_simp

text \<open>A range past the end of a control field makes it longer, and it stays longer.\<close>

lemma short_field_grows:
  "there_and_back (SetValue (text_of ''008[0]/02-05'') (text_of ''46'') (text_of ''47'')) =
   Inr (note_record\<lparr>mr_fields := (mr_fields note_record)[0 := ControlField (text_of ''008'') (text_of ''1946  '') []]\<rparr>)"
  by code_simp

text \<open>A subfield is refused such a range, but not when the range is open and starts past the end.\<close>

lemma open_range_grows_a_subfield:
  "applyOps plain_options note_record [SetValue (text_of ''500[0]$a[0]/08'') [] (text_of ''X'')] = Inl IndexOutOfRange"
  "applyOps plain_options note_record [SetValue (text_of ''500[0]$a[0]/08-#'') [] (text_of ''X'')] =
   Inr (note_record\<lparr>mr_fields := (mr_fields note_record)[1 := DataField (text_of ''500'') [32, 32]
     [(text_of ''a'', text_of ''Note.   X'')] [TagMalformed]]\<rparr>)"
  by code_simp+

text \<open>The comparison before a deletion does not look at the anomalies, so they can be lost with it.\<close>

lemma anomalies_lost:
  "there_and_back (DeleteField 1 (DataField (text_of ''500'') [32, 32] [(text_of ''a'', text_of ''Note. '')] [])) =
   Inr (note_record\<lparr>mr_fields := (mr_fields note_record)[1 := DataField (text_of ''500'') [32, 32]
     [(text_of ''a'', text_of ''Note. '')] []]\<rparr>)"
  by code_simp

end
