(* ===== verification/Marc_Batch.thy ===== *)
theory Marc_Batch
  imports Marc_Inverse
begin

text \<open>
  What a batch of edits does (\<open>packages/marc/src/ops.ts\<close>): every path names a field of the record as it
  was handed in; without moves the result is the positional merge of the fields that are left with
  the fields inserted; what no edit names is kept. The end of the theory shows where a batch does
  not do what its comments say.
\<close>

section \<open>Paths name fields of the original record\<close>

definition entry_tags :: "entry list \<Rightarrow> utext list" where
  "entry_tags es = map (\<lambda>e. field_tag (en_field e)) es"

lemma resolve_by_tags:
  assumes "entry_tags es = entry_tags es'"
  shows "resolveField es path = resolveField es' path"
proof -
  have "find_occ (\<lambda>e. field_tag (en_field e) = t) k xs = find_occ (\<lambda>u. u = t) k (entry_tags xs)" for t k xs
    by (simp add: entry_tags_def find_occ_map)
  then have same: "find_occ (\<lambda>e. field_tag (en_field e) = t) k es = find_occ (\<lambda>e. field_tag (en_field e) = t) k es'" for t k
    by (simp only: assms)
  show ?thesis
  proof (cases "parseOpPath path")
    case (Inr q)
    then show ?thesis by (cases q) (simp_all add: resolveField_def same)
  qed (simp add: resolveField_def)
qed

lemma resolve_index: "resolveField es path = Inr (k, p) \<Longrightarrow> k < length es"
proof (cases "parseOpPath path")
  case (Inr q)
  assume "resolveField es path = Inr (k, p)"
  with Inr show ?thesis by (cases q) (auto simp: resolveField_def dest: find_occ_Some split: option.splits)
qed (simp add: resolveField_def)

lemma entry_tags_update:
  "k < length es \<Longrightarrow> field_tag (en_field e) = field_tag (en_field (es ! k)) \<Longrightarrow> entry_tags (es[k := e]) = entry_tags es"
  by (simp add: entry_tags_def map_update list_update_same_conv)

lemma set_value_tag: "set_value opts p old new f = Inr f' \<Longrightarrow> field_tag f' = field_tag f"
  by (cases f) (auto simp: set_value_def bind_res_Inr_iff split: option.splits)

lemma live_entry_index: "live_entry es i = Some e \<Longrightarrow> nat i < length es \<and> es ! nat i = e \<and> \<not> en_deleted e"
  by (auto simp: live_entry_def nth_int_def split: option.splits if_splits)

lemma edit_entry:
  assumes "bind_res (resolveField es path) (\<lambda>(k, p). case en_field (es ! k) of ControlField _ _ _ \<Rightarrow> Inl err
     | DataField t i s x \<Rightarrow> h k t i s x) = Inr st'"
  obtains k p t i s x where "resolveField es path = Inr (k, p)" "en_field (es ! k) = DataField t i s x" "h k t i s x = Inr st'"
proof -
  obtain k p where "resolveField es path = Inr (k, p)"
    and "(case en_field (es ! k) of ControlField _ _ _ \<Rightarrow> Inl err | DataField t i s x \<Rightarrow> h k t i s x) = Inr st'"
    using assms by (auto simp: bind_res_Inr_iff)
  with that show thesis by (cases "en_field (es ! k)") auto
qed

text \<open>One field changes, or none; the change keeps the tag, and is a deletion only for \<open>DeleteField\<close>.\<close>

lemma apply_op_entries:
  assumes "apply_op opts seq op st = Inr st'"
  shows "es_entries st' = es_entries st \<or>
    (\<exists>k e. k < length (es_entries st) \<and> es_entries st' = (es_entries st)[k := e] \<and>
       field_tag (en_field e) = field_tag (en_field (es_entries st ! k)) \<and>
       (case op of DeleteField at f \<Rightarrow> k = nat at \<and> \<not> en_deleted (es_entries st ! k) \<and> en_deleted e \<and>
            en_field e = en_field (es_entries st ! k)
        | _ \<Rightarrow> en_deleted e = en_deleted (es_entries st ! k) \<and> (\<exists>p. resolveField (es_entries st) (op_path op) = Inr (k, p))))"
proof (cases op)
  case (DeleteField at f)
  with assms obtain e where "live_entry (es_entries st) at = Some e"
    "es_entries st' = (es_entries st)[nat at := e\<lparr>en_deleted := True\<rparr>]"
    by (auto split: option.splits if_splits)
  with live_entry_index [of "es_entries st" at e] DeleteField show ?thesis
    by (intro disjI2 exI [of _ "nat at"] exI [of _ "e\<lparr>en_deleted := True\<rparr>"]) auto
next
  case (SetIndicators path old new)
  from assms [unfolded SetIndicators apply_op.simps] obtain k p t i s x where r: "resolveField (es_entries st) path = Inr (k, p)"
    "en_field (es_entries st ! k) = DataField t i s x" and "st' = set_field k (DataField t new s x) st"
    by (rule edit_entry) (auto simp: bind_res_Inr_iff split: if_splits)
  with resolve_index [of "es_entries st" path k p] SetIndicators show ?thesis
    by (intro disjI2 exI [of _ k] exI [of _ "(es_entries st ! k)\<lparr>en_field := DataField t new s x\<rparr>"]) (auto simp: set_field_def)
next
  case (InsertSubfield path at sf)
  from assms [unfolded InsertSubfield apply_op.simps] obtain k p t i s x where r: "resolveField (es_entries st) path = Inr (k, p)"
    "en_field (es_entries st ! k) = DataField t i s x" and "st' = set_field k (DataField t i (insert_at (nat at) sf s) x) st"
    by (rule edit_entry) (auto split: if_splits)
  with resolve_index [of "es_entries st" path k p] InsertSubfield show ?thesis
    by (intro disjI2 exI [of _ k] exI [of _ "(es_entries st ! k)\<lparr>en_field := DataField t i (insert_at (nat at) sf s) x\<rparr>"]) (auto simp: set_field_def)
next
  case (DeleteSubfield path at sf)
  from assms [unfolded DeleteSubfield apply_op.simps] obtain k p t i s x where r: "resolveField (es_entries st) path = Inr (k, p)"
    "en_field (es_entries st ! k) = DataField t i s x" and "st' = set_field k (DataField t i (remove_at (nat at) s) x) st"
    by (rule edit_entry) (auto split: option.splits if_splits)
  with resolve_index [of "es_entries st" path k p] DeleteSubfield show ?thesis
    by (intro disjI2 exI [of _ k] exI [of _ "(es_entries st ! k)\<lparr>en_field := DataField t i (remove_at (nat at) s) x\<rparr>"]) (auto simp: set_field_def)
next
  case (SetValue path old new)
  then obtain q where q: "parseOpPath path = Inr q" using assms by (auto simp: bind_res_Inr_iff)
  show ?thesis
  proof (cases q)
    case (LeaderPath c)
    with assms q SetValue show ?thesis by (auto simp: bind_res_Inr_iff)
  next
    case (FieldPath fp)
    with assms q SetValue obtain k p f where r: "resolveField (es_entries st) path = Inr (k, p)"
      "set_value opts p old new (en_field (es_entries st ! k)) = Inr f" "st' = set_field k f st"
      by (auto simp: bind_res_Inr_iff)
    from set_value_tag [OF r(2)] r resolve_index [OF r(1)] SetValue show ?thesis
      by (intro disjI2 exI [of _ k] exI [of _ "(es_entries st ! k)\<lparr>en_field := f\<rparr>"]) (auto simp: set_field_def)
  qed
qed (use assms in \<open>auto simp: bind_res_Inr_iff split: option.splits if_splits\<close>)

lemma apply_op_tags: "apply_op opts seq op st = Inr st' \<Longrightarrow> entry_tags (es_entries st') = entry_tags (es_entries st)"
  using apply_op_entries [of opts seq op st st'] by (auto simp: entry_tags_update)

theorem run_ops_tags: "run_ops opts seq ops st = Inr st' \<Longrightarrow> entry_tags (es_entries st') = entry_tags (es_entries st)"
proof (induction ops arbitrary: seq st)
  case (Cons op ops)
  then obtain st1 where st1: "apply_op opts seq op st = Inr st1" "run_ops opts (Suc seq) ops st1 = Inr st'"
    by (auto simp: bind_res_Inr_iff)
  from Cons.IH [OF st1(2)] apply_op_tags [OF st1(1)] show ?case by simp
qed simp

corollary paths_name_original_fields:
  assumes "run_ops opts 0 ops (start_state r) = Inr st"
  shows "resolveField (es_entries st) path = resolveField (es_entries (start_state r)) path"
  by (rule resolve_by_tags) (rule run_ops_tags [OF assms])

section \<open>What no edit names is kept\<close>

text \<open>The field of the original record an edit names, if it names one.\<close>

definition touched :: "marc_record \<Rightarrow> marc_op \<Rightarrow> nat set" where
  "touched r op = (case op of
       InsertField _ _ \<Rightarrow> {} | MoveField _ _ \<Rightarrow> {}
     | DeleteField at _ \<Rightarrow> {nat at} | SetTag at _ _ \<Rightarrow> {nat at}
     | _ \<Rightarrow> (case resolveField (es_entries (start_state r)) (op_path op) of Inl _ \<Rightarrow> {} | Inr (k, p) \<Rightarrow> {k}))"

lemma apply_op_untouched:
  assumes "apply_op opts seq op st = Inr st'" "entry_tags (es_entries st) = entry_tags (es_entries (start_state r))"
    and "k \<notin> touched r op"
  shows "length (es_entries st') = length (es_entries st) \<and> es_entries st' ! k = es_entries st ! k \<and>
    (\<exists>new. es_retags st' = es_retags st @ new \<and> k \<notin> fst ` set new)"
proof -
  have "\<exists>new. es_retags st' = es_retags st @ new \<and> k \<notin> fst ` set new"
  proof (cases op)
    case (SetTag at old new)
    with assms(1,3) show ?thesis by (auto simp: touched_def bind_res_Inr_iff split: option.splits if_splits)
  next
    case (SetIndicators path old new)
    from assms(1) [unfolded SetIndicators apply_op.simps] show ?thesis
      by (rule edit_entry) (auto simp: bind_res_Inr_iff set_field_def split: if_splits)
  next
    case (InsertSubfield path at sf)
    from assms(1) [unfolded InsertSubfield apply_op.simps] show ?thesis
      by (rule edit_entry) (auto simp: set_field_def split: if_splits)
  next
    case (DeleteSubfield path at sf)
    from assms(1) [unfolded DeleteSubfield apply_op.simps] show ?thesis
      by (rule edit_entry) (auto simp: set_field_def split: if_splits option.splits)
  next
    case (SetValue path old new)
    with assms(1) obtain q where "parseOpPath path = Inr q" by (auto simp: bind_res_Inr_iff)
    with assms(1) SetValue show ?thesis by (cases q) (auto simp: bind_res_Inr_iff set_field_def)
  qed (use assms(1) in \<open>auto split: option.splits if_splits\<close>)
  moreover have "length (es_entries st') = length (es_entries st) \<and> es_entries st' ! k = es_entries st ! k"
    using apply_op_entries [OF assms(1)]
  proof (elim disjE exE conjE)
    fix j e assume je: "es_entries st' = (es_entries st)[j := e]" "j < length (es_entries st)"
      and op: "(case op of DeleteField at f \<Rightarrow> j = nat at \<and> \<not> en_deleted (es_entries st ! j) \<and> en_deleted e \<and>
            en_field e = en_field (es_entries st ! j)
        | _ \<Rightarrow> en_deleted e = en_deleted (es_entries st ! j) \<and> (\<exists>p. resolveField (es_entries st) (op_path op) = Inr (j, p)))"
    have rs: "resolveField (es_entries (start_state r)) path = resolveField (es_entries st) path" for path
      by (rule resolve_by_tags) (simp add: assms(2))
    have "j \<in> touched r op" if "\<forall>at f. op \<noteq> InsertField at f" "\<forall>a b. op \<noteq> MoveField a b" "\<forall>at a b. op \<noteq> SetTag at a b"
      using op that by (cases op) (auto simp: touched_def rs)
    moreover have "es_entries st' = es_entries st" if "(\<exists>at f. op = InsertField at f) \<or> (\<exists>a b. op = MoveField a b) \<or> (\<exists>at a b. op = SetTag at a b)"
      using that assms(1) by (auto simp: bind_res_Inr_iff split: option.splits if_splits)
    ultimately show ?thesis using je assms(3) by (metis nth_list_update_neq length_list_update)
  qed simp
  ultimately show ?thesis by blast
qed

lemma run_ops_untouched:
  assumes "run_ops opts seq ops st = Inr st'" "entry_tags (es_entries st) = entry_tags (es_entries (start_state r))"
    and "\<And>op. op \<in> set ops \<Longrightarrow> k \<notin> touched r op" "k \<notin> fst ` set (es_retags st)"
  shows "length (es_entries st') = length (es_entries st) \<and> es_entries st' ! k = es_entries st ! k \<and> k \<notin> fst ` set (es_retags st')"
  using assms
proof (induction ops arbitrary: seq st)
  case (Cons op ops)
  then obtain st1 where st1: "apply_op opts seq op st = Inr st1" "run_ops opts (Suc seq) ops st1 = Inr st'"
    by (auto simp: bind_res_Inr_iff)
  note U = apply_op_untouched [OF st1(1) Cons.prems(2) Cons.prems(3) [of op, simplified]]
  have "entry_tags (es_entries st1) = entry_tags (es_entries (start_state r))"
    using apply_op_tags [OF st1(1)] Cons.prems(2) by simp
  moreover have "k \<notin> fst ` set (es_retags st1)" using U Cons.prems(4) by (metis UnE image_Un set_append)
  ultimately show ?case using Cons.IH [OF st1(2)] Cons.prems(3) U by simp
qed simp

lemma fold_retag_length [simp]: "length (fold retag ts es) = length es"
  by (induction ts arbitrary: es) (auto simp: retag_def split: prod.split)

lemma fold_retag_other: "k \<notin> fst ` set ts \<Longrightarrow> fold retag ts es ! k = es ! k"
  by (induction ts arbitrary: es) (auto simp: retag_def split: prod.splits)

lemma fold_retag_deleted: "en_deleted (fold retag ts es ! k) = en_deleted (es ! k)"
proof (induction ts arbitrary: es)
  case (Cons t ts)
  have "en_deleted (retag t es ! k) = en_deleted (es ! k)"
    by (cases t; cases "fst t = k"; cases "k < length es") (auto simp: retag_def list_update_beyond not_less)
  with Cons show ?case by simp
qed simp

lemma mset_move_entry: "mset (move_entry es m xs) = mset xs"
proof (cases m)
  case (Pair a b)
  show ?thesis
  proof (cases "a \<in> set xs")
    case True
    then obtain ys zs where xs: "xs = ys @ a # zs" "a \<notin> set ys" by (meson split_list_first)
    then have "index_of a xs = Some (length ys)" by (simp add: index_of_append)
    moreover have "mset (insert_at j a us) = add_mset a (mset us)" for j us
      using mset_append [of "take j us" "drop j us"] by (simp add: insert_at_def)
    ultimately show ?thesis using Pair xs by (simp add: move_entry_def Let_def remove_at_def)
  next
    case False
    then show ?thesis by (simp add: Pair move_entry_def index_of_def)
  qed
qed

lemma mset_moves: "mset (fold (move_entry es) ms xs) = mset xs"
  by (induction ms arbitrary: xs) (simp_all add: mset_move_entry)

lemma mset_lay_out: "mset (lay_out es xs ins) = mset (map (\<lambda>i. en_field (es ! i)) xs) + mset (map in_field ins)"
proof (induction xs arbitrary: ins)
  case (Cons i xs)
  let ?P = "\<lambda>s. in_at s \<le> int i"
  have "mset (map in_field ins) = mset (map in_field (takeWhile ?P ins)) + mset (map in_field (dropWhile ?P ins))"
    by (metis map_append mset_append takeWhile_dropWhile_id)
  with Cons [of "dropWhile ?P ins"] show ?case by simp
qed simp

text \<open>The fields of the result are the fields that were not deleted, as edited, and the inserted ones.\<close>

lemma rebuild_fields:
  "mset (mr_fields (rebuild st)) =
    mset (map (\<lambda>i. en_field (fold retag (es_retags st) (es_entries st) ! i)) (survivors (es_entries st))) +
    mset (map in_field (es_inserts st))"
proof -
  let ?es = "fold retag (es_retags st) (es_entries st)"
  have "survivors ?es = survivors (es_entries st)" by (simp add: survivors_def fold_retag_deleted)
  moreover have "mset (map f xs) = mset (map f ys)" if "mset xs = mset ys" for f :: "nat \<Rightarrow> marc_field" and xs ys
    using that by (metis mset_map)
  moreover have "mset (map in_field (js_sort compare_inserts (es_inserts st))) = mset (map in_field (es_inserts st))"
    by (metis mset_js_sort mset_map)
  ultimately show ?thesis by (simp add: rebuild_def Let_def mset_lay_out mset_moves)
qed

theorem untouched_fields_kept:
  assumes "edit_batch opts r ops = Inr r'"
  shows "mset (map ((!) (mr_fields r)) (filter (\<lambda>k. \<forall>op \<in> set ops. k \<notin> touched r op) [0..<length (mr_fields r)]))
    \<subseteq># mset (mr_fields r')"
proof -
  obtain st where st: "run_ops opts 0 ops (start_state r) = Inr st" and r': "r' = rebuild st"
    using assms by (auto simp: edit_batch_def bind_res_Inr_iff)
  let ?n = "length (mr_fields r)" and ?es = "fold retag (es_retags st) (es_entries st)"
  let ?keep = "filter (\<lambda>k. \<forall>op \<in> set ops. k \<notin> touched r op) [0..<?n]"
  have U: "length (es_entries st) = ?n \<and> es_entries st ! k = es_entries (start_state r) ! k \<and> k \<notin> fst ` set (es_retags st)"
    if "\<forall>op \<in> set ops. k \<notin> touched r op" for k
    using run_ops_untouched [OF st refl, of k] that by simp
  have keep: "en_field (?es ! k) = mr_fields r ! k \<and> k < length (es_entries st) \<and> \<not> en_deleted (es_entries st ! k)" if "k \<in> set ?keep" for k
    using that U [of k] by (auto simp: fold_retag_other start_entry)
  have "mset ?keep \<subseteq># mset (survivors (es_entries st))"
  proof -
    have "set ?keep \<subseteq> set (survivors (es_entries st))" using keep by (auto simp: survivors_def)
    then show ?thesis by (simp add: mset_set_set [symmetric] survivors_def subset_imp_msubset_mset_set)
  qed
  then have "mset (map (\<lambda>i. en_field (?es ! i)) ?keep) \<subseteq># mset (map (\<lambda>i. en_field (?es ! i)) (survivors (es_entries st)))"
    by (simp add: image_mset_subseteq_mono)
  moreover have "map (\<lambda>i. en_field (?es ! i)) ?keep = map ((!) (mr_fields r)) ?keep" using keep by simp
  ultimately show ?thesis
    by (simp add: r' rebuild_fields) (meson mset_subset_eq_add_left subset_mset.order_trans)
qed

section \<open>Without moves, a positional merge\<close>

text \<open>What a batch stages, read off its operations.\<close>

fun inserts_of :: "nat \<Rightarrow> marc_op list \<Rightarrow> staged_insert list" where
  "inserts_of seq [] = []"
| "inserts_of seq (op # ops) = (case op of InsertField at f \<Rightarrow> [\<lparr>in_at = at, in_field = f, in_seq = seq\<rparr>] | _ \<Rightarrow> []) @
     inserts_of (Suc seq) ops"

fun moves_of :: "marc_op list \<Rightarrow> (nat \<times> nat) list" where
  "moves_of [] = []"
| "moves_of (op # ops) = (case op of MoveField a b \<Rightarrow> [(nat a, nat b)] | _ \<Rightarrow> []) @ moves_of ops"

lemma apply_op_staged:
  assumes "apply_op opts seq op st = Inr st'"
  shows "es_inserts st' = es_inserts st @ inserts_of seq [op] \<and> es_moves st' = es_moves st @ moves_of [op] \<and>
    length (es_entries st') = length (es_entries st) \<and>
    (\<forall>s \<in> set (inserts_of seq [op]). 0 \<le> in_at s \<and> in_at s \<le> int (length (es_entries st)))"
proof (cases op)
  case (SetIndicators path old new)
  from assms [unfolded SetIndicators apply_op.simps] show ?thesis
    by (rule edit_entry) (auto simp: SetIndicators bind_res_Inr_iff set_field_def split: if_splits)
next
  case (InsertSubfield path at sf)
  from assms [unfolded InsertSubfield apply_op.simps] show ?thesis
    by (rule edit_entry) (auto simp: InsertSubfield set_field_def split: if_splits)
next
  case (DeleteSubfield path at sf)
  from assms [unfolded DeleteSubfield apply_op.simps] show ?thesis
    by (rule edit_entry) (auto simp: DeleteSubfield set_field_def split: if_splits option.splits)
next
  case (SetValue path old new)
  with assms obtain q where "parseOpPath path = Inr q" by (auto simp: bind_res_Inr_iff)
  with assms SetValue show ?thesis by (cases q) (auto simp: bind_res_Inr_iff set_field_def)
qed (use assms in \<open>auto simp: bind_res_Inr_iff split: option.splits if_splits\<close>)

lemma run_ops_staged:
  assumes "run_ops opts seq ops st = Inr st'"
  shows "es_inserts st' = es_inserts st @ inserts_of seq ops \<and> es_moves st' = es_moves st @ moves_of ops \<and>
    length (es_entries st') = length (es_entries st) \<and>
    (\<forall>s \<in> set (inserts_of seq ops). 0 \<le> in_at s \<and> in_at s \<le> int (length (es_entries st)))"
  using assms
proof (induction ops arbitrary: seq st)
  case (Cons op ops)
  then obtain st1 where st1: "apply_op opts seq op st = Inr st1" "run_ops opts (Suc seq) ops st1 = Inr st'"
    by (auto simp: bind_res_Inr_iff)
  have "inserts_of seq (op # ops) = inserts_of seq [op] @ inserts_of (Suc seq) ops" "moves_of (op # ops) = moves_of [op] @ moves_of ops"
    by simp_all
  with apply_op_staged [OF st1(1)] Cons.IH [OF st1(2)] show ?case by (auto simp del: inserts_of.simps moves_of.simps)
qed simp

lemma inserts_of_seq: "s \<in> set (inserts_of seq ops) \<Longrightarrow> seq \<le> in_seq s"
  by (induction ops arbitrary: seq) (fastforce split: marc_op.splits)+

lemma inserts_of_sorted: "sorted_wrt (\<lambda>s t. in_seq s < in_seq t) (inserts_of seq ops)"
proof (induction ops arbitrary: seq)
  case (Cons op ops)
  then show ?case using inserts_of_seq [of _ "Suc seq" ops] by (auto simp: sorted_wrt_append Suc_le_eq split: marc_op.split)
qed simp

interpretation insert_order: keyed_comparator compare_inserts in_seq
  by unfold_locales (auto simp: compare_inserts_def split: if_splits)

definition at_pos :: "staged_insert list \<Rightarrow> nat \<Rightarrow> staged_insert list" where
  "at_pos ins i = filter (\<lambda>s. in_at s = int i) ins"

lemma mset_filter_next: "mset (filter (\<lambda>s. in_at s < int (Suc m)) ins) =
    mset (filter (\<lambda>s. in_at s < int m) ins) + mset (filter (\<lambda>s. in_at s = int m) ins)"
  by (induction ins) auto

lemma sort_inserts:
  assumes "sorted_wrt (\<lambda>s t. in_seq s < in_seq t) ins" "\<And>s. s \<in> set ins \<Longrightarrow> 0 \<le> in_at s \<and> in_at s \<le> int n"
  shows "js_sort compare_inserts ins = concat (map (at_pos ins) [0..<Suc n])"
proof (rule insert_order.sorted_unique)
  have part: "mset (concat (map (at_pos ins) [0..<m])) = mset (filter (\<lambda>s. in_at s < int m) ins) \<and>
      sorted_wrt (\<lambda>a b. compare_inserts a b \<le> 0) (concat (map (at_pos ins) [0..<m])) \<and>
      (\<forall>s \<in> set (concat (map (at_pos ins) [0..<m])). in_at s < int m)" for m
  proof (induction m)
    case 0
    have "filter (\<lambda>s. in_at s < 0) ins = []" unfolding filter_empty_conv using assms(2) by (meson not_le)
    then show ?case by simp
  next
    case (Suc m)
    have "sorted_wrt (\<lambda>s t. in_seq s < in_seq t) (at_pos ins m)" unfolding at_pos_def by (rule sorted_wrt_filter [OF assms(1)])
    then have seq: "sorted_wrt (\<lambda>a b. compare_inserts a b \<le> 0) (at_pos ins m)"
      by (rule sorted_wrt_mono_rel [rotated]) (auto simp: at_pos_def compare_inserts_def)
    let ?low = "concat (map (at_pos ins) [0..<m])"
    have low: "in_at a < int m" if "a \<in> set ?low" for a using Suc that by blast
    have here: "in_at b = int m" if "b \<in> set (at_pos ins m)" for b using that by (simp add: at_pos_def)
    have "compare_inserts a b \<le> 0" if "a \<in> set ?low" "b \<in> set (at_pos ins m)" for a b
      using low [OF that(1)] here [OF that(2)] by (simp add: compare_inserts_def)
    then have "sorted_wrt (\<lambda>a b. compare_inserts a b \<le> 0) (?low @ at_pos ins m)"
      unfolding sorted_wrt_append using Suc seq by blast
    moreover have "mset (filter (\<lambda>s. in_at s < int (Suc m)) ins) = mset (filter (\<lambda>s. in_at s < int m) ins) + mset (at_pos ins m)"
      unfolding at_pos_def by (rule mset_filter_next)
    then have "mset (?low @ at_pos ins m) = mset (filter (\<lambda>s. in_at s < int (Suc m)) ins)"
      using Suc by (simp only: mset_append)
    moreover have "\<forall>s \<in> set (?low @ at_pos ins m). in_at s < int (Suc m)"
    proof
      fix s assume "s \<in> set (?low @ at_pos ins m)"
      then have "s \<in> set ?low \<or> s \<in> set (at_pos ins m)" by (simp only: set_append Un_iff)
      with low [of s] here [of s] show "in_at s < int (Suc m)" by linarith
    qed
    moreover have "concat (map (at_pos ins) [0..<Suc m]) = ?low @ at_pos ins m" by simp
    ultimately show ?case by (simp only:)
  qed
  have "filter (\<lambda>s. in_at s < int (Suc n)) ins = ins"
    unfolding filter_id_conv using assms(2) by (metis le_imp_less_Suc of_nat_Suc zle_add1_eq_le add.commute)
  then show "mset (js_sort compare_inserts ins) = mset (concat (map (at_pos ins) [0..<Suc n]))" using part [of "Suc n"] by simp
  show "sorted_wrt (\<lambda>a b. compare_inserts a b \<le> 0) (concat (map (at_pos ins) [0..<Suc n]))" using part [of "Suc n"] by blast
  have "inj_on in_seq (set ins)"
    using assms(1) strict_sorted_iff [of "map in_seq ins"] by (simp add: sorted_wrt_map distinct_map)
  then show "inj_on in_seq (set (js_sort compare_inserts ins))" by simp
qed (rule insert_order.sorted_js_sort)

text \<open>The specification: at each position what was inserted there, in the order of the batch, then the
  field that was there, unless it was deleted.\<close>

definition positional :: "entry list \<Rightarrow> staged_insert list \<Rightarrow> marc_field list" where
  "positional es ins = concat (map (\<lambda>i. map in_field (at_pos ins i) @
     (if i < length es \<and> \<not> en_deleted (es ! i) then [en_field (es ! i)] else [])) [0..<Suc (length es)])"

lemma takeWhile_none: "(\<And>x. x \<in> set xs \<Longrightarrow> \<not> P x) \<Longrightarrow> takeWhile P xs = [] \<and> dropWhile P xs = xs"
  by (cases xs) auto

lemma lay_out_positional:
  assumes "k \<le> length es" "\<And>s. s \<in> set pre \<Longrightarrow> in_at s < int k"
  shows "lay_out es (filter (\<lambda>i. \<not> en_deleted (es ! i)) [k..<length es]) (pre @ concat (map (at_pos ins) [k..<Suc (length es)])) =
    map in_field pre @ concat (map (\<lambda>i. map in_field (at_pos ins i) @
      (if i < length es \<and> \<not> en_deleted (es ! i) then [en_field (es ! i)] else [])) [k..<Suc (length es)])"
  using assms
proof (induction "length es - k" arbitrary: k pre)
  case 0
  then have "k = length es" by simp
  then show ?case by simp
next
  case (Suc d)
  then have k: "k < length es" "d = length es - Suc k" "Suc k \<le> length es" by auto
  then have up: "[k..<length es] = k # [Suc k..<length es]" "[k..<Suc (length es)] = k # [Suc k..<Suc (length es)]"
    by (simp_all only: upt_conv_Cons less_SucI)
  let ?rest = "concat (map (at_pos ins) [Suc k..<Suc (length es)])"
  show ?case
  proof (cases "en_deleted (es ! k)")
    case True
    have "in_at s < int (Suc k)" if "s \<in> set (pre @ at_pos ins k)" for s
      using that Suc.prems(2) [of s] by (auto simp: at_pos_def)
    then have "lay_out es (filter (\<lambda>i. \<not> en_deleted (es ! i)) [Suc k..<length es]) ((pre @ at_pos ins k) @ ?rest) =
      map in_field (pre @ at_pos ins k) @ concat (map (\<lambda>i. map in_field (at_pos ins i) @
        (if i < length es \<and> \<not> en_deleted (es ! i) then [en_field (es ! i)] else [])) [Suc k..<Suc (length es)])"
      by (rule Suc.hyps(1) [OF k(2,3)])
    with True show ?thesis unfolding up by (simp del: upt_Suc)
  next
    case False
    let ?P = "\<lambda>s. in_at s \<le> int k"
    have all: "\<forall>s \<in> set (pre @ at_pos ins k). ?P s" using Suc.prems(2) by (force simp: at_pos_def)
    have none: "takeWhile ?P ?rest = [] \<and> dropWhile ?P ?rest = ?rest"
      by (rule takeWhile_none) (auto simp: at_pos_def)
    have "takeWhile ?P ((pre @ at_pos ins k) @ ?rest) = pre @ at_pos ins k"
      "dropWhile ?P ((pre @ at_pos ins k) @ ?rest) = ?rest"
      using all none by (simp_all only: takeWhile_append2 dropWhile_append2 append_Nil2)
    with Suc.hyps(1) [OF k(2,3), of "[]"] False k(1) show ?thesis unfolding up by (simp del: upt_Suc)
  qed
qed

theorem batch_without_moves:
  assumes "run_ops opts 0 ops (start_state r) = Inr st" "moves_of ops = []"
  shows "mr_fields (rebuild st) = positional (fold retag (es_retags st) (es_entries st)) (inserts_of 0 ops)"
proof -
  let ?es = "fold retag (es_retags st) (es_entries st)" and ?ins = "inserts_of 0 ops"
  note S = run_ops_staged [OF assms(1)]
  have len: "length ?es = length (mr_fields r)" using S by simp
  have "js_sort compare_inserts ?ins = concat (map (at_pos ?ins) [0..<Suc (length ?es)])"
    by (rule sort_inserts [OF inserts_of_sorted]) (use S len in simp)
  moreover have "survivors (es_entries st) = filter (\<lambda>i. \<not> en_deleted (?es ! i)) [0..<length ?es]"
    by (simp add: survivors_def fold_retag_deleted)
  ultimately show ?thesis
    using lay_out_positional [of 0 ?es "[]" ?ins] S assms(2)
    by (simp add: rebuild_def Let_def positional_def survivors_def fold_retag_deleted del: upt_Suc)
qed

section \<open>The size of the result\<close>

definition count_ops :: "(marc_op \<Rightarrow> bool) \<Rightarrow> marc_op list \<Rightarrow> nat" where
  "count_ops P ops = length (filter P ops)"

definition is_delete :: "marc_op \<Rightarrow> bool" where
  "is_delete op \<longleftrightarrow> (case op of DeleteField _ _ \<Rightarrow> True | _ \<Rightarrow> False)"

definition is_insert :: "marc_op \<Rightarrow> bool" where
  "is_insert op \<longleftrightarrow> (case op of InsertField _ _ \<Rightarrow> True | _ \<Rightarrow> False)"

lemma survivors_same:
  "k < length es \<Longrightarrow> en_deleted e = en_deleted (es ! k) \<Longrightarrow> survivors (es[k := e]) = survivors es"
  by (auto simp: survivors_def nth_list_update intro!: filter_cong)

lemma survivors_delete:
  assumes "k < length es" "en_deleted e" "\<not> en_deleted (es ! k)"
  shows "Suc (length (survivors (es[k := e]))) = length (survivors es)"
proof -
  have "survivors (es[k := e]) = removeAll k (survivors es)"
    using assms by (auto simp: survivors_def nth_list_update removeAll_filter_not_eq intro!: filter_cong)
  moreover have "distinct (survivors es)" "k \<in> set (survivors es)" using assms by (simp_all add: survivors_def)
  ultimately show ?thesis
    by (simp add: distinct_remove1_removeAll [symmetric] length_remove1) (metis Suc_pred length_pos_if_in_set)
qed

lemma apply_op_size:
  assumes "apply_op opts seq op st = Inr st'"
  shows "length (survivors (es_entries st')) + (if is_delete op then 1 else 0) = length (survivors (es_entries st))"
proof (cases "\<exists>at f. op = DeleteField at f")
  case True
  then obtain at f where op: "op = DeleteField at f" by blast
  then obtain e where e: "live_entry (es_entries st) at = Some e" "es_entries st' = (es_entries st)[nat at := e\<lparr>en_deleted := True\<rparr>]"
    using assms by (auto split: option.splits if_splits)
  from live_entry_index [OF e(1)] survivors_delete [of "nat at" "es_entries st" "e\<lparr>en_deleted := True\<rparr>"] e(2) op
  show ?thesis by (simp add: is_delete_def)
next
  case False
  then have "\<not> is_delete op" by (cases op) (simp_all add: is_delete_def)
  moreover have "survivors (es_entries st') = survivors (es_entries st)"
    using apply_op_entries [OF assms] False survivors_same by (cases op) fastforce+
  ultimately show ?thesis by simp
qed

lemma run_ops_size:
  "run_ops opts seq ops st = Inr st' \<Longrightarrow>
   length (survivors (es_entries st')) + count_ops is_delete ops = length (survivors (es_entries st))"
proof (induction ops arbitrary: seq st)
  case (Cons op ops)
  then obtain st1 where st1: "apply_op opts seq op st = Inr st1" "run_ops opts (Suc seq) ops st1 = Inr st'"
    by (auto simp: bind_res_Inr_iff)
  from Cons.IH [OF st1(2)] apply_op_size [OF st1(1)] show ?case by (simp add: count_ops_def split: if_splits)
qed (simp add: count_ops_def)

lemma length_inserts_of: "length (inserts_of seq ops) = count_ops is_insert ops"
  by (induction ops arbitrary: seq) (simp_all add: count_ops_def is_insert_def split: marc_op.split)

theorem batch_size:
  assumes "edit_batch opts r ops = Inr r'"
  shows "length (mr_fields r') + count_ops is_delete ops = length (mr_fields r) + count_ops is_insert ops"
proof -
  obtain st where st: "run_ops opts 0 ops (start_state r) = Inr st" and r': "r' = rebuild st"
    using assms by (auto simp: edit_batch_def bind_res_Inr_iff)
  have "length (mr_fields r') = length (survivors (es_entries st)) + length (es_inserts st)"
    using arg_cong [OF rebuild_fields [of st], of size] by (simp add: r')
  with run_ops_size [OF st] run_ops_staged [OF st] show ?thesis
    by (simp add: survivors_start length_inserts_of)
qed

section \<open>Where a batch does not do what its comments say\<close>

definition letter :: "string \<Rightarrow> marc_field" where
  "letter c = DataField (text_of ''500'') [32, 32] [(text_of ''a'', text_of c)] []"

definition letters :: marc_record where
  "letters = \<lparr>mr_leader = text_of ''00000nam a2200000 a 4500'', mr_fields = map letter [''A'', ''B'', ''C'', ''D'']\<rparr>"

text \<open>
  An insertion at position 1 is meant to land right before the field that was there. With the last
  field moved to the front it lands before that one, two fields away.
\<close>

lemma insert_drifts_with_a_move:
  "edit_batch plain_options letters [MoveField 3 0, InsertField 1 (letter ''X'')] =
   Inr (letters\<lparr>mr_fields := map letter [''X'', ''D'', ''A'', ''B'', ''C'']\<rparr>)"
  by code_simp

text \<open>
  Inside a field the edits of a batch see each other: after the first subfield is deleted, the path
  written for the second names the third. With the check it is refused, without it the wrong
  subfield is overwritten.
\<close>

definition three_subjects :: marc_record where
  "three_subjects = \<lparr>mr_leader = [], mr_fields = [DataField (text_of ''650'') [32, 48]
     [(text_of ''x'', text_of ''A''), (text_of ''x'', text_of ''B''), (text_of ''x'', text_of ''C'')] []]\<rparr>"

definition drop_first_edit_second :: "marc_op list" where
  "drop_first_edit_second = [DeleteSubfield (text_of ''650[0]'') 0 (text_of ''x'', text_of ''A''),
     SetValue (text_of ''650[0]$x[1]'') (text_of ''B'') (text_of ''Z'')]"

lemma subfield_paths_are_sequential:
  "edit_batch plain_options three_subjects drop_first_edit_second = Inl PreconditionFailed"
  "edit_batch (plain_options\<lparr>ao_unchecked := True\<rparr>) three_subjects drop_first_edit_second =
   Inr (three_subjects\<lparr>mr_fields := [DataField (text_of ''650'') [32, 48]
     [(text_of ''x'', text_of ''B''), (text_of ''x'', text_of ''Z'')] []]\<rparr>)"
  by code_simp+

text \<open>An edit of a field that the same batch deletes is accepted and lost.\<close>

lemma edit_of_a_deleted_field_is_lost:
  "edit_batch plain_options letters [DeleteField 0 (letter ''A''), SetValue (text_of ''500[0]$a[0]'') (text_of ''A'') (text_of ''Z'')] =
   Inr (letters\<lparr>mr_fields := map letter [''B'', ''C'', ''D'']\<rparr>)"
  by code_simp

end
