(* ===== verification/Increasing.thy ===== *)
theory Increasing
  imports Main
begin

text \<open>
  The longest increasing subsequence a diff uses to tell what moved (\<open>longestIncreasingSubsequence\<close> in
  \<open>packages/marc/src/diff.ts\<close>), with its binary search and its array of predecessors, and the proof
  that what it returns is increasing and that nothing longer is. The walk along the predecessors
  has as fuel one more than the number of values; that it is enough is part of the proof.
\<close>

section \<open>The algorithm\<close>

record lis_state =
  ls_tails :: "nat list"
  ls_tailIndex :: "nat list"
  ls_previous :: "nat option list"

function lower_bound :: "nat list \<Rightarrow> nat \<Rightarrow> nat \<Rightarrow> nat \<Rightarrow> nat" where
  "lower_bound tails v lo hi =
     (if lo < hi then
        (let mid = (lo + hi) div 2 in
         if tails ! mid < v then lower_bound tails v (mid + 1) hi else lower_bound tails v lo mid)
      else lo)"
  by pat_completeness auto

termination
  by (relation "measure (\<lambda>(tails, v, lo, hi). hi - lo)") auto

declare lower_bound.simps [simp del]

text \<open>\<open>xs[i] = x\<close> of an index that is at most the length.\<close>

definition put_at :: "nat \<Rightarrow> 'a \<Rightarrow> 'a list \<Rightarrow> 'a list" where
  "put_at i x xs = (if i < length xs then xs[i := x] else xs @ [x])"

definition lis_step :: "nat list \<Rightarrow> nat \<Rightarrow> lis_state \<Rightarrow> lis_state" where
  "lis_step vals i st =
     (let v = vals ! i;
          lo = lower_bound (ls_tails st) v 0 (length (ls_tails st));
          tailIndex = put_at lo i (ls_tailIndex st)
      in \<lparr>ls_tails = put_at lo v (ls_tails st), ls_tailIndex = tailIndex,
          ls_previous = (ls_previous st)[i := (if 0 < lo then Some (tailIndex ! (lo - 1)) else None)]\<rparr>)"

definition lis_loop :: "nat list \<Rightarrow> nat \<Rightarrow> lis_state" where
  "lis_loop vals n = fold (lis_step vals) [0..<n]
     \<lparr>ls_tails = [], ls_tailIndex = [], ls_previous = replicate (length vals) None\<rparr>"

fun follow :: "nat \<Rightarrow> nat option list \<Rightarrow> nat option \<Rightarrow> nat list" where
  "follow 0 previous at = []"
| "follow (Suc fuel) previous at = (case at of None \<Rightarrow> [] | Some i \<Rightarrow> i # follow fuel previous (previous ! i))"

definition longestIncreasingSubsequence :: "nat list \<Rightarrow> nat list" where
  "longestIncreasingSubsequence vals =
     (let st = lis_loop vals (length vals);
          at = (if ls_tails st = [] then None else Some (ls_tailIndex st ! (length (ls_tails st) - 1)))
      in follow (Suc (length vals)) (ls_previous st) at)"

section \<open>The binary search\<close>

lemma lower_bound_spec:
  assumes "sorted_wrt (<) tails" "lo \<le> hi" "hi \<le> length tails"
    and "\<And>l. l < lo \<Longrightarrow> tails ! l < v" "\<And>l. hi \<le> l \<Longrightarrow> l < length tails \<Longrightarrow> v \<le> tails ! l"
  shows "lower_bound tails v lo hi \<le> length tails \<and> (\<forall>l < lower_bound tails v lo hi. tails ! l < v) \<and>
    (\<forall>l. lower_bound tails v lo hi \<le> l \<longrightarrow> l < length tails \<longrightarrow> v \<le> tails ! l)"
  using assms
proof (induction tails v lo hi rule: lower_bound.induct)
  case (1 tails v lo hi)
  show ?case
  proof (cases "lo < hi")
    case False
    then have "lower_bound tails v lo hi = lo" "lo = hi" using "1.prems"(2) by (simp_all add: lower_bound.simps)
    with "1.prems" show ?thesis by auto
  next
    case True
    define mid where "mid = (lo + hi) div 2"
    have mid: "lo \<le> mid" "mid < hi" using True by (auto simp: mid_def)
    have mono: "tails ! l \<le> tails ! k" if "l \<le> k" "k < length tails" for l k
      using sorted_wrt_nth_less [OF "1.prems"(1), of l k] that by (cases "l = k") auto
    show ?thesis
    proof (cases "tails ! mid < v")
      case True
      have "lower_bound tails v (mid + 1) hi \<le> length tails \<and> (\<forall>l < lower_bound tails v (mid + 1) hi. tails ! l < v) \<and>
          (\<forall>l. lower_bound tails v (mid + 1) hi \<le> l \<longrightarrow> l < length tails \<longrightarrow> v \<le> tails ! l)"
      proof (rule "1.IH"(1) [OF \<open>lo < hi\<close> mid_def True "1.prems"(1)])
        show "tails ! l < v" if "l < mid + 1" for l
          using mono [of l mid] that True mid(2) "1.prems"(3) by simp
      qed (use mid "1.prems" in auto)
      with True \<open>lo < hi\<close> show ?thesis by (simp add: lower_bound.simps [of tails v lo hi] mid_def [symmetric])
    next
      case False
      have "lower_bound tails v lo mid \<le> length tails \<and> (\<forall>l < lower_bound tails v lo mid. tails ! l < v) \<and>
          (\<forall>l. lower_bound tails v lo mid \<le> l \<longrightarrow> l < length tails \<longrightarrow> v \<le> tails ! l)"
      proof (rule "1.IH"(2) [OF \<open>lo < hi\<close> mid_def False "1.prems"(1)])
        show "v \<le> tails ! l" if "mid \<le> l" "l < length tails" for l
          using mono [OF that] False by simp
      qed (use mid "1.prems" in auto)
      with False \<open>lo < hi\<close> show ?thesis by (simp add: lower_bound.simps [of tails v lo hi] mid_def [symmetric])
    qed
  qed
qed

section \<open>The invariant\<close>

text \<open>Increasing sequences of indices below \<open>n\<close>.\<close>

definition inc_seq :: "nat list \<Rightarrow> nat \<Rightarrow> nat list \<Rightarrow> bool" where
  "inc_seq vals n is \<longleftrightarrow> sorted_wrt (<) is \<and> sorted_wrt (<) (map ((!) vals) is) \<and> set is \<subseteq> {..<n}"

text \<open>
  \<open>rk i\<close> is the place in the array of tails that \<open>i\<close> was put at: one less than the length of the chain
  of predecessors that ends in \<open>i\<close>.
\<close>

definition lis_inv :: "nat list \<Rightarrow> nat \<Rightarrow> (nat \<Rightarrow> nat) \<Rightarrow> lis_state \<Rightarrow> bool" where
  "lis_inv vals n rk st \<longleftrightarrow>
     length (ls_tailIndex st) = length (ls_tails st) \<and> length (ls_previous st) = length vals \<and>
     sorted_wrt (<) (ls_tails st) \<and>
     (\<forall>l < length (ls_tails st). ls_tailIndex st ! l < n \<and> vals ! (ls_tailIndex st ! l) = ls_tails st ! l \<and>
        rk (ls_tailIndex st ! l) = l) \<and>
     (\<forall>i < n. case ls_previous st ! i of None \<Rightarrow> rk i = 0
        | Some j \<Rightarrow> j < i \<and> vals ! j < vals ! i \<and> rk i = Suc (rk j)) \<and>
     (\<forall>is. is \<noteq> [] \<longrightarrow> inc_seq vals n is \<longrightarrow>
        length is \<le> length (ls_tails st) \<and> ls_tails st ! (length is - 1) \<le> vals ! last is)"

lemma put_at_nth: "i \<le> length xs \<Longrightarrow> k < length (put_at i x xs) \<Longrightarrow> put_at i x xs ! k = (if k = i then x else xs ! k)"
  by (auto simp: put_at_def nth_append)

lemma length_put_at_end: "i \<le> length xs \<Longrightarrow> length (put_at i x xs) = max (length xs) (Suc i)"
  by (auto simp: put_at_def)

lemma inc_seq_Suc:
  assumes "inc_seq vals (Suc n) is" "is \<noteq> []"
  shows "inc_seq vals n is \<or> (last is = n \<and> inc_seq vals n (butlast is) \<and>
    (butlast is \<noteq> [] \<longrightarrow> vals ! last (butlast is) < vals ! n))"
proof -
  obtain js k where js: "is = js @ [k]" using assms(2) by (metis append_butlast_last_id)
  have k: "k < Suc n" and low: "\<forall>j \<in> set js. j < k \<and> vals ! j < vals ! k" and inc: "inc_seq vals k js"
    using assms(1) by (auto simp: inc_seq_def js sorted_wrt_append)
  show ?thesis
  proof (cases "k = n")
    case True
    with inc low show ?thesis by (simp add: js)
  next
    case False
    with k low assms(1) show ?thesis by (fastforce simp: js inc_seq_def)
  qed
qed

lemma lis_inv_step:
  assumes inv: "lis_inv vals n rk st" and n: "n < length vals"
  shows "\<exists>rk'. lis_inv vals (Suc n) rk' (lis_step vals n st)"
proof -
  define v where "v = vals ! n"
  define lo where "lo = lower_bound (ls_tails st) v 0 (length (ls_tails st))"
  let ?T = "ls_tails st" and ?I = "ls_tailIndex st"
  have srt: "sorted_wrt (<) ?T" and lens: "length ?I = length ?T" "length (ls_previous st) = length vals"
    using inv by (simp_all add: lis_inv_def)
  have "lo \<le> length ?T \<and> (\<forall>l < lo. ?T ! l < v) \<and> (\<forall>l. lo \<le> l \<longrightarrow> l < length ?T \<longrightarrow> v \<le> ?T ! l)"
    unfolding lo_def by (rule lower_bound_spec [OF srt]) auto
  then have lo: "lo \<le> length ?T" and below: "\<And>l. l < lo \<Longrightarrow> ?T ! l < v"
    and above: "\<And>l. lo \<le> l \<Longrightarrow> l < length ?T \<Longrightarrow> v \<le> ?T ! l" by auto
  let ?T' = "put_at lo v ?T" and ?I' = "put_at lo n ?I"
  let ?prev = "if 0 < lo then Some (?I' ! (lo - 1)) else None"
  define rk' where "rk' = rk(n := lo)"
  have st': "lis_step vals n st = \<lparr>ls_tails = ?T', ls_tailIndex = ?I', ls_previous = (ls_previous st)[n := ?prev]\<rparr>"
    by (simp add: lis_step_def v_def lo_def Let_def)
  have len': "length ?T' = max (length ?T) (Suc lo)" "length ?I' = max (length ?T) (Suc lo)"
    using lo lens by (simp_all add: length_put_at_end)
  have T': "?T' ! l = (if l = lo then v else ?T ! l)" if "l < length ?T'" for l
    using that lo by (simp add: put_at_nth)
  have I': "?I' ! l = (if l = lo then n else ?I ! l)" if "l < length ?T'" for l
    using that lo lens len' by (simp add: put_at_nth)
  have less: "l < length ?T" if "l < length ?T'" "l \<noteq> lo" for l
    using that lo len' by (simp add: max_def split: if_splits)
  have old: "?I ! l < n \<and> vals ! (?I ! l) = ?T ! l \<and> rk (?I ! l) = l" if "l < length ?T" for l
    using inv that by (simp add: lis_inv_def)
  have longest: "length is \<le> length ?T \<and> ?T ! (length is - 1) \<le> vals ! last is"
    if "is \<noteq> []" "inc_seq vals n is" for "is"
    using inv that unfolding lis_inv_def by blast
  have sorted': "sorted_wrt (<) ?T'"
    unfolding sorted_wrt_iff_nth_less
  proof (intro allI impI)
    fix i j assume ij: "i < j" "j < length ?T'"
    have gt: "?T ! i < ?T ! j" if "i < j" "j < length ?T" for i j
      using sorted_wrt_nth_less [OF srt that] .
    have above': "v < ?T ! j" if "lo < j" "j < length ?T"
      using above [of lo] gt [OF that] that by simp
    show "?T' ! i < ?T' ! j"
      using ij T' [of i] T' [of j] below [of i] gt [of i j] above' less [of j] by (auto split: if_splits)
  qed
  have index': "?I' ! l < Suc n \<and> vals ! (?I' ! l) = ?T' ! l \<and> rk' (?I' ! l) = l" if l: "l < length ?T'" for l
    using T' [OF l] I' [OF l] old [OF less [OF l]] by (auto simp: rk'_def v_def)
  have prev': "case (ls_previous st)[n := ?prev] ! i of None \<Rightarrow> rk' i = 0
      | Some j \<Rightarrow> j < i \<and> vals ! j < vals ! i \<and> rk' i = Suc (rk' j)" if i: "i < Suc n" for i
  proof (cases "i = n")
    case True
    show ?thesis
    proof (cases "0 < lo")
      case pos: True
      then have l: "lo - 1 < length ?T" "lo - 1 < length ?T'" "lo - 1 \<noteq> lo" using lo len' by auto
      then have "?I' ! (lo - 1) = ?I ! (lo - 1)" using I' by simp
      with old [OF l(1)] below [of "lo - 1"] pos n lens True show ?thesis by (simp add: rk'_def v_def)
    qed (use True n lens in \<open>simp add: rk'_def\<close>)
  next
    case False
    with i inv have "case ls_previous st ! i of None \<Rightarrow> rk i = 0
        | Some j \<Rightarrow> j < i \<and> vals ! j < vals ! i \<and> rk i = Suc (rk j)" by (simp add: lis_inv_def)
    with False i show ?thesis by (auto simp: rk'_def split: option.splits)
  qed
  have longest': "length is \<le> length ?T' \<and> ?T' ! (length is - 1) \<le> vals ! last is"
    if ne: "is \<noteq> []" and inc: "inc_seq vals (Suc n) is" for "is"
    using inc_seq_Suc [OF inc ne]
  proof
    assume "inc_seq vals n is"
    with inv ne have "length is \<le> length ?T" "?T ! (length is - 1) \<le> vals ! last is" by (simp_all add: lis_inv_def)
    moreover have "length is - 1 < length ?T" using calculation(1) ne by (cases "is") auto
    ultimately show ?thesis using T' [of "length is - 1"] above [of "length is - 1"] len' by auto
  next
    assume "end": "last is = n \<and> inc_seq vals n (butlast is) \<and> (butlast is \<noteq> [] \<longrightarrow> vals ! last (butlast is) < vals ! n)"
    let ?m = "length is - 1"
    have m: "?m \<le> lo"
    proof (cases "butlast is = []")
      case True
      then have "length (butlast is) = 0" by (simp only: list.size)
      then show ?thesis by simp
    next
      case False
      with longest "end" have b: "length (butlast is) \<le> length ?T" "?T ! (length (butlast is) - 1) \<le> vals ! last (butlast is)"
        by blast+
      with "end" False have "?T ! (?m - 1) < v" by (simp add: v_def)
      moreover have "0 < length (butlast is)" using False unfolding length_greater_0_conv .
      then have "?m - 1 < length ?T" using b(1) by simp
      ultimately have "?m - 1 < lo" using above [of "?m - 1"] by (meson not_le)
      then show ?thesis by simp
    qed
    then have "?m < length ?T'" using len' by simp
    with m T' [of ?m] below [of ?m] "end" ne show ?thesis by (auto simp: v_def)
  qed
  have "lis_inv vals (Suc n) rk' (lis_step vals n st)"
    unfolding lis_inv_def st' using sorted' index' prev' longest' len' lens by simp
  then show ?thesis by (intro exI [of _ rk'])
qed

lemma lis_inv_loop: "n \<le> length vals \<Longrightarrow> \<exists>rk. lis_inv vals n rk (lis_loop vals n)"
proof (induction n)
  case 0
  show ?case by (auto simp: lis_inv_def lis_loop_def inc_seq_def)
next
  case (Suc n)
  then obtain rk where "lis_inv vals n rk (lis_loop vals n)" by auto
  moreover have "lis_loop vals (Suc n) = lis_step vals n (lis_loop vals n)" by (simp add: lis_loop_def)
  ultimately show ?case using lis_inv_step [of vals n rk] Suc.prems by auto
qed

section \<open>The walk back\<close>

lemma follow_chain:
  assumes "lis_inv vals n rk st" "i < n" "rk i < fuel"
  shows "length (follow fuel (ls_previous st) (Some i)) = Suc (rk i) \<and>
    sorted_wrt (>) (follow fuel (ls_previous st) (Some i)) \<and>
    sorted_wrt (>) (map ((!) vals) (follow fuel (ls_previous st) (Some i))) \<and>
    (\<forall>j \<in> set (follow fuel (ls_previous st) (Some i)). j \<le> i \<and> vals ! j \<le> vals ! i)"
  using assms(2,3)
proof (induction fuel arbitrary: i)
  case (Suc fuel)
  have p: "case ls_previous st ! i of None \<Rightarrow> rk i = 0
      | Some j \<Rightarrow> j < i \<and> vals ! j < vals ! i \<and> rk i = Suc (rk j)"
    using assms(1) Suc.prems(1) by (simp add: lis_inv_def)
  show ?case
  proof (cases "ls_previous st ! i")
    case None
    then show ?thesis using p by (cases fuel) auto
  next
    case (Some j)
    with p have j: "j < i" "vals ! j < vals ! i" "rk i = Suc (rk j)" by auto
    have IH: "length (follow fuel (ls_previous st) (Some j)) = Suc (rk j) \<and>
      sorted_wrt (>) (follow fuel (ls_previous st) (Some j)) \<and>
      sorted_wrt (>) (map ((!) vals) (follow fuel (ls_previous st) (Some j))) \<and>
      (\<forall>k \<in> set (follow fuel (ls_previous st) (Some j)). k \<le> j \<and> vals ! k \<le> vals ! j)"
      by (rule Suc.IH) (use j Suc.prems in auto)
    with Some j show ?thesis by fastforce
  qed
qed simp

text \<open>What is returned is an increasing subsequence, and no increasing subsequence is longer.\<close>

theorem lis_correct:
  fixes vals :: "nat list"
  defines "keep \<equiv> longestIncreasingSubsequence vals"
  shows "sorted_wrt (>) keep" "sorted_wrt (>) (map ((!) vals) keep)" "set keep \<subseteq> {..<length vals}"
    "inc_seq vals (length vals) is \<Longrightarrow> length is \<le> length keep"
proof -
  let ?n = "length vals" and ?st = "lis_loop vals (length vals)"
  obtain rk where inv: "lis_inv vals ?n rk ?st" using lis_inv_loop [of ?n vals] by auto
  have all: "sorted_wrt (>) keep \<and> sorted_wrt (>) (map ((!) vals) keep) \<and> set keep \<subseteq> {..<?n} \<and>
      length keep = length (ls_tails ?st)"
  proof (cases "ls_tails ?st = []")
    case True
    then show ?thesis by (simp add: keep_def longestIncreasingSubsequence_def Let_def)
  next
    case False
    let ?l = "length (ls_tails ?st) - 1" and ?i = "ls_tailIndex ?st ! (length (ls_tails ?st) - 1)"
    have l: "?l < length (ls_tails ?st)" using False by simp
    have i: "?i < ?n" "rk ?i = ?l" using inv l by (auto simp: lis_inv_def)
    have rank: "rk j \<le> j" if "j < ?n" for j
      using that
    proof (induction j rule: less_induct)
      case (less j)
      have "case ls_previous ?st ! j of None \<Rightarrow> rk j = 0
        | Some k \<Rightarrow> k < j \<and> vals ! k < vals ! j \<and> rk j = Suc (rk k)"
        using inv less.prems by (simp add: lis_inv_def)
      then show ?case using less by (cases "ls_previous ?st ! j") (auto, fastforce)
    qed
    have "rk ?i < Suc ?n" using rank [OF i(1)] i(1) by simp
    note F = follow_chain [OF inv i(1) this]
    have keep: "keep = follow (Suc ?n) (ls_previous ?st) (Some ?i)"
      using False by (simp add: keep_def longestIncreasingSubsequence_def Let_def)
    show ?thesis using F i False unfolding keep by (auto simp del: follow.simps)
  qed
  then show "sorted_wrt (>) keep" "sorted_wrt (>) (map ((!) vals) keep)" "set keep \<subseteq> {..<?n}" by blast+
  show "length is \<le> length keep" if "inc_seq vals ?n is"
    using all inv that by (cases "is = []") (auto simp: lis_inv_def)
qed

text \<open>Everything stays in place exactly when the values are already increasing.\<close>

lemma strictly_down: "sorted_wrt (>) (xs :: nat list) \<Longrightarrow> distinct xs \<and> sorted (rev xs)"
  using strict_sorted_iff [of "rev xs"] by (simp add: sorted_wrt_rev)

corollary lis_all_iff:
  "set (longestIncreasingSubsequence vals) = {..<length vals} \<longleftrightarrow> sorted_wrt (<) vals"
proof -
  let ?keep = "longestIncreasingSubsequence vals" and ?n = "length vals"
  note d = strictly_down [OF lis_correct(1) [of vals]]
  have up: "sorted_wrt (<) (map ((!) vals) (rev ?keep))"
    unfolding rev_map [symmetric] sorted_wrt_rev by (rule lis_correct(2))
  have id: "map ((!) vals) [0..<?n] = vals" by (rule map_nth)
  show ?thesis
  proof
    assume all: "set ?keep = {..<?n}"
    have "rev ?keep = [0..<?n]"
      by (rule sorted_distinct_set_unique) (use d all in \<open>simp_all add: atLeast0LessThan\<close>)
    with up id show "sorted_wrt (<) vals" by simp
  next
    assume "sorted_wrt (<) vals"
    then have "inc_seq vals ?n [0..<?n]" by (simp add: inc_seq_def id atLeast0LessThan)
    then have "?n \<le> length ?keep" using lis_correct(4) [of vals "[0..<?n]"] by simp
    moreover have "card (set ?keep) = length ?keep" using d by (simp add: distinct_card)
    moreover have "card (set ?keep) \<le> ?n" using card_mono [OF _ lis_correct(3) [of vals]] by simp
    ultimately show "set ?keep = {..<?n}"
      using lis_correct(3) [of vals] by (intro card_subset_eq) simp_all
  qed
qed

end
