(* ===== verification/Marc_Diff.thy ===== *)
theory Marc_Diff
  imports Linkage Increasing Complex_Main
begin

text \<open>
  What changed between two versions of a record (\<open>packages/marc/src/diff.ts\<close>). Fields of one tag are
  aligned by how alike they are, best pair first; the scores, which the code computes as doubles,
  are rationals. \<open>String.prototype.normalize('NFC')\<close> is the parameter \<open>nfc\<close>. Objects the code tells
  apart by identity are told apart by their index.
\<close>

section \<open>Changes\<close>

record leader_change =
  lc_position :: leader_position
  lc_from :: utext
  lc_to :: utext

datatype change_kind = ChangeAdded | ChangeRemoved | ChangeChanged | ChangeMoved

record subfield_change =
  sc_kind :: change_kind
  sc_code :: utext
  sc_occurrence :: nat
  sc_from :: "utext option"
  sc_to :: "utext option"

datatype change_class = ContentClass | NormalizationClass | LinkageClass

record field_change =
  fc_kind :: change_kind
  fc_tag :: utext
  fc_occurrence :: nat
  fc_fromIndex :: "nat option"
  fc_toIndex :: "nat option"
  fc_indicators :: "(utext \<times> utext) option"
  fc_subfields :: "subfield_change list option"
  fc_value :: "(utext \<times> utext) option"
  fc_moved :: bool
  fc_class :: change_class

datatype verdict = VerdictIdentical | VerdictNormalizationOnly | VerdictLinkageOnly | VerdictChanged

record marc_diff =
  md_leader :: "leader_change list"
  md_fields :: "field_change list"
  md_verdict :: verdict
  md_changedTags :: "utext list"

definition LEADER_POSITIONS :: "leader_position list" where
  "LEADER_POSITIONS = [LdrRecordLength, LdrRecordStatus, LdrTypeOfRecord, LdrBibliographicLevel, LdrTypeOfControl,
     LdrCharacterCodingScheme, LdrIndicatorCount, LdrSubfieldCodeCount, LdrBaseAddress, LdrEncodingLevel,
     LdrDescriptiveCatalogingForm, LdrMultipartResourceRecordLevel, LdrEntryMap]"

definition IGNORED_LEADER_POSITIONS :: "leader_position list" where
  "IGNORED_LEADER_POSITIONS = [LdrRecordLength, LdrBaseAddress]"

section \<open>How alike two fields are\<close>

definition grams :: "utext \<Rightarrow> utext list" where
  "grams t = map (\<lambda>i. slice i (i + 2) t) [0..<max (length t - 1) 1]"

text \<open>How many of the items are found in the rest, each taking away the one it found.\<close>

fun count_hits :: "'a list \<Rightarrow> 'a list \<Rightarrow> nat" where
  "count_hits [] rest = 0"
| "count_hits (x # xs) rest = (if x \<in> set rest then Suc (count_hits xs (remove1 x rest)) else count_hits xs rest)"

definition characterOverlap :: "utext \<Rightarrow> utext \<Rightarrow> rat" where
  "characterOverlap a b =
     (if a = [] \<or> b = [] then (if a = b then 1 else 0)
      else of_nat (2 * count_hits (grams a) (grams b)) / of_nat (length (grams a) + length (grams b)))"

definition item_text :: "subfield \<Rightarrow> utext" where
  "item_text sf = fst sf @ [32] @ snd sf"

definition similarity :: "marc_field \<Rightarrow> marc_field \<Rightarrow> rat" where
  "similarity a b = (case (a, b) of
       (ControlField _ v _, ControlField _ w _) \<Rightarrow>
         if v = w then 1 else if v \<noteq> [] \<and> w \<noteq> [] \<and> take 6 v = take 6 w then 1 / 2 else 1 / 10
     | (DataField _ i s _, DataField _ j t _) \<Rightarrow>
         (let left = map item_text s; right = map item_text t in
          if left = [] \<and> right = [] then (if i = j then 1 else 1 / 2)
          else (let overlap = of_nat (2 * count_hits left right) / of_nat (length left + length right) in
            if 0 < overlap then (if i = j then overlap else overlap * (9 / 10))
            else 4 / 10 * characterOverlap (join_space left) (join_space right)))
     | _ \<Rightarrow> 0)"

section \<open>Subfields\<close>

record item =
  it_code :: utext
  it_value :: utext
  it_index :: nat

definition items :: "subfield list \<Rightarrow> item list" where
  "items s = map (\<lambda>(i, c, v). \<lparr>it_code = c, it_value = v, it_index = i\<rparr>) (enumerate 0 s)"

type_synonym item_match = "item \<times> item \<times> bool"

text \<open>Both passes: take the first candidate on the right that is not used yet.\<close>

definition match_with :: "(item \<Rightarrow> item \<Rightarrow> bool) \<Rightarrow> bool \<Rightarrow> item list \<Rightarrow> item \<Rightarrow> nat set \<times> item_match list \<Rightarrow> nat set \<times> item_match list" where
  "match_with P identical right l st = (case find (\<lambda>c. it_index c \<notin> fst st \<and> P l c) right of
       None \<Rightarrow> st | Some r \<Rightarrow> (insert (it_index r) (fst st), snd st @ [(l, r, identical)]))"

definition same_item :: "item \<Rightarrow> item \<Rightarrow> bool" where
  "same_item l c \<longleftrightarrow> it_code c = it_code l \<and> it_value c = it_value l"

definition same_code :: "item \<Rightarrow> item \<Rightarrow> bool" where
  "same_code l c \<longleftrightarrow> it_code c = it_code l"

definition left_matched :: "item_match list \<Rightarrow> item \<Rightarrow> bool" where
  "left_matched ms l \<longleftrightarrow> list_ex (\<lambda>m. it_index (fst m) = it_index l) ms"

definition match_items :: "item list \<Rightarrow> item list \<Rightarrow> nat set \<times> item_match list" where
  "match_items left right =
     (let st = fold (match_with same_item True right) left ({}, []) in
      fold (match_with same_code False right) (filter (\<lambda>l. \<not> left_matched (snd st) l) left) st)"

definition occurrenceOf :: "item list \<Rightarrow> item \<Rightarrow> nat" where
  "occurrenceOf its it = length (filter (\<lambda>x. it_code x = it_code it \<and> it_index x \<le> it_index it) its)"

definition by_left_item :: "item_match \<Rightarrow> item_match \<Rightarrow> int" where
  "by_left_item x y = int (it_index (fst x)) - int (it_index (fst y))"

definition matched_change :: "item list \<Rightarrow> item list \<Rightarrow> nat list \<Rightarrow> nat \<times> item_match \<Rightarrow> subfield_change list" where
  "matched_change left right stayed = (\<lambda>(i, l, r, identical).
     if \<not> identical then [\<lparr>sc_kind = ChangeChanged, sc_code = it_code l, sc_occurrence = occurrenceOf left l,
         sc_from = Some (it_value l), sc_to = Some (it_value r)\<rparr>]
     else if i \<notin> set stayed then [\<lparr>sc_kind = ChangeMoved, sc_code = it_code l, sc_occurrence = occurrenceOf right r,
         sc_from = None, sc_to = None\<rparr>]
     else [])"

definition diffSubfields :: "subfield list \<Rightarrow> subfield list \<Rightarrow> subfield_change list" where
  "diffSubfields a b =
     (let left = items a; right = items b;
          (used, unsorted) = match_items left right;
          matched = js_sort by_left_item unsorted;
          stayed = longestIncreasingSubsequence (map (\<lambda>m. it_index (fst (snd m))) matched)
      in concat (map (matched_change left right stayed) (enumerate 0 matched)) @
         map (\<lambda>l. \<lparr>sc_kind = ChangeRemoved, sc_code = it_code l, sc_occurrence = occurrenceOf left l,
             sc_from = Some (it_value l), sc_to = None\<rparr>) (filter (\<lambda>l. \<not> left_matched matched l) left) @
         map (\<lambda>r. \<lparr>sc_kind = ChangeAdded, sc_code = it_code r, sc_occurrence = occurrenceOf right r,
             sc_from = None, sc_to = Some (it_value r)\<rparr>) (filter (\<lambda>r. it_index r \<notin> used) right))"

section \<open>Fields\<close>

definition classOf :: "(utext \<Rightarrow> utext) \<Rightarrow> utext \<Rightarrow> utext \<Rightarrow> change_class" where
  "classOf nfc from to = (if from \<noteq> to \<and> nfc from = nfc to then NormalizationClass else ContentClass)"

definition isOccurrenceOnly :: "utext option \<Rightarrow> utext option \<Rightarrow> bool" where
  "isOccurrenceOnly from to = (case (from, to) of
       (Some u, Some v) \<Rightarrow> (case (parseLinkage u, parseLinkage v) of
           (Some a, Some b) \<Rightarrow> lk_tag a = lk_tag b \<and> lk_script a = lk_script b \<and> lk_orientation a = lk_orientation b
         | _ \<Rightarrow> False)
     | _ \<Rightarrow> False)"

type_synonym positioned = "nat \<times> marc_field"

record aligned =
  al_tag :: utext
  al_occurrence :: nat
  al_l :: positioned
  al_r :: positioned

definition moved_change :: "aligned \<Rightarrow> field_change" where
  "moved_change p = \<lparr>fc_kind = ChangeMoved, fc_tag = al_tag p, fc_occurrence = al_occurrence p,
     fc_fromIndex = Some (fst (al_l p)), fc_toIndex = Some (fst (al_r p)), fc_indicators = None,
     fc_subfields = None, fc_value = None, fc_moved = True, fc_class = ContentClass\<rparr>"

definition diff_values :: "(utext \<Rightarrow> utext) \<Rightarrow> aligned \<Rightarrow> bool \<Rightarrow> utext \<Rightarrow> utext \<Rightarrow> field_change option" where
  "diff_values nfc p moved av bv =
     (if av = bv then (if moved then Some (moved_change p) else None)
      else Some \<lparr>fc_kind = ChangeChanged, fc_tag = al_tag p, fc_occurrence = al_occurrence p,
        fc_fromIndex = Some (fst (al_l p)), fc_toIndex = Some (fst (al_r p)), fc_indicators = None,
        fc_subfields = None, fc_value = Some (av, bv), fc_moved = moved, fc_class = classOf nfc av bv\<rparr>)"

definition diffField :: "(utext \<Rightarrow> utext) \<Rightarrow> aligned \<Rightarrow> bool \<Rightarrow> field_change option" where
  "diffField nfc p moved = (case (snd (al_l p), snd (al_r p)) of
       (DataField _ ai asub _, DataField _ bi bsub _) \<Rightarrow>
         (let inds = (if ai = bi then None else Some (ai, bi)); subs = diffSubfields asub bsub in
          if inds = None \<and> subs = [] then (if moved then Some (moved_change p) else None)
          else (let linkageOnly = (inds = None \<and> subs \<noteq> [] \<and>
                      list_all (\<lambda>s. sc_code s = LINKAGE_SUBFIELD \<and> isOccurrenceOnly (sc_from s) (sc_to s)) subs);
                    normalizationOnly = (inds = None \<and> subs \<noteq> [] \<and>
                      list_all (\<lambda>s. sc_kind s = ChangeChanged \<and>
                        classOf nfc (case sc_from s of None \<Rightarrow> [] | Some t \<Rightarrow> t) (case sc_to s of None \<Rightarrow> [] | Some t \<Rightarrow> t)
                          = NormalizationClass) subs)
            in Some \<lparr>fc_kind = ChangeChanged, fc_tag = al_tag p, fc_occurrence = al_occurrence p,
                 fc_fromIndex = Some (fst (al_l p)), fc_toIndex = Some (fst (al_r p)), fc_indicators = inds,
                 fc_subfields = Some subs, fc_value = None, fc_moved = moved,
                 fc_class = (if linkageOnly then LinkageClass else if normalizationOnly then NormalizationClass else ContentClass)\<rparr>))
     | (ControlField _ av _, ControlField _ bv _) \<Rightarrow> diff_values nfc p moved av bv
     | (ControlField _ av _, DataField _ _ _ _) \<Rightarrow> diff_values nfc p moved av []
     | (DataField _ _ _ _, ControlField _ bv _) \<Rightarrow> diff_values nfc p moved [] bv)"

section \<open>Aligning the fields of a tag\<close>

definition indexed :: "marc_field list \<Rightarrow> utext \<Rightarrow> positioned list" where
  "indexed fs tag = filter (\<lambda>p. field_tag (snd p) = tag) (enumerate 0 fs)"

record scored =
  pr_l :: positioned
  pr_r :: positioned
  pr_score :: rat

definition compare_scored :: "scored \<Rightarrow> scored \<Rightarrow> int" where
  "compare_scored a b =
     (if pr_score a \<noteq> pr_score b then (if pr_score b < pr_score a then - 1 else 1)
      else if fst (pr_l a) \<noteq> fst (pr_l b) then int (fst (pr_l a)) - int (fst (pr_l b))
      else int (fst (pr_r a)) - int (fst (pr_r b)))"

definition all_pairs :: "positioned list \<Rightarrow> positioned list \<Rightarrow> scored list" where
  "all_pairs left right = concat (map (\<lambda>l. map (\<lambda>r. \<lparr>pr_l = l, pr_r = r, pr_score = similarity (snd l) (snd r)\<rparr>) right) left)"

fun greedy :: "scored list \<Rightarrow> nat set \<Rightarrow> nat set \<Rightarrow> (positioned \<times> positioned) list" where
  "greedy [] usedLeft usedRight = []"
| "greedy (p # ps) usedLeft usedRight =
     (if pr_score p \<le> 0 then []
      else if fst (pr_l p) \<in> usedLeft \<or> fst (pr_r p) \<in> usedRight then greedy ps usedLeft usedRight
      else (pr_l p, pr_r p) # greedy ps (insert (fst (pr_l p)) usedLeft) (insert (fst (pr_r p)) usedRight))"

definition by_right_index :: "positioned \<times> positioned \<Rightarrow> positioned \<times> positioned \<Rightarrow> int" where
  "by_right_index a b = int (fst (snd a)) - int (fst (snd b))"

definition describe_field :: "change_kind \<Rightarrow> utext \<Rightarrow> nat \<Rightarrow> nat option \<Rightarrow> nat option \<Rightarrow> marc_field \<Rightarrow> field_change" where
  "describe_field kind tag occ fromIndex toIndex f =
     \<lparr>fc_kind = kind, fc_tag = tag, fc_occurrence = occ, fc_fromIndex = fromIndex, fc_toIndex = toIndex,
      fc_indicators = (case f of ControlField _ _ _ \<Rightarrow> None | DataField _ i _ _ \<Rightarrow> Some (i, i)),
      fc_subfields = (case f of ControlField _ _ _ \<Rightarrow> None
        | DataField _ _ s _ \<Rightarrow> Some (map (\<lambda>(i, sf). \<lparr>sc_kind = ChangeAdded, sc_code = fst sf, sc_occurrence = i + 1,
            sc_from = None, sc_to = Some (snd sf)\<rparr>) (enumerate 0 s))),
      fc_value = (case f of ControlField _ v _ \<Rightarrow> Some (v, v) | DataField _ _ _ _ \<Rightarrow> None),
      fc_moved = False, fc_class = ContentClass\<rparr>"

definition align :: "utext \<Rightarrow> positioned list \<Rightarrow> positioned list \<Rightarrow> aligned list \<times> field_change list" where
  "align tag left right =
     (let pairs = js_sort compare_scored (all_pairs left right);
          matched = greedy pairs {} {};
          usedLeft = set (map (\<lambda>m. fst (fst m)) matched);
          usedRight = set (map (\<lambda>m. fst (snd m)) matched);
          sorted = js_sort by_right_index matched
      in (map (\<lambda>(i, l, r). \<lparr>al_tag = tag, al_occurrence = i + 1, al_l = l, al_r = r\<rparr>) (enumerate 0 sorted),
          map (\<lambda>(i, l). describe_field ChangeRemoved tag (i + 1) (Some (fst l)) None (snd l))
            (filter (\<lambda>(i, l). fst l \<notin> usedLeft) (enumerate 0 left)) @
          map (\<lambda>(i, r). describe_field ChangeAdded tag (i + 1) None (Some (fst r)) (snd r))
            (filter (\<lambda>(i, r). fst r \<notin> usedRight) (enumerate 0 right))))"

section \<open>The diff\<close>

definition diff_leader :: "utext \<Rightarrow> utext \<Rightarrow> leader_change list" where
  "diff_leader a b = concat (map (\<lambda>p. if p \<in> set IGNORED_LEADER_POSITIONS \<or> leaderAt a p = leaderAt b p then []
     else [\<lparr>lc_position = p, lc_from = leaderAt a p, lc_to = leaderAt b p\<rparr>]) LEADER_POSITIONS)"

definition by_left_index :: "aligned \<Rightarrow> aligned \<Rightarrow> int" where
  "by_left_index a b = int (fst (al_l a)) - int (fst (al_l b))"

definition place_of :: "field_change \<Rightarrow> nat" where
  "place_of f = (case fc_toIndex f of Some i \<Rightarrow> i | None \<Rightarrow> (case fc_fromIndex f of Some i \<Rightarrow> i | None \<Rightarrow> 0))"

definition by_place :: "field_change \<Rightarrow> field_change \<Rightarrow> int" where
  "by_place a b = int (place_of a) - int (place_of b)"

definition all_tags :: "marc_field list \<Rightarrow> marc_field list \<Rightarrow> utext list" where
  "all_tags as bs = sort (remdups (map field_tag as @ map field_tag bs))"

definition align_all :: "marc_field list \<Rightarrow> marc_field list \<Rightarrow> aligned list \<times> field_change list" where
  "align_all as bs = (let parts = map (\<lambda>tag. align tag (indexed as tag) (indexed bs tag)) (all_tags as bs) in
     (concat (map fst parts), concat (map snd parts)))"

definition diff_fields :: "(utext \<Rightarrow> utext) \<Rightarrow> marc_field list \<Rightarrow> marc_field list \<Rightarrow> field_change list" where
  "diff_fields nfc as bs =
     (let (unsorted, unmatched) = align_all as bs;
          aligned = js_sort by_left_index unsorted;
          stayed = longestIncreasingSubsequence (map (\<lambda>p. fst (al_r p)) aligned)
      in js_sort by_place (concat (map (\<lambda>(i, p). case diffField nfc p (i \<notin> set stayed) of None \<Rightarrow> [] | Some c \<Rightarrow> [c])
            (enumerate 0 aligned)) @ unmatched))"

definition diff :: "(utext \<Rightarrow> utext) \<Rightarrow> marc_record \<Rightarrow> marc_record \<Rightarrow> marc_diff" where
  "diff nfc a b =
     (let leader = diff_leader (mr_leader a) (mr_leader b);
          fields = diff_fields nfc (mr_fields a) (mr_fields b)
      in \<lparr>md_leader = leader, md_fields = fields,
          md_verdict = (if leader = [] \<and> fields = [] then VerdictIdentical
            else if list_all (\<lambda>f. fc_class f = NormalizationClass) fields \<and> leader = [] then VerdictNormalizationOnly
            else if list_all (\<lambda>f. fc_class f = LinkageClass) fields \<and> leader = [] then VerdictLinkageOnly
            else VerdictChanged),
          md_changedTags = sort (remdups (map fc_tag fields))\<rparr>)"

end
