(* ===== verification/Diff_Subfields.thy ===== *)
theory Diff_Subfields
  imports Marc_Diff
begin

text \<open>
  The alignment of subfields (\<open>diffSubfields\<close> in \<open>packages/marc/src/diff.ts\<close>) and the scores of
  fields: two subfield lists have no difference exactly when they are equal, order included, and a
  score is between 0 and 1, and 1 for fields of the same content.
\<close>

section \<open>Lists that cover an interval\<close>

lemma strict_cover:
  assumes "sorted_wrt (<) (xs :: nat list)" "set xs = {..<n}"
  shows "xs = [0..<n]"
  using assms strict_sorted_iff [of xs] by (intro sorted_distinct_set_unique) (auto simp: atLeast0LessThan)

lemma strict_sorted_of_keys:
  assumes "sorted_wrt (\<lambda>a b. int (f a) - int (f b) \<le> 0) xs" "distinct (map f xs)"
  shows "sorted_wrt (<) (map f xs)"
proof -
  have "sorted (map f xs)"
    using assms(1) by (simp add: sorted_wrt_map)
  with assms(2) show ?thesis by (simp add: strict_sorted_iff)
qed

section \<open>Scores\<close>

lemma count_hits_mset: "count_hits xs ys = size (mset xs \<inter># mset ys)"
proof (induction xs arbitrary: ys)
  case (Cons x xs)
  show ?case
  proof (cases "x \<in> set ys")
    case True
    then have "mset (x # xs) \<inter># mset ys = add_mset x (mset xs \<inter># mset (remove1 x ys))"
      by (simp add: inter_add_left2)
    with True Cons show ?thesis by simp
  next
    case False
    with Cons show ?thesis by (simp add: inter_add_left1)
  qed
qed simp

lemma count_hits_le: "count_hits xs ys \<le> length xs" "count_hits xs ys \<le> length ys"
  unfolding count_hits_mset by (metis size_mset size_mset_mono subset_mset.inf.cobounded1,
      metis size_mset size_mset_mono subset_mset.inf.cobounded2)

lemma count_hits_self [simp]: "count_hits xs xs = length xs"
  by (simp add: count_hits_mset)

lemma ratio_bounds:
  assumes "h \<le> n" "h \<le> m"
  shows "0 \<le> (of_nat (2 * h) / of_nat (n + m) :: rat)" "(of_nat (2 * h) / of_nat (n + m) :: rat) \<le> 1"
proof -
  have "2 * h \<le> n + m" using assms by simp
  then have "(of_nat (2 * h) :: rat) \<le> of_nat (n + m)" by (simp only: of_nat_le_iff)
  then show "(of_nat (2 * h) / of_nat (n + m) :: rat) \<le> 1" by (cases "n + m = 0") (simp_all add: divide_le_eq)
qed simp

lemma characterOverlap_bounds: "0 \<le> characterOverlap a b" "characterOverlap a b \<le> 1"
  using ratio_bounds [OF count_hits_le, of "grams a" "grams b"] by (simp_all add: characterOverlap_def)

theorem similarity_bounds: "0 \<le> similarity a b" "similarity a b \<le> 1"
proof -
  have "0 \<le> similarity a b \<and> similarity a b \<le> 1"
  proof (cases a; cases b)
    fix t i s x u j v y
    assume ab: "a = DataField t i s x" "b = DataField u j v y"
    define ov :: rat where "ov = of_nat (2 * count_hits (map item_text s) (map item_text v)) /
      of_nat (length (map item_text s) + length (map item_text v))"
    have ov: "0 \<le> ov" "ov \<le> 1" unfolding ov_def by (rule ratio_bounds; rule count_hits_le)+
    have "4 / 10 * characterOverlap p q \<le> 1" "0 \<le> 4 / 10 * characterOverlap p q" for p q
      using characterOverlap_bounds [of p q] by simp_all
    moreover have "similarity a b = (if s = [] \<and> v = [] then (if i = j then 1 else 1 / 2)
        else if 0 < ov then (if i = j then ov else ov * (9 / 10))
        else 4 / 10 * characterOverlap (join_space (map item_text s)) (join_space (map item_text v)))"
      unfolding similarity_def ab ov_def Let_def by simp
    ultimately show ?thesis using ov by simp
  qed (simp_all add: similarity_def)
  then show "0 \<le> similarity a b" "similarity a b \<le> 1" by blast+
qed

definition content_of :: "marc_field \<Rightarrow> marc_field" where
  "content_of f = (case f of ControlField t v _ \<Rightarrow> ControlField t v [] | DataField t i s _ \<Rightarrow> DataField t i s [])"

lemma similarity_same: "content_of a = content_of b \<Longrightarrow> similarity a b = 1"
  by (cases a; cases b) (auto simp: content_of_def similarity_def Let_def)

section \<open>Items\<close>

lemma length_items [simp]: "length (items s) = length s"
  by (simp add: items_def)

lemma nth_items: "k < length s \<Longrightarrow> items s ! k = \<lparr>it_code = fst (s ! k), it_value = snd (s ! k), it_index = k\<rparr>"
  by (simp add: items_def nth_enumerate_eq split_beta)

lemma in_items: "l \<in> set (items s) \<longleftrightarrow> (\<exists>k < length s. l = \<lparr>it_code = fst (s ! k), it_value = snd (s ! k), it_index = k\<rparr>)"
  by (auto simp: in_set_conv_nth nth_items)

lemma item_indices [simp]: "map it_index (items s) = [0..<length s]"
  by (rule nth_equalityI) (simp_all add: nth_items)

lemma item_at: "l \<in> set (items s) \<Longrightarrow> it_index l < length s \<and> l = items s ! it_index l"
  by (auto simp: in_items nth_items)

section \<open>The two passes\<close>

abbreviation left_index :: "item_match \<Rightarrow> nat" where "left_index m \<equiv> it_index (fst m)"
abbreviation right_index :: "item_match \<Rightarrow> nat" where "right_index m \<equiv> it_index (fst (snd m))"

definition matches_ok :: "item list \<Rightarrow> item list \<Rightarrow> nat set \<times> item_match list \<Rightarrow> bool" where
  "matches_ok left right st \<longleftrightarrow> fst st = right_index ` set (snd st) \<and> distinct (map right_index (snd st)) \<and>
     distinct (map left_index (snd st)) \<and>
     (\<forall>(l, r, identical) \<in> set (snd st). l \<in> set left \<and> r \<in> set right \<and> (identical \<longrightarrow> same_item l r))"

lemma match_with_ok:
  assumes "matches_ok left right st" "l \<in> set left" "it_index l \<notin> left_index ` set (snd st)"
    and "identical \<Longrightarrow> P = same_item"
  shows "matches_ok left right (match_with P identical right l st) \<and>
    left_index ` set (snd (match_with P identical right l st)) \<subseteq> insert (it_index l) (left_index ` set (snd st))"
proof (cases "find (\<lambda>c. it_index c \<notin> fst st \<and> P l c) right")
  case None
  with assms(1) show ?thesis by (auto simp: match_with_def)
next
  case (Some r)
  then have r: "r \<in> set right" "it_index r \<notin> fst st" "P l r" by (auto simp: find_Some_iff)
  from r(2) assms(1) have "it_index r \<notin> right_index ` set (snd st)" by (simp add: matches_ok_def)
  with Some r assms show ?thesis by (auto simp: match_with_def matches_ok_def)
qed

lemma fold_match_ok:
  assumes "matches_ok left right st" "set ls \<subseteq> set left" "distinct (map it_index ls)"
    and "it_index ` set ls \<inter> left_index ` set (snd st) = {}" "identical \<Longrightarrow> P = same_item"
  shows "matches_ok left right (fold (match_with P identical right) ls st)"
  using assms
proof (induction ls arbitrary: st)
  case (Cons l ls)
  let ?st = "match_with P identical right l st"
  have l: "l \<in> set left" "it_index l \<notin> left_index ` set (snd st)" using Cons.prems(2,4) by auto
  note step = match_with_ok [where identical = identical and P = P, OF Cons.prems(1) l Cons.prems(5)]
  then have sub: "left_index ` set (snd ?st) \<subseteq> insert (it_index l) (left_index ` set (snd st))" by (rule conjunct2)
  have disj: "it_index ` set ls \<inter> left_index ` set (snd ?st) = {}"
  proof (rule equals0I)
    fix k assume k: "k \<in> it_index ` set ls \<inter> left_index ` set (snd ?st)"
    then have "k = it_index l \<or> k \<in> left_index ` set (snd st)" using sub by (meson IntD2 insertE subsetD)
    moreover have "k \<noteq> it_index l" using k Cons.prems(3) by (metis IntD1 distinct.simps(2) list.set_map list.simps(9))
    moreover have "k \<in> it_index ` set (l # ls)" using IntD1 [OF k] by simp
    ultimately show False using Cons.prems(4) by (metis IntI emptyE)
  qed
  have "matches_ok left right ?st" using step by blast
  from Cons.IH [OF this _ _ disj Cons.prems(5)] Cons.prems(2,3) show ?case by simp
qed simp

lemma match_items_ok: "matches_ok (items a) (items b) (match_items (items a) (items b))"
proof -
  let ?st = "fold (match_with same_item True (items b)) (items a) ({}, [])"
  have one: "matches_ok (items a) (items b) ?st"
    by (rule fold_match_ok) (simp_all add: matches_ok_def)
  have "distinct (map it_index (filter P (items a)))" for P
    using distinct_map_filter [of it_index "items a" P] by simp
  then have "matches_ok (items a) (items b)
      (fold (match_with same_code False (items b)) (filter (\<lambda>l. \<not> left_matched (snd ?st) l) (items a)) ?st)"
    by (intro fold_match_ok [OF one]) (auto simp: left_matched_def list_ex_iff)
  then show ?thesis by (simp add: match_items_def Let_def)
qed

interpretation item_order: comparator by_left_item
  by unfold_locales (auto simp: by_left_item_def)

section \<open>No difference means equal\<close>

lemma diffSubfields_Nil_imp:
  assumes "diffSubfields a b = []"
  shows "a = b"
proof -
  obtain used ms where m: "match_items (items a) (items b) = (used, ms)" by fastforce
  let ?ms = "js_sort by_left_item ms"
  let ?stayed = "longestIncreasingSubsequence (map right_index ?ms)"
  note ok = match_items_ok [of a b, unfolded m matches_ok_def, simplified]
  have all: "concat (map (matched_change (items a) (items b) ?stayed) (enumerate 0 ?ms)) = []"
    "filter (\<lambda>l. \<not> left_matched ?ms l) (items a) = []" "filter (\<lambda>r. it_index r \<notin> used) (items b) = []"
    using assms unfolding diffSubfields_def m Let_def by simp_all
  have parts1: "matched_change (items a) (items b) ?stayed (i, ?ms ! i) = []" if "i < length ?ms" for i
  proof -
    have "(i, ?ms ! i) \<in> set (enumerate 0 ?ms)" using that by (simp add: in_set_enumerate_eq)
    with all(1) show ?thesis unfolding concat_eq_Nil_conv by (metis imageI set_map)
  qed
  have parts2: "left_matched ?ms l" if "l \<in> set (items a)" for l
    using all(2) that unfolding filter_empty_conv by blast
  have parts3: "it_index r \<in> used" if "r \<in> set (items b)" for r
    using all(3) that unfolding filter_empty_conv by blast
  have ident: "snd (snd (?ms ! i)) \<and> i \<in> set ?stayed" if "i < length ?ms" for i
  proof -
    obtain l r t where e: "?ms ! i = (l, r, t)" by (cases "?ms ! i")
    from parts1 [OF that, unfolded e] have "t \<and> i \<in> set ?stayed"
      unfolding matched_change_def prod.case by (metis list.distinct(1))
    then show ?thesis by (simp only: e snd_conv)
  qed
  have dist: "distinct (map left_index ?ms)" "distinct (map right_index ?ms)"
    using ok by (simp_all add: distinct_map)
  have lefts: "map left_index ?ms = [0..<length a]"
  proof (rule strict_cover)
    have "sorted_wrt (\<lambda>x y. int (left_index x) - int (left_index y) \<le> 0) ?ms"
      using item_order.sorted_js_sort [of ms] by (simp add: by_left_item_def)
    then show "sorted_wrt (<) (map left_index ?ms)" using dist(1) by (rule strict_sorted_of_keys)
    have "left_index m < length a" if "m \<in> set ms" for m
      using ok that item_at [of "fst m" a] by (cases m) fastforce
    moreover have "k \<in> left_index ` set ms" if "k < length a" for k
    proof -
      have "items a ! k \<in> set (items a)" using that by simp
      from parts2 [OF this] show ?thesis using that by (auto simp: left_matched_def list_ex_iff nth_items)
    qed
    ultimately show "set (map left_index ?ms) = {..<length a}" by auto
  qed
  have rights: "map right_index ?ms = [0..<length b]"
  proof (rule strict_cover)
    have "set ?stayed \<subseteq> {..<length ?ms}" using lis_correct(3) [of "map right_index ?ms"] by simp
    then have "set ?stayed = {..<length (map right_index ?ms)}" using ident by auto
    then show "sorted_wrt (<) (map right_index ?ms)" by (simp only: lis_all_iff)
    have "right_index m < length b" if "m \<in> set ms" for m
      using ok that item_at [of "fst (snd m)" b] by (cases m) fastforce
    moreover have "k \<in> right_index ` set ms" if "k < length b" for k
    proof -
      have "items b ! k \<in> set (items b)" using that by simp
      from parts3 [OF this] ok that show ?thesis by (simp add: nth_items)
    qed
    ultimately show "set (map right_index ?ms) = {..<length b}" by auto
  qed
  show "a = b"
  proof (rule nth_equalityI)
    show len: "length a = length b" using arg_cong [OF lefts, of length] arg_cong [OF rights, of length] by simp
    fix i assume i: "i < length a"
    have n: "i < length ?ms" using i arg_cong [OF lefts, of length] by simp
    obtain l r t where lr: "?ms ! i = (l, r, t)" by (cases "?ms ! i")
    have "(l, r, t) \<in> set ms" using nth_mem [OF n] lr by simp
    then have "l \<in> set (items a)" "r \<in> set (items b)" "t \<longrightarrow> same_item l r" using ok by auto
    moreover have "t" using ident [OF n] lr by simp
    moreover have "it_index l = i" "it_index r = i"
      using arg_cong [OF lefts, of "\<lambda>xs. xs ! i"] arg_cong [OF rights, of "\<lambda>xs. xs ! i"] n i len lr by simp_all
    ultimately show "a ! i = b ! i"
      using item_at [of l a] item_at [of r b] i len by (auto simp: same_item_def nth_items prod_eq_iff)
  qed
qed

text \<open>And equal lists have none: every item finds itself, as the items before it are taken.\<close>

definition self_matches :: "subfield list \<Rightarrow> nat \<Rightarrow> item_match list" where
  "self_matches s k = map (\<lambda>i. (items s ! i, items s ! i, True)) [0..<k]"

lemma fold_self:
  "k \<le> length s \<Longrightarrow> fold (match_with same_item True (items s)) (take k (items s)) ({}, []) = ({..<k}, self_matches s k)"
proof (induction k)
  case (Suc k)
  then have k: "k < length s" by simp
  have "find (\<lambda>c. it_index c \<notin> {..<k} \<and> same_item (items s ! k) c) (items s) = Some (items s ! k)"
    unfolding find_Some_iff using k by (intro exI [of _ k]) (simp add: nth_items same_item_def)
  then have "match_with same_item True (items s) (items s ! k) ({..<k}, self_matches s k) = ({..<Suc k}, self_matches s (Suc k))"
    using k by (simp add: match_with_def self_matches_def nth_items lessThan_Suc)
  moreover have "take (Suc k) (items s) = take k (items s) @ [items s ! k]" using k by (simp add: take_Suc_conv_app_nth)
  ultimately show ?case using Suc by simp
qed (simp add: self_matches_def)

lemma sorted_self: "js_sort by_left_item (self_matches s (length s)) = self_matches s (length s)"
  by (rule item_order.js_sort_sorted)
    (auto simp: self_matches_def sorted_wrt_map by_left_item_def nth_items intro: sorted_wrt_mono_rel [OF _ sorted_wrt_upt])

lemma diffSubfields_self: "diffSubfields s s = []"
proof -
  let ?n = "length s" and ?ms = "self_matches s (length s)"
  have one: "fold (match_with same_item True (items s)) (items s) ({}, []) = ({..<?n}, ?ms)"
    using fold_self [of ?n s] by simp
  have all: "left_matched ?ms l" if "l \<in> set (items s)" for l
    using item_at [OF that] by (auto simp: left_matched_def list_ex_iff self_matches_def nth_items intro!: bexI [of _ "it_index l"])
  have "match_items (items s) (items s) = ({..<?n}, ?ms)"
    using all by (simp add: match_items_def one Let_def cong: filter_cong)
  moreover have "map right_index ?ms = [0..<?n]"
    by (rule nth_equalityI) (simp_all add: self_matches_def nth_items)
  moreover have "set (longestIncreasingSubsequence [0..<?n]) = {..<?n}"
    using lis_all_iff [of "[0..<?n]"] by simp
  moreover have "snd (snd m)" if "m \<in> set ?ms" for m using that by (auto simp: self_matches_def)
  then have "matched_change (items s) (items s) (longestIncreasingSubsequence [0..<?n]) p = []" if "p \<in> set (enumerate 0 ?ms)" for p
    using that calculation(3) by (auto simp: matched_change_def in_set_enumerate_eq self_matches_def split: prod.split)
  moreover have "filter (\<lambda>r. it_index r \<notin> {..<?n}) (items s) = []"
    using item_at by (auto simp: filter_empty_conv)
  moreover have "filter (\<lambda>l. \<not> left_matched ?ms l) (items s) = []" using all by (simp add: filter_empty_conv)
  ultimately show ?thesis
    by (simp add: diffSubfields_def Let_def sorted_self)
qed

theorem diffSubfields_Nil_iff: "diffSubfields a b = [] \<longleftrightarrow> a = b"
  using diffSubfields_Nil_imp diffSubfields_self by blast

end
