(* ===== verification/Diff_Fields.thy ===== *)
theory Diff_Fields
  imports Diff_Subfields
begin

text \<open>
  The alignment of fields and the verdict (\<open>diff\<close> in \<open>packages/marc/src/diff.ts\<close>): two records are
  identical to it exactly when their fields have the same content in the same order and their
  leaders agree where a writer does not recompute them; and taking one field out of a record is
  reported as one removal, whatever fields of that tag are left.
\<close>

section \<open>The greedy choice\<close>

interpretation pair_order: comparator compare_scored
  by unfold_locales (auto simp: compare_scored_def split: if_splits)

interpretation right_order: comparator by_right_index
  by unfold_locales (auto simp: by_right_index_def)

interpretation left_order: comparator by_left_index
  by unfold_locales (auto simp: by_left_index_def)

definition share :: "scored \<Rightarrow> scored \<Rightarrow> bool" where
  "share p q \<longleftrightarrow> fst (pr_l p) = fst (pr_l q) \<or> fst (pr_r p) = fst (pr_r q)"

text \<open>
  A set of pairs is what the greedy choice takes when no two of them share an end and every other
  pair that could be taken comes after one of them that shares an end with it.
\<close>

definition stable :: "(scored \<Rightarrow> bool) \<Rightarrow> scored list \<Rightarrow> bool" where
  "stable M xs \<longleftrightarrow> distinct xs \<and>
     (\<forall>p \<in> set xs. \<forall>q \<in> set xs. M p \<longrightarrow> M q \<longrightarrow> share p q \<longrightarrow> p = q) \<and>
     (\<forall>us p vs. xs = us @ p # vs \<longrightarrow> \<not> M p \<longrightarrow> 0 < pr_score p \<longrightarrow> (\<exists>q \<in> set us. M q \<and> share q p)) \<and>
     (\<forall>us p vs. xs = us @ p # vs \<longrightarrow> pr_score p \<le> 0 \<longrightarrow> (\<forall>q \<in> set (p # vs). \<not> M q))"

lemma greedy_takes:
  assumes "stable M (before @ ps)"
  shows "greedy ps (fst ` pr_l ` {p \<in> set before. M p}) (fst ` pr_r ` {p \<in> set before. M p}) =
    map (\<lambda>p. (pr_l p, pr_r p)) (filter M ps)"
  using assms
proof (induction ps arbitrary: before)
  case (Cons p ps)
  have one: "\<And>q. q \<in> set before \<Longrightarrow> M q \<Longrightarrow> M p \<Longrightarrow> share q p \<Longrightarrow> q = p" and dist: "p \<notin> set before"
    and blocked: "\<not> M p \<Longrightarrow> 0 < pr_score p \<Longrightarrow> \<exists>q \<in> set before. M q \<and> share q p"
    and low: "pr_score p \<le> 0 \<Longrightarrow> \<forall>q \<in> set (p # ps). \<not> M q"
    using Cons.prems unfolding stable_def by (simp, simp, blast, blast)
  let ?L = "fst ` pr_l ` {q \<in> set before. M q}" and ?R = "fst ` pr_r ` {q \<in> set before. M q}"
  have IH: "greedy ps (fst ` pr_l ` {q \<in> set (before @ [p]). M q}) (fst ` pr_r ` {q \<in> set (before @ [p]). M q}) =
      map (\<lambda>p. (pr_l p, pr_r p)) (filter M ps)"
    by (rule Cons.IH) (use Cons.prems in \<open>simp only: append_assoc append_Cons append_Nil\<close>)
  have used: "fst (pr_l p) \<in> ?L \<or> fst (pr_r p) \<in> ?R \<longleftrightarrow> (\<exists>q \<in> set before. M q \<and> share q p)"
    unfolding share_def image_image image_iff by (metis (mono_tags, lifting) mem_Collect_eq)
  show ?case
  proof (cases "pr_score p \<le> 0")
    case True
    with low have "\<forall>q \<in> set (p # ps). \<not> M q" by blast
    then have "filter M (p # ps) = []" by (simp only: filter_empty_conv)
    with True show ?thesis by simp
  next
    case pos: False
    show ?thesis
    proof (cases "M p")
      case True
      have "\<not> (\<exists>q \<in> set before. M q \<and> share q p)"
      proof
        assume "\<exists>q \<in> set before. M q \<and> share q p"
        then obtain q where "q \<in> set before" "M q" "share q p" by blast
        with one [of q] True have "q = p" by blast
        with dist \<open>q \<in> set before\<close> show False by simp
      qed
      with used have "\<not> (fst (pr_l p) \<in> ?L \<or> fst (pr_r p) \<in> ?R)" by simp
      moreover have "{q \<in> set (before @ [p]). M q} = insert p {q \<in> set before. M q}" using True by auto
      ultimately show ?thesis using pos True IH by simp
    next
      case False
      with blocked pos used have "fst (pr_l p) \<in> ?L \<or> fst (pr_r p) \<in> ?R" by simp
      moreover have "{q \<in> set (before @ [p]). M q} = {q \<in> set before. M q}" using False by auto
      ultimately show ?thesis using pos False IH by simp
    qed
  qed
qed simp

text \<open>In a sorted list, what compares below an element comes before it.\<close>

lemma sorted_before:
  assumes "sorted_wrt (\<lambda>a b. compare_scored a b \<le> 0) (us @ p # vs)" "q \<in> set (us @ p # vs)" "compare_scored q p < 0"
  shows "q \<in> set us"
proof (rule ccontr)
  assume "q \<notin> set us"
  with assms(2) have "q = p \<or> q \<in> set vs" by auto
  then have "compare_scored p q \<le> 0" using assms(1) pair_order.cmp_refl by (auto simp: sorted_wrt_append)
  with assms(3) pair_order.cmp_flip [of q p] show False by linarith
qed

text \<open>Whatever it takes, it takes from the list, with a positive score, and each end once.\<close>

definition sound_choice :: "scored list \<Rightarrow> nat set \<Rightarrow> nat set \<Rightarrow> (positioned \<times> positioned) list \<Rightarrow> bool" where
  "sound_choice ps ul ur ms \<longleftrightarrow> (\<forall>m \<in> set ms. fst (fst m) \<notin> ul \<and> fst (snd m) \<notin> ur \<and>
     (\<exists>p \<in> set ps. m = (pr_l p, pr_r p) \<and> 0 < pr_score p)) \<and>
   distinct (map (fst \<circ> fst) ms) \<and> distinct (map (fst \<circ> snd) ms)"

lemma greedy_sound: "sound_choice ps ul ur (greedy ps ul ur)"
proof (induction ps ul ur rule: greedy.induct)
  case (2 p ps ul ur)
  show ?case
  proof (cases "pr_score p \<le> 0")
    case True
    then show ?thesis by (simp add: sound_choice_def)
  next
    case pos: False
    show ?thesis
    proof (cases "fst (pr_l p) \<in> ul \<or> fst (pr_r p) \<in> ur")
      case True
      with 2(1) [OF pos True] pos show ?thesis by (simp add: sound_choice_def)
    next
      case False
      with 2(2) [OF pos False] pos show ?thesis by (auto simp: sound_choice_def)
    qed
  qed
qed (simp add: sound_choice_def)

section \<open>The pairs of a tag\<close>

lemma in_indexed: "p \<in> set (indexed fs t) \<longleftrightarrow> fst p < length fs \<and> snd p = fs ! fst p \<and> field_tag (snd p) = t"
  by (auto simp: indexed_def in_set_enumerate_eq)

lemma indexed_distinct: "distinct (indexed fs t)" "sorted_wrt (<) (map fst (indexed fs t))"
proof -
  have "sorted_wrt (\<lambda>a b. fst a < fst b) (enumerate 0 fs)"
    by (simp add: sorted_wrt_iff_nth_less nth_enumerate_eq)
  then have "sorted_wrt (\<lambda>a b. fst a < fst b) (indexed fs t)" unfolding indexed_def by (rule sorted_wrt_filter)
  then show "sorted_wrt (<) (map fst (indexed fs t))" by (simp add: sorted_wrt_map)
  show "distinct (indexed fs t)" unfolding indexed_def by (rule distinct_filter) (simp add: distinct_enumerate)
qed

definition pair_at :: "marc_field list \<Rightarrow> marc_field list \<Rightarrow> nat \<Rightarrow> nat \<Rightarrow> scored" where
  "pair_at as bs i j = \<lparr>pr_l = (i, as ! i), pr_r = (j, bs ! j), pr_score = similarity (as ! i) (bs ! j)\<rparr>"

definition same_tag_at :: "marc_field list \<Rightarrow> marc_field list \<Rightarrow> utext \<Rightarrow> nat \<Rightarrow> nat \<Rightarrow> bool" where
  "same_tag_at as bs t i j \<longleftrightarrow> i < length as \<and> j < length bs \<and> field_tag (as ! i) = t \<and> field_tag (bs ! j) = t"

lemma in_all_pairs: "p \<in> set (all_pairs (indexed as t) (indexed bs t)) \<longleftrightarrow>
    (\<exists>i j. same_tag_at as bs t i j \<and> p = pair_at as bs i j)"
proof -
  have "p \<in> set (all_pairs (indexed as t) (indexed bs t)) \<longleftrightarrow>
      (\<exists>l r. l \<in> set (indexed as t) \<and> r \<in> set (indexed bs t) \<and> p = \<lparr>pr_l = l, pr_r = r, pr_score = similarity (snd l) (snd r)\<rparr>)"
    by (auto simp: all_pairs_def image_iff)
  also have "\<dots> \<longleftrightarrow> (\<exists>i j. same_tag_at as bs t i j \<and> p = pair_at as bs i j)"
    unfolding in_indexed same_tag_at_def pair_at_def split_paired_Ex fst_conv snd_conv by auto
  finally show ?thesis .
qed

lemma distinct_all_pairs: "distinct ls \<Longrightarrow> distinct rs \<Longrightarrow> distinct (all_pairs ls rs)"
  by (induction ls) (auto simp: all_pairs_def distinct_map inj_on_def)


section \<open>What is aligned\<close>

definition matched :: "marc_field list \<Rightarrow> marc_field list \<Rightarrow> utext \<Rightarrow> (positioned \<times> positioned) list" where
  "matched as bs t = greedy (js_sort compare_scored (all_pairs (indexed as t) (indexed bs t))) {} {}"

lemma matched_sound:
  assumes "m \<in> set (matched as bs t)"
  obtains i j where "same_tag_at as bs t i j" "m = ((i, as ! i), (j, bs ! j))" "0 < similarity (as ! i) (bs ! j)"
proof -
  from greedy_sound [of "js_sort compare_scored (all_pairs (indexed as t) (indexed bs t))" "{}" "{}"] assms
  obtain p where p: "p \<in> set (all_pairs (indexed as t) (indexed bs t))" "m = (pr_l p, pr_r p)" "0 < pr_score p"
    unfolding sound_choice_def matched_def by force
  from p(1) obtain i j where "same_tag_at as bs t i j" "p = pair_at as bs i j" unfolding in_all_pairs by blast
  with p(2,3) that show thesis by (simp add: pair_at_def)
qed

lemma matched_once: "distinct (map (fst \<circ> fst) (matched as bs t))" "distinct (map (fst \<circ> snd) (matched as bs t))"
  using greedy_sound unfolding sound_choice_def matched_def by blast+

definition part :: "marc_field list \<Rightarrow> marc_field list \<Rightarrow> utext \<Rightarrow> aligned list \<times> field_change list" where
  "part as bs t = align t (indexed as t) (indexed bs t)"

definition pair_of :: "aligned \<Rightarrow> positioned \<times> positioned" where
  "pair_of p = (al_l p, al_r p)"

lemma part_pairs: "map pair_of (fst (part as bs t)) = js_sort by_right_index (matched as bs t)"
  by (rule nth_equalityI)
    (simp_all add: part_def align_def matched_def pair_of_def Let_def nth_enumerate_eq split: prod.split)

lemma set_part: "pair_of ` set (fst (part as bs t)) = set (matched as bs t)"
  using arg_cong [OF part_pairs, of set] by simp

lemma align_all_parts: "align_all as bs =
    (concat (map (\<lambda>t. fst (part as bs t)) (all_tags as bs)), concat (map (\<lambda>t. snd (part as bs t)) (all_tags as bs)))"
  by (simp add: align_all_def part_def Let_def comp_def)

abbreviation left_of :: "aligned \<Rightarrow> nat" where "left_of p \<equiv> fst (al_l p)"
abbreviation right_of :: "aligned \<Rightarrow> nat" where "right_of p \<equiv> fst (al_r p)"

lemma distinct_concat_map:
  assumes "distinct ts" "\<And>t. distinct (g t)" "\<And>t t' x. x \<in> set (g t) \<Longrightarrow> x \<in> set (g t') \<Longrightarrow> t = t'"
  shows "distinct (concat (map g ts))"
  using assms(1)
proof (induction ts)
  case (Cons t ts)
  then have "set (g t) \<inter> set (concat (map g ts)) = {}" using assms(3) by fastforce
  with Cons assms(2) show ?case by simp
qed simp

lemma part_at:
  assumes "p \<in> set (fst (part as bs t))"
  shows "same_tag_at as bs t (left_of p) (right_of p) \<and> snd (al_l p) = as ! left_of p \<and> snd (al_r p) = bs ! right_of p \<and>
    0 < similarity (as ! left_of p) (bs ! right_of p)"
proof -
  have "pair_of p \<in> set (matched as bs t)" using assms set_part by blast
  then show ?thesis by (rule matched_sound) (simp add: pair_of_def)
qed

lemma part_once: "distinct (map left_of (fst (part as bs t)))" "distinct (map right_of (fst (part as bs t)))"
proof -
  have l: "map left_of ps = map (fst \<circ> fst) (map pair_of ps)" and r: "map right_of ps = map (fst \<circ> snd) (map pair_of ps)" for ps
    by (simp_all add: pair_of_def)
  have "mset (map h (js_sort by_right_index (matched as bs t))) = mset (map h (matched as bs t))" for h :: "positioned \<times> positioned \<Rightarrow> nat"
    by simp
  then have d: "distinct (map h (js_sort by_right_index (matched as bs t))) \<longleftrightarrow> distinct (map h (matched as bs t))"
    for h :: "positioned \<times> positioned \<Rightarrow> nat"
    by (rule mset_eq_imp_distinct_iff)
  show "distinct (map left_of (fst (part as bs t)))" "distinct (map right_of (fst (part as bs t)))"
    unfolding l r part_pairs d by (rule matched_once)+
qed

lemma all_tags_distinct [simp]: "distinct (all_tags as bs)"
  by (simp add: all_tags_def)

lemma in_all_tags: "t \<in> set (all_tags as bs) \<longleftrightarrow> t \<in> field_tag ` set as \<or> t \<in> field_tag ` set bs"
  by (simp add: all_tags_def)

lemma aligned_once:
  "distinct (map left_of (fst (align_all as bs)))" "distinct (map right_of (fst (align_all as bs)))"
proof -
  have "distinct (concat (map (\<lambda>t. map left_of (fst (part as bs t))) (all_tags as bs)))"
    by (rule distinct_concat_map) (auto simp: part_once same_tag_at_def dest!: part_at)
  then show "distinct (map left_of (fst (align_all as bs)))" by (simp add: align_all_parts map_concat comp_def)
  have "distinct (concat (map (\<lambda>t. map right_of (fst (part as bs t))) (all_tags as bs)))"
    by (rule distinct_concat_map) (auto simp: part_once same_tag_at_def dest!: part_at)
  then show "distinct (map right_of (fst (align_all as bs)))" by (simp add: align_all_parts map_concat comp_def)
qed

lemma aligned_at:
  assumes "p \<in> set (fst (align_all as bs))"
  shows "\<exists>t. same_tag_at as bs t (left_of p) (right_of p) \<and> snd (al_l p) = as ! left_of p \<and> snd (al_r p) = bs ! right_of p \<and>
    0 < similarity (as ! left_of p) (bs ! right_of p)"
  using assms by (auto simp: align_all_parts dest: part_at)


section \<open>No change, same content\<close>

lemma all_enumerate: "(\<forall>x \<in> set (enumerate 0 xs). P x) \<longleftrightarrow> (\<forall>i < length xs. P (i, xs ! i))"
  by (simp add: all_set_conv_all_nth nth_enumerate_eq)

lemma filter_enumerate_Nil: "filter (\<lambda>(i, x). P x) (enumerate 0 xs) = [] \<longleftrightarrow> (\<forall>x \<in> set xs. \<not> P x)"
  unfolding filter_empty_conv all_enumerate by (simp add: all_set_conv_all_nth)

text \<open>The pairs in the order of the left fields.\<close>

definition aligned_by_left :: "marc_field list \<Rightarrow> marc_field list \<Rightarrow> aligned list" where
  "aligned_by_left as bs = js_sort by_left_index (fst (align_all as bs))"

definition field_changes :: "(utext \<Rightarrow> utext) \<Rightarrow> aligned list \<Rightarrow> field_change list" where
  "field_changes nfc ps = concat (map (\<lambda>(i, p). case diffField nfc p (i \<notin> set (longestIncreasingSubsequence (map right_of ps)))
     of None \<Rightarrow> [] | Some c \<Rightarrow> [c]) (enumerate 0 ps))"

lemma diff_fields_parts: "diff_fields nfc as bs = js_sort by_place (field_changes nfc (aligned_by_left as bs) @ snd (align_all as bs))"
  by (simp add: diff_fields_def field_changes_def aligned_by_left_def Let_def split_beta)

lemma left_sorted: "sorted_wrt (<) (map left_of (aligned_by_left as bs))"
proof (rule strict_sorted_of_keys)
  show "sorted_wrt (\<lambda>a b. int (left_of a) - int (left_of b) \<le> 0) (aligned_by_left as bs)"
    using left_order.sorted_js_sort unfolding aligned_by_left_def by_left_index_def .
  have "mset (map left_of (aligned_by_left as bs)) = mset (map left_of (fst (align_all as bs)))"
    by (simp add: aligned_by_left_def)
  then show "distinct (map left_of (aligned_by_left as bs))"
    using aligned_once(1) mset_eq_imp_distinct_iff by blast
qed

lemma set_aligned_by_left [simp]: "set (aligned_by_left as bs) = set (fst (align_all as bs))"
  by (simp add: aligned_by_left_def)

lemma diffField_moved: "diffField nfc p True \<noteq> None"
  by (simp add: diffField_def diff_values_def Let_def split: marc_field.split)

lemma diffField_stayed:
  assumes "0 < similarity (snd (al_l p)) (snd (al_r p))" "field_tag (snd (al_l p)) = field_tag (snd (al_r p))"
  shows "diffField nfc p False = None \<longleftrightarrow> content_of (snd (al_l p)) = content_of (snd (al_r p))"
  using assms
  by (cases "snd (al_l p)"; cases "snd (al_r p)")
    (auto simp: diffField_def diff_values_def content_of_def Let_def similarity_def diffSubfields_Nil_iff)

lemma field_changes_Nil:
  assumes "\<And>p. p \<in> set ps \<Longrightarrow> 0 < similarity (snd (al_l p)) (snd (al_r p)) \<and> field_tag (snd (al_l p)) = field_tag (snd (al_r p))"
  shows "field_changes nfc ps = [] \<longleftrightarrow> sorted_wrt (<) (map right_of ps) \<and>
    (\<forall>p \<in> set ps. content_of (snd (al_l p)) = content_of (snd (al_r p)))"
proof -
  let ?stay = "set (longestIncreasingSubsequence (map right_of ps))"
  have "field_changes nfc ps = [] \<longleftrightarrow> (\<forall>i < length ps. diffField nfc (ps ! i) (i \<notin> ?stay) = None)"
    unfolding field_changes_def concat_eq_Nil_conv set_map ball_simps(9) all_enumerate
    by (simp split: option.split) (metis option.exhaust option.distinct(1))
  also have "\<dots> \<longleftrightarrow> (\<forall>i < length ps. i \<in> ?stay \<and> diffField nfc (ps ! i) False = None)"
    using diffField_moved by (metis (full_types))
  also have "\<dots> \<longleftrightarrow> {..<length ps} \<subseteq> ?stay \<and> (\<forall>p \<in> set ps. diffField nfc p False = None)"
    by (auto simp: all_set_conv_all_nth)
  also have "{..<length ps} \<subseteq> ?stay \<longleftrightarrow> sorted_wrt (<) (map right_of ps)"
    using lis_all_iff [of "map right_of ps"] lis_correct(3) [of "map right_of ps"] by auto
  also have "(\<forall>p \<in> set ps. diffField nfc p False = None) \<longleftrightarrow>
      (\<forall>p \<in> set ps. content_of (snd (al_l p)) = content_of (snd (al_r p)))"
    using assms diffField_stayed by blast
  finally show ?thesis .
qed

lemma aligned_ok:
  assumes "p \<in> set (fst (align_all as bs))"
  shows "0 < similarity (snd (al_l p)) (snd (al_r p)) \<and> field_tag (snd (al_l p)) = field_tag (snd (al_r p))"
  using aligned_at [OF assms] by (auto simp: same_tag_at_def)

lemma part_unmatched: "snd (part as bs t) =
    map (\<lambda>(i, l). describe_field ChangeRemoved t (i + 1) (Some (fst l)) None (snd l))
      (filter (\<lambda>(i, l). fst l \<notin> left_of ` set (fst (part as bs t))) (enumerate 0 (indexed as t))) @
    map (\<lambda>(i, r). describe_field ChangeAdded t (i + 1) None (Some (fst r)) (snd r))
      (filter (\<lambda>(i, r). fst r \<notin> right_of ` set (fst (part as bs t))) (enumerate 0 (indexed bs t)))"
proof -
  have "left_of ` set (fst (part as bs t)) = set (map (\<lambda>m. fst (fst m)) (matched as bs t))"
    "right_of ` set (fst (part as bs t)) = set (map (\<lambda>m. fst (snd m)) (matched as bs t))"
    unfolding set_map set_part [symmetric] by (simp_all add: image_image pair_of_def)
  then show ?thesis unfolding part_def align_def matched_def Let_def by simp
qed

lemma unmatched_Nil:
  assumes "snd (align_all as bs) = []"
  shows "left_of ` set (fst (align_all as bs)) = {..<length as}" "right_of ` set (fst (align_all as bs)) = {..<length bs}"
proof -
  have none: "snd (part as bs t) = []" if "t \<in> set (all_tags as bs)" for t
    using assms that by (simp add: align_all_parts)
  have l: "i \<in> left_of ` set (fst (part as bs t))" if "t \<in> set (all_tags as bs)" "i < length as" "field_tag (as ! i) = t" for i t
  proof -
    have "(i, as ! i) \<in> set (indexed as t)" using that by (simp add: in_indexed)
    moreover have "\<forall>x \<in> set (indexed as t). fst x \<in> left_of ` set (fst (part as bs t))"
      using none [OF that(1)] unfolding part_unmatched append_is_Nil_conv map_is_Nil_conv filter_enumerate_Nil by simp
    ultimately show ?thesis by (metis fst_conv)
  qed
  have r: "i \<in> right_of ` set (fst (part as bs t))" if "t \<in> set (all_tags as bs)" "i < length bs" "field_tag (bs ! i) = t" for i t
  proof -
    have "(i, bs ! i) \<in> set (indexed bs t)" using that by (simp add: in_indexed)
    moreover have "\<forall>x \<in> set (indexed bs t). fst x \<in> right_of ` set (fst (part as bs t))"
      using none [OF that(1)] unfolding part_unmatched append_is_Nil_conv map_is_Nil_conv filter_enumerate_Nil by simp
    ultimately show ?thesis by (metis fst_conv)
  qed
  have sub: "set (fst (part as bs t)) \<subseteq> set (fst (align_all as bs))" if "t \<in> set (all_tags as bs)" for t
    using that by (auto simp: align_all_parts)
  have bound: "left_of p < length as" "right_of p < length bs" if "p \<in> set (fst (align_all as bs))" for p
    using aligned_at [OF that] by (auto simp: same_tag_at_def)
  show "left_of ` set (fst (align_all as bs)) = {..<length as}"
  proof (intro set_eqI iffI)
    fix i assume "i \<in> {..<length as}"
    then have "i < length as" "field_tag (as ! i) \<in> set (all_tags as bs)" by (simp_all add: in_all_tags)
    with l sub show "i \<in> left_of ` set (fst (align_all as bs))" by blast
  qed (auto dest: bound)
  show "right_of ` set (fst (align_all as bs)) = {..<length bs}"
  proof (intro set_eqI iffI)
    fix i assume "i \<in> {..<length bs}"
    then have "i < length bs" "field_tag (bs ! i) \<in> set (all_tags as bs)" by (simp_all add: in_all_tags)
    with r sub show "i \<in> right_of ` set (fst (align_all as bs))" by blast
  qed (auto dest: bound)
qed

lemma no_change_same_content:
  assumes "diff_fields nfc as bs = []"
  shows "map content_of as = map content_of bs"
proof -
  let ?ps = "aligned_by_left as bs"
  have un: "snd (align_all as bs) = []" and "field_changes nfc ?ps = []"
    using assms by (auto simp: diff_fields_parts)
  then have "sorted_wrt (<) (map right_of ?ps)" and same: "\<forall>p \<in> set ?ps. content_of (snd (al_l p)) = content_of (snd (al_r p))"
    using field_changes_Nil [of ?ps nfc] aligned_ok by auto
  then have rs: "map right_of ?ps = [0..<length bs]"
    using unmatched_Nil(2) [OF un] by (intro strict_cover) simp_all
  have ls: "map left_of ?ps = [0..<length as]"
    using left_sorted unmatched_Nil(1) [OF un] by (intro strict_cover) simp_all
  have n: "length as = length ?ps" "length bs = length ?ps"
    using arg_cong [OF ls, of length] arg_cong [OF rs, of length] by simp_all
  show ?thesis
  proof (rule nth_equalityI)
    fix i assume "i < length (map content_of as)"
    then have i: "i < length ?ps" using n by simp
    then have p: "?ps ! i \<in> set ?ps" by (rule nth_mem)
    have "left_of (?ps ! i) = i" "right_of (?ps ! i) = i"
      using arg_cong [OF ls, of "\<lambda>xs. xs ! i"] arg_cong [OF rs, of "\<lambda>xs. xs ! i"] i n by simp_all
    moreover have "snd (al_l (?ps ! i)) = as ! left_of (?ps ! i) \<and> snd (al_r (?ps ! i)) = bs ! right_of (?ps ! i)"
      using p aligned_at [of "?ps ! i" as bs] by auto
    ultimately have "content_of (as ! i) = content_of (bs ! i)" using same p by metis
    then show "map content_of as ! i = map content_of bs ! i" using i n by simp
  qed (simp add: n)
qed


section \<open>A correspondence the alignment follows\<close>

text \<open>
  \<open>M\<close> pairs fields of the same content, keeps their order, and blocks every other pair the greedy
  choice could take: one of its pairs shares an end with it and is better, or as good and earlier.
\<close>

definition corresponds :: "marc_field list \<Rightarrow> marc_field list \<Rightarrow> (nat \<Rightarrow> nat \<Rightarrow> bool) \<Rightarrow> bool" where
  "corresponds as bs M \<longleftrightarrow>
     (\<forall>i j. M i j \<longrightarrow> i < length as \<and> j < length bs \<and> content_of (as ! i) = content_of (bs ! j)) \<and>
     (\<forall>i j i' j'. M i j \<longrightarrow> M i' j' \<longrightarrow> (i < i' \<longleftrightarrow> j < j')) \<and>
     (\<forall>t i j. same_tag_at as bs t i j \<longrightarrow> \<not> M i j \<longrightarrow>
        (\<exists>j'. M i j' \<and> (similarity (as ! i) (bs ! j) < 1 \<or> j' < j)) \<or>
        (\<exists>i'. M i' j \<and> (similarity (as ! i) (bs ! j) < 1 \<or> i' < i)))"

lemma corresponds_at:
  assumes "corresponds as bs M" "M i j"
  shows "i < length as" "j < length bs" "content_of (as ! i) = content_of (bs ! j)" "similarity (as ! i) (bs ! j) = 1"
  using assms similarity_same unfolding corresponds_def by blast+

lemma content_tag: "content_of f = content_of g \<Longrightarrow> field_tag f = field_tag g"
  by (cases f; cases g) (simp_all add: content_of_def)

lemma corresponds_order: "corresponds as bs M \<Longrightarrow> M i j \<Longrightarrow> M i' j' \<Longrightarrow> i < i' \<longleftrightarrow> j < j'"
  unfolding corresponds_def by blast

lemma corresponds_one:
  assumes "corresponds as bs M" "M i j" "M i' j'" "i = i' \<or> j = j'"
  shows "i = i' \<and> j = j'"
  using corresponds_order [OF assms(1-3)] corresponds_order [OF assms(1,3,2)] assms(4) by auto

abbreviation taken :: "(nat \<Rightarrow> nat \<Rightarrow> bool) \<Rightarrow> scored \<Rightarrow> bool" where
  "taken M p \<equiv> M (fst (pr_l p)) (fst (pr_r p))"

lemma stable_corresponds:
  assumes cor: "corresponds as bs M"
  shows "stable (taken M) (js_sort compare_scored (all_pairs (indexed as t) (indexed bs t)))" (is "stable _ ?ps")
proof -
  have mem: "p \<in> set ?ps \<longleftrightarrow> (\<exists>i j. same_tag_at as bs t i j \<and> p = pair_at as bs i j)" for p
    by (simp add: in_all_pairs)
  have sorted: "sorted_wrt (\<lambda>a b. compare_scored a b \<le> 0) ?ps" by (rule pair_order.sorted_js_sort)
  have dist: "distinct ?ps" by (simp add: distinct_all_pairs indexed_distinct)
  have one: "p = q" if "p \<in> set ?ps" "q \<in> set ?ps" "taken M p" "taken M q" "share p q" for p q
  proof -
    from that(1,2) obtain i j i' j' where p: "p = pair_at as bs i j" and q: "q = pair_at as bs i' j'" unfolding mem by blast
    have "i = i' \<and> j = j'"
      by (rule corresponds_one [OF cor]) (use that(3-5) in \<open>simp_all add: p q pair_at_def share_def\<close>)
    then show ?thesis by (simp add: p q)
  qed
  have earlier: "\<exists>q \<in> set us. taken M q \<and> share q p" if split: "?ps = us @ p # vs" and no: "\<not> taken M p" for us p vs
  proof -
    have "p \<in> set ?ps" by (simp only: split) simp
    then obtain i j where tag: "same_tag_at as bs t i j" and p: "p = pair_at as bs i j" unfolding mem by blast
    have before: "pair_at as bs i' j' \<in> set us"
      if "M i' j'" "i' = i \<or> j' = j" "similarity (as ! i) (bs ! j) < 1 \<or> i' < i \<or> i' = i \<and> j' < j" for i' j'
    proof (rule sorted_before)
      show "sorted_wrt (\<lambda>a b. compare_scored a b \<le> 0) (us @ p # vs)" using sorted by (simp only: split)
      have "same_tag_at as bs t i' j'"
        using corresponds_at [OF cor that(1)] content_tag that(2) tag unfolding same_tag_at_def by metis
      then show "pair_at as bs i' j' \<in> set (us @ p # vs)" unfolding split [symmetric] mem by blast
      show "compare_scored (pair_at as bs i' j') p < 0"
        using that(3) corresponds_at(4) [OF cor that(1)] similarity_bounds(2) [of "as ! i" "bs ! j"]
        by (auto simp: p pair_at_def compare_scored_def)
    qed
    have "\<not> M i j" using no by (simp add: p pair_at_def)
    with cor tag have "(\<exists>j'. M i j' \<and> (similarity (as ! i) (bs ! j) < 1 \<or> j' < j)) \<or>
        (\<exists>i'. M i' j \<and> (similarity (as ! i) (bs ! j) < 1 \<or> i' < i))"
      unfolding corresponds_def by blast
    then show ?thesis
    proof (elim disjE exE conjE)
      fix j' assume a: "M i j'" "similarity (as ! i) (bs ! j) < 1"
      with before have "pair_at as bs i j' \<in> set us" by blast
      with a(1) show ?thesis by (intro bexI [of _ "pair_at as bs i j'"]) (simp_all add: p pair_at_def share_def)
    next
      fix j' assume a: "M i j'" "j' < j"
      with before have "pair_at as bs i j' \<in> set us" by blast
      with a(1) show ?thesis by (intro bexI [of _ "pair_at as bs i j'"]) (simp_all add: p pair_at_def share_def)
    next
      fix i' assume a: "M i' j" "similarity (as ! i) (bs ! j) < 1"
      with before have "pair_at as bs i' j \<in> set us" by blast
      with a(1) show ?thesis by (intro bexI [of _ "pair_at as bs i' j"]) (simp_all add: p pair_at_def share_def)
    next
      fix i' assume a: "M i' j" "i' < i"
      with before have "pair_at as bs i' j \<in> set us" by blast
      with a(1) show ?thesis by (intro bexI [of _ "pair_at as bs i' j"]) (simp_all add: p pair_at_def share_def)
    qed
  qed
  have low: "\<not> taken M q" if split: "?ps = us @ p # vs" and "pr_score p \<le> 0" "q \<in> set (p # vs)" for us p vs q
  proof
    assume m: "taken M q"
    have "q \<in> set ?ps" using that(3) by (simp only: split) auto
    then obtain i j where q: "q = pair_at as bs i j" unfolding mem by blast
    then have "pr_score q = 1" using m corresponds_at(4) [OF cor] by (simp add: pair_at_def)
    moreover have "compare_scored p q \<le> 0"
      using sorted that(3) pair_order.cmp_refl unfolding split by (auto simp: sorted_wrt_append)
    ultimately show False using that(2) by (auto simp: compare_scored_def split: if_splits)
  qed
  from dist one earlier low show ?thesis unfolding stable_def by blast
qed

lemma corresponds_part:
  assumes cor: "corresponds as bs M"
  shows "p \<in> set (fst (part as bs t)) \<Longrightarrow> M (left_of p) (right_of p)"
    and "left_of ` set (fst (part as bs t)) = {i. i < length as \<and> field_tag (as ! i) = t \<and> (\<exists>j. M i j)}"
    and "right_of ` set (fst (part as bs t)) = {j. j < length bs \<and> field_tag (bs ! j) = t \<and> (\<exists>i. M i j)}"
proof -
  let ?ps = "js_sort compare_scored (all_pairs (indexed as t) (indexed bs t))"
  have eq: "matched as bs t = map (\<lambda>p. (pr_l p, pr_r p)) (filter (taken M) ?ps)"
    using greedy_takes [of "taken M" "[]" ?ps] stable_corresponds [OF cor] by (simp add: matched_def)
  have set_m: "m \<in> set (matched as bs t) \<longleftrightarrow>
      (\<exists>i j. same_tag_at as bs t i j \<and> M i j \<and> m = ((i, as ! i), (j, bs ! j)))" for m
  proof -
    have "m \<in> set (matched as bs t) \<longleftrightarrow> (\<exists>p. p \<in> set (all_pairs (indexed as t) (indexed bs t)) \<and> taken M p \<and> m = (pr_l p, pr_r p))"
      unfolding eq by auto
    also have "\<dots> \<longleftrightarrow> (\<exists>i j. same_tag_at as bs t i j \<and> taken M (pair_at as bs i j) \<and>
        m = (pr_l (pair_at as bs i j), pr_r (pair_at as bs i j)))"
      unfolding in_all_pairs by blast
    finally show ?thesis by (simp add: pair_at_def)
  qed
  show "M (left_of p) (right_of p)" if "p \<in> set (fst (part as bs t))" for p
  proof -
    have "pair_of p \<in> set (matched as bs t)" using that set_part by blast
    then show ?thesis unfolding set_m pair_of_def by auto
  qed
  have tags: "same_tag_at as bs t i j \<longleftrightarrow> i < length as \<and> field_tag (as ! i) = t" "same_tag_at as bs t i j \<longleftrightarrow> j < length bs \<and> field_tag (bs ! j) = t"
    if "M i j" for i j
    using corresponds_at [OF cor that] content_tag unfolding same_tag_at_def by metis+
  have "left_of ` set (fst (part as bs t)) = (fst \<circ> fst) ` set (matched as bs t)"
    "right_of ` set (fst (part as bs t)) = (fst \<circ> snd) ` set (matched as bs t)"
    unfolding set_part [symmetric] by (simp_all add: image_image pair_of_def)
  moreover have S: "set (matched as bs t) = (\<lambda>(i, j). ((i, as ! i), (j, bs ! j))) ` {(i, j). same_tag_at as bs t i j \<and> M i j}"
    unfolding set_eq_iff set_m image_iff by auto
  moreover have "(fst \<circ> fst) ` set (matched as bs t) = {i. \<exists>j. same_tag_at as bs t i j \<and> M i j}"
    "(fst \<circ> snd) ` set (matched as bs t) = {j. \<exists>i. same_tag_at as bs t i j \<and> M i j}"
    unfolding S image_image by (auto simp: image_iff)
  moreover have "{i. \<exists>j. same_tag_at as bs t i j \<and> M i j} = {i. i < length as \<and> field_tag (as ! i) = t \<and> (\<exists>j. M i j)}"
    "{j. \<exists>i. same_tag_at as bs t i j \<and> M i j} = {j. j < length bs \<and> field_tag (bs ! j) = t \<and> (\<exists>i. M i j)}"
    using tags(1) tags(2) by blast+
  ultimately show "left_of ` set (fst (part as bs t)) = {i. i < length as \<and> field_tag (as ! i) = t \<and> (\<exists>j. M i j)}"
    "right_of ` set (fst (part as bs t)) = {j. j < length bs \<and> field_tag (bs ! j) = t \<and> (\<exists>i. M i j)}"
    by (simp_all only:)
qed

lemma corresponds_changes:
  assumes "corresponds as bs M"
  shows "diff_fields nfc as bs = js_sort by_place (snd (align_all as bs))"
proof -
  let ?ps = "aligned_by_left as bs"
  have m: "M (left_of p) (right_of p)" if "p \<in> set ?ps" for p
    using that corresponds_part(1) [OF assms] by (auto simp: align_all_parts)
  have "sorted_wrt (\<lambda>p q. left_of p < left_of q) ?ps" using left_sorted by (simp only: sorted_wrt_map)
  then have "sorted_wrt (\<lambda>p q. right_of p < right_of q) ?ps"
    by (rule sorted_wrt_mono_rel [rotated]) (use m corresponds_order [OF assms] in blast)
  then have "sorted_wrt (<) (map right_of ?ps)" by (simp only: sorted_wrt_map)
  moreover have "content_of (snd (al_l p)) = content_of (snd (al_r p))" if "p \<in> set ?ps" for p
    using corresponds_at(3) [OF assms m [OF that]] aligned_at [of p as bs] that by auto
  ultimately have "field_changes nfc ?ps = []" using field_changes_Nil [of ?ps nfc] aligned_ok by auto
  then show ?thesis by (simp add: diff_fields_parts)
qed


section \<open>The verdict\<close>

lemma diagonal_corresponds:
  assumes "map content_of as = map content_of bs"
  shows "corresponds as bs (\<lambda>i j. i = j \<and> i < length as)"
proof -
  have n: "length as = length bs" using assms by (rule map_eq_imp_length_eq)
  have c: "content_of (as ! i) = content_of (bs ! i)" if "i < length as" for i
    using arg_cong [OF assms, of "\<lambda>xs. xs ! i"] that n by simp
  show ?thesis
    unfolding corresponds_def same_tag_at_def using n c by (auto simp: nat_neq_iff)
qed

lemma unmatched_none:
  assumes "corresponds as bs M" "\<And>i. i < length as \<Longrightarrow> \<exists>j. M i j" "\<And>j. j < length bs \<Longrightarrow> \<exists>i. M i j"
  shows "snd (align_all as bs) = []"
proof -
  have "snd (part as bs t) = []" for t
    unfolding part_unmatched corresponds_part(2,3) [OF assms(1)] append_is_Nil_conv map_is_Nil_conv filter_enumerate_Nil
    using assms(2,3) by (auto simp: in_indexed)
  then show ?thesis by (simp add: align_all_parts)
qed

theorem diff_fields_Nil_iff: "diff_fields nfc as bs = [] \<longleftrightarrow> map content_of as = map content_of bs"
proof
  assume eq: "map content_of as = map content_of bs"
  have n: "length as = length bs" using eq by (rule map_eq_imp_length_eq)
  have "snd (align_all as bs) = []"
    by (rule unmatched_none [OF diagonal_corresponds [OF eq]]) (use n in auto)
  then show "diff_fields nfc as bs = []"
    by (simp add: corresponds_changes [OF diagonal_corresponds [OF eq]])
qed (rule no_change_same_content)

theorem verdict_identical_iff: "md_verdict (diff nfc a b) = VerdictIdentical \<longleftrightarrow>
    map content_of (mr_fields a) = map content_of (mr_fields b) \<and>
    (\<forall>p \<in> set LEADER_POSITIONS - set IGNORED_LEADER_POSITIONS. leaderAt (mr_leader a) p = leaderAt (mr_leader b) p)"
proof -
  have "md_verdict (diff nfc a b) = VerdictIdentical \<longleftrightarrow>
      diff_leader (mr_leader a) (mr_leader b) = [] \<and> diff_fields nfc (mr_fields a) (mr_fields b) = []"
    by (simp add: diff_def Let_def)
  also have "diff_leader (mr_leader a) (mr_leader b) = [] \<longleftrightarrow>
      (\<forall>p \<in> set LEADER_POSITIONS - set IGNORED_LEADER_POSITIONS. leaderAt (mr_leader a) p = leaderAt (mr_leader b) p)"
    by (auto simp: diff_leader_def)
  finally show ?thesis unfolding diff_fields_Nil_iff by blast
qed

section \<open>One field taken out\<close>

text \<open>The positions of the fields that stay when the one at \<open>n\<close> is taken out.\<close>

definition without :: "nat \<Rightarrow> nat \<Rightarrow> nat \<Rightarrow> nat \<Rightarrow> bool" where
  "without n len i j \<longleftrightarrow> i < len \<and> i \<noteq> n \<and> j = (if i < n then i else i - 1)"

lemma without_corresponds:
  assumes better: "\<And>y. y \<in> set ys \<Longrightarrow> field_tag y = field_tag f \<Longrightarrow> similarity f y < 1"
  shows "corresponds (xs @ f # ys) (xs @ ys) (without (length xs) (length (xs @ f # ys)))" (is "corresponds ?as ?bs ?M")
proof -
  let ?n = "length xs" and ?len = "length (xs @ f # ys)"
  have same: "?as ! i = ?bs ! j" if "?M i j" for i j
    using that by (auto simp: without_def nth_append nth_Cons')
  have bound: "i < ?len \<and> j < length ?bs" if "?M i j" for i j
    using that by (auto simp: without_def)
  have order: "i < i' \<longleftrightarrow> j < j'" if "?M i j" "?M i' j'" for i j i' j'
    using that by (auto simp: without_def split: if_splits)
  have onto: "\<exists>i. ?M i j" if "j < length ?bs" for j
    using that by (intro exI [of _ "if j < ?n then j else Suc j"]) (auto simp: without_def)
  have block: "(\<exists>j'. ?M i j' \<and> (similarity (?as ! i) (?bs ! j) < 1 \<or> j' < j)) \<or>
      (\<exists>i'. ?M i' j \<and> (similarity (?as ! i) (?bs ! j) < 1 \<or> i' < i))"
    if tag: "same_tag_at ?as ?bs t i j" and no: "\<not> ?M i j" for t i j
  proof -
    from tag have ij: "i < ?len" "j < length ?bs" by (simp_all add: same_tag_at_def)
    from onto [OF ij(2)] obtain i' where i': "?M i' j" by blast
    show ?thesis
    proof (cases "i = ?n")
      case False
      with ij have "?M i (if i < ?n then i else i - 1)" by (simp add: without_def)
      then obtain j' where j': "?M i j'" by blast
      have "j' \<noteq> j" using j' no by metis
      then consider "j' < j" | "i' < i" using order [OF i' j'] by linarith
      then show ?thesis using i' j' by cases blast+
    next
      case True
      show ?thesis
      proof (cases "j < ?n")
        case True
        then have "i' < i" using i' \<open>i = ?n\<close> by (auto simp: without_def split: if_splits)
        with i' show ?thesis by blast
      next
        case False
        then have "?bs ! j \<in> set ys" "?as ! i = f" using ij True by (auto simp: nth_append)
        moreover have "field_tag (?bs ! j) = field_tag f" using tag calculation(2) by (auto simp: same_tag_at_def)
        ultimately have "similarity (?as ! i) (?bs ! j) < 1" using better by simp
        with i' show ?thesis by blast
      qed
    qed
  qed
  show ?thesis
    unfolding corresponds_def
  proof (intro conjI allI impI)
    fix i j assume m: "?M i j"
    show "i < ?len" "j < length ?bs" using bound [OF m] by blast+
    show "content_of (?as ! i) = content_of (?bs ! j)" by (rule arg_cong [OF same [OF m]])
  next
    fix i j i' j' assume "?M i j" "?M i' j'"
    then show "i < i' \<longleftrightarrow> j < j'" by (rule order)
  next
    fix t i j assume "same_tag_at ?as ?bs t i j" "\<not> ?M i j"
    then show "(\<exists>j'. ?M i j' \<and> (similarity (?as ! i) (?bs ! j) < 1 \<or> j' < j)) \<or>
        (\<exists>i'. ?M i' j \<and> (similarity (?as ! i) (?bs ! j) < 1 \<or> i' < i))" by (rule block)
  qed
qed


lemma concat_one:
  assumes "distinct ts" "t \<in> set ts" "\<And>t'. t' \<in> set ts \<Longrightarrow> t' \<noteq> t \<Longrightarrow> g t' = []"
  shows "concat (map g ts) = g t"
proof -
  obtain us vs where ts: "ts = us @ t # vs" using split_list [OF assms(2)] by blast
  then have rest: "concat (map g us) = []" "concat (map g vs) = []" using assms(1,3) by auto
  show ?thesis unfolding ts map_append list.map concat_append concat.simps rest by (simp only: append_Nil append_Nil2)
qed

lemma enumerate_append: "enumerate n (xs @ ys) = enumerate n xs @ enumerate (n + length xs) ys"
  by (induction xs arbitrary: n) simp_all

lemma indexed_split: "indexed (xs @ f # ys) (field_tag f) = indexed xs (field_tag f) @ (length xs, f) #
    filter (\<lambda>p. field_tag (snd p) = field_tag f) (enumerate (Suc (length xs)) ys)"
  by (simp add: indexed_def enumerate_append)

lemma length_indexed [simp]: "length (indexed fs t) = length (filter (\<lambda>f. field_tag f = t) fs)"
proof -
  have "map snd (indexed fs t) = filter (\<lambda>f. field_tag f = t) (map snd (enumerate 0 fs))"
    by (simp only: indexed_def filter_map comp_def)
  then show ?thesis by (metis length_map map_snd_enumerate)
qed

lemma in_set_enumerate_snd: "p \<in> set (enumerate n xs) \<Longrightarrow> snd p \<in> set xs"
  by (metis imageI map_snd_enumerate set_map)

text \<open>What is left over on one side when every place but \<open>n\<close> of the fields of a tag is used.\<close>

lemma all_used_but_one:
  assumes "\<And>k x. (k, x) \<in> set (indexed (xs @ f # ys) (field_tag f)) \<Longrightarrow> k \<notin> U \<longleftrightarrow> k = length xs"
  shows "filter (\<lambda>(i, l). fst l \<notin> U) (enumerate 0 (indexed (xs @ f # ys) (field_tag f))) =
    [(length (filter (\<lambda>g. field_tag g = field_tag f) xs), (length xs, f))]"
proof -
  have none: "filter (\<lambda>(i, l). fst l \<notin> U) (enumerate m ps) = []" if "\<forall>p \<in> set ps. fst p \<in> U" for m and ps :: "positioned list"
    using that by (auto simp: filter_empty_conv dest!: in_set_enumerate_snd)
  let ?later = "filter (\<lambda>p. field_tag (snd p) = field_tag f) (enumerate (Suc (length xs)) ys)"
  have used: "fst p \<in> U" if "p \<in> set (indexed (xs @ f # ys) (field_tag f))" "fst p \<noteq> length xs" for p
    using assms [of "fst p" "snd p"] that by simp
  have "\<forall>p \<in> set (indexed xs (field_tag f)). fst p \<in> U"
  proof
    fix p assume p: "p \<in> set (indexed xs (field_tag f))"
    then have "fst p < length xs" by (simp add: in_indexed)
    then show "fst p \<in> U" using p by (intro used) (simp_all add: indexed_split)
  qed
  moreover have "\<forall>p \<in> set ?later. fst p \<in> U"
  proof
    fix p assume p: "p \<in> set ?later"
    then have "length xs < fst p" by (auto simp: in_set_enumerate_eq)
    then show "fst p \<in> U" using p by (intro used) (simp_all add: indexed_split)
  qed
  moreover have "length xs \<notin> U" using assms [of "length xs" f] by (simp add: in_indexed)
  ultimately show ?thesis unfolding indexed_split enumerate_append by (simp add: none)
qed

lemma similarity_sym: "similarity a b = similarity b a"
proof -
  have "count_hits xs ys = count_hits ys xs" for xs ys :: "utext list"
    by (simp add: count_hits_mset subset_mset.inf.commute)
  then have "characterOverlap x y = characterOverlap y x" for x y
    by (simp add: characterOverlap_def add.commute)
  with \<open>\<And>xs ys. count_hits xs ys = count_hits ys xs\<close> show ?thesis
    by (simp add: similarity_def Let_def add.commute split: marc_field.split)
qed

lemma corresponds_sym: "corresponds as bs M \<Longrightarrow> corresponds bs as (\<lambda>j i. M i j)"
proof -
  assume cor: "corresponds as bs M"
  show ?thesis
    unfolding corresponds_def
  proof (intro conjI allI impI)
    fix j i assume "M i j"
    from corresponds_at [OF cor this] show "j < length bs" "i < length as" "content_of (bs ! j) = content_of (as ! i)"
      by simp_all
  next
    fix j i j' i' assume "M i j" "M i' j'"
    from corresponds_order [OF cor this] show "j < j' \<longleftrightarrow> i < i'" by simp
  next
    fix t j i assume "same_tag_at bs as t j i" and no: "\<not> M i j"
    then have "same_tag_at as bs t i j" by (simp add: same_tag_at_def)
    with cor no have "(\<exists>j'. M i j' \<and> (similarity (as ! i) (bs ! j) < 1 \<or> j' < j)) \<or>
        (\<exists>i'. M i' j \<and> (similarity (as ! i) (bs ! j) < 1 \<or> i' < i))"
      unfolding corresponds_def by blast
    then show "(\<exists>i'. M i' j \<and> (similarity (bs ! j) (as ! i) < 1 \<or> i' < i)) \<or>
        (\<exists>j'. M i j' \<and> (similarity (bs ! j) (as ! i) < 1 \<or> j' < j))"
      unfolding similarity_sym [of "bs ! j"] by blast
  qed
qed

lemma describe_one:
  assumes cor: "corresponds as bs M" and
    only: "\<And>t. t \<noteq> u \<Longrightarrow> snd (part as bs t) = []" and one: "snd (part as bs u) = [c]"
    and u: "u \<in> set (all_tags as bs)"
  shows "diff_fields nfc as bs = [c]"
proof -
  have "snd (align_all as bs) = [c]"
    unfolding align_all_parts snd_conv one [symmetric] by (rule concat_one [OF all_tags_distinct u only])
  then show ?thesis by (simp add: corresponds_changes [OF cor])
qed

theorem one_field_removed:
  assumes "\<And>y. y \<in> set ys \<Longrightarrow> field_tag y = field_tag f \<Longrightarrow> similarity f y < 1"
  shows "diff_fields nfc (xs @ f # ys) (xs @ ys) =
    [describe_field ChangeRemoved (field_tag f) (Suc (length (filter (\<lambda>g. field_tag g = field_tag f) xs))) (Some (length xs)) None f]"
proof (rule describe_one)
  let ?as = "xs @ f # ys" and ?bs = "xs @ ys" and ?n = "length xs"
  let ?M = "without ?n (length ?as)"
  show cor: "corresponds ?as ?bs ?M" by (rule without_corresponds [OF assms])
  have left: "(\<exists>j. ?M i j) \<longleftrightarrow> i < length ?as \<and> i \<noteq> ?n" for i by (simp add: without_def)
  have right: "\<exists>i. ?M i j" if "j < length ?bs" for j
    using that by (intro exI [of _ "if j < ?n then j else Suc j"]) (auto simp: without_def)
  have adds: "filter (\<lambda>(i, r). fst r \<notin> right_of ` set (fst (part ?as ?bs t))) (enumerate 0 (indexed ?bs t)) = []" for t
    unfolding filter_enumerate_Nil corresponds_part(3) [OF cor] using right by (auto simp: in_indexed)
  show "snd (part ?as ?bs t) = []" if "t \<noteq> field_tag f" for t
    unfolding part_unmatched adds append_is_Nil_conv map_is_Nil_conv filter_enumerate_Nil corresponds_part(2) [OF cor] left
    using that by (auto simp: in_indexed nth_append)
  have "filter (\<lambda>(i, l). fst l \<notin> left_of ` set (fst (part ?as ?bs (field_tag f)))) (enumerate 0 (indexed ?as (field_tag f))) =
      [(length (filter (\<lambda>g. field_tag g = field_tag f) xs), (?n, f))]"
    by (rule all_used_but_one) (unfold corresponds_part(2) [OF cor] left, auto simp: in_indexed)
  then show "snd (part ?as ?bs (field_tag f)) =
      [describe_field ChangeRemoved (field_tag f) (Suc (length (filter (\<lambda>g. field_tag g = field_tag f) xs))) (Some ?n) None f]"
    unfolding part_unmatched adds by simp
  show "field_tag f \<in> set (all_tags ?as ?bs)" by (simp add: in_all_tags)
qed

theorem one_field_added:
  assumes "\<And>y. y \<in> set ys \<Longrightarrow> field_tag y = field_tag f \<Longrightarrow> similarity f y < 1"
  shows "diff_fields nfc (xs @ ys) (xs @ f # ys) =
    [describe_field ChangeAdded (field_tag f) (Suc (length (filter (\<lambda>g. field_tag g = field_tag f) xs))) None (Some (length xs)) f]"
proof (rule describe_one)
  let ?bs = "xs @ f # ys" and ?as = "xs @ ys" and ?n = "length xs"
  let ?M = "\<lambda>j i. without ?n (length ?bs) i j"
  show cor: "corresponds ?as ?bs ?M" by (rule corresponds_sym [OF without_corresponds [OF assms]])
  have left: "(\<exists>j. ?M j i) \<longleftrightarrow> i < length ?bs \<and> i \<noteq> ?n" for i by (simp add: without_def)
  have right: "\<exists>i. ?M j i" if "j < length ?as" for j
    using that by (intro exI [of _ "if j < ?n then j else Suc j"]) (auto simp: without_def)
  have removes: "filter (\<lambda>(i, l). fst l \<notin> left_of ` set (fst (part ?as ?bs t))) (enumerate 0 (indexed ?as t)) = []" for t
    unfolding filter_enumerate_Nil corresponds_part(2) [OF cor] using right by (auto simp: in_indexed)
  show "snd (part ?as ?bs t) = []" if "t \<noteq> field_tag f" for t
    unfolding part_unmatched removes append_is_Nil_conv map_is_Nil_conv filter_enumerate_Nil corresponds_part(3) [OF cor] left
    using that by (auto simp: in_indexed nth_append)
  have "filter (\<lambda>(i, r). fst r \<notin> right_of ` set (fst (part ?as ?bs (field_tag f)))) (enumerate 0 (indexed ?bs (field_tag f))) =
      [(length (filter (\<lambda>g. field_tag g = field_tag f) xs), (?n, f))]"
    by (rule all_used_but_one) (unfold corresponds_part(3) [OF cor] left, auto simp: in_indexed)
  then show "snd (part ?as ?bs (field_tag f)) =
      [describe_field ChangeAdded (field_tag f) (Suc (length (filter (\<lambda>g. field_tag g = field_tag f) xs))) None (Some ?n) f]"
    unfolding part_unmatched removes by simp
  show "field_tag f \<in> set (all_tags ?as ?bs)" by (simp add: in_all_tags)
qed

section \<open>A move that does not show\<close>

text \<open>
  The class of a change looks at its subfields alone. A title that changes places with a note and has
  its link renumbered is reported as moved, but the verdict of the record is that only links changed.
\<close>

definition linked_title :: "string \<Rightarrow> marc_field" where
  "linked_title link = DataField (text_of ''245'') [32, 32] [(text_of ''6'', text_of link), (text_of ''a'', text_of ''Title'')] []"

definition short_note :: marc_field where
  "short_note = DataField (text_of ''500'') [32, 32] [(text_of ''a'', text_of ''Note'')] []"

definition title_first :: marc_record where
  "title_first = \<lparr>mr_leader = [], mr_fields = [linked_title ''880-01'', short_note]\<rparr>"

definition note_first :: marc_record where
  "note_first = \<lparr>mr_leader = [], mr_fields = [short_note, linked_title ''880-02'']\<rparr>"

lemma move_hides_behind_a_link:
  "md_verdict (diff (\<lambda>t. t) title_first note_first) = VerdictLinkageOnly"
  "map fc_moved (md_fields (diff (\<lambda>t. t) title_first note_first)) = [True]"
  by code_simp+

end
