(* ===== verification/Editing_Properties.thy ===== *)
theory Editing_Properties
  imports Marc_Batch Diff_Fields
begin

text \<open>
  The properties of the packages that address, edit and compare records (\<open>path.ts\<close>, \<open>ops.ts\<close>,
  \<open>linkage.ts\<close> and \<open>diff.ts\<close> of \<open>packages/marc/src\<close>), over the lemmas of their theories.
\<close>

lemma not_isl: "\<not> isl x \<Longrightarrow> \<exists>y. x = Inr y"
  by (cases x) auto

section \<open>Paths\<close>

text \<open>
  C22. A path that parses is well formed, and what \<open>formatMarcPath\<close> writes for it parses to the same
  path: ranges end after they start, an indicator stands alone, a code is one unit, and no two paths
  share a text.
\<close>

theorem parsed_paths_read_back:
  assumes "parseMarcPath t = Inr p"
  shows "wf_path p \<and> parseMarcPath (formatMarcPath p) = Inr p"
  using parse_wf [OF assms] parse_format by blast

definition title_path :: utext where
  "title_path = text_of ''245[0]$a[#]/02-05''"

theorem parsed_paths_read_back_witness:
  "\<exists>p. parseMarcPath title_path = Inr p \<and> wf_path p \<and> parseMarcPath (formatMarcPath p) = Inr p"
proof -
  have "\<not> isl (parseMarcPath title_path)" by code_simp
  then have "\<exists>p. parseMarcPath title_path = Inr p" by (rule not_isl)
  then show ?thesis using parsed_paths_read_back by blast
qed

text \<open>
  C24. What an edit may name: a path the parser of edits accepts is well formed and names at most one
  value of any record.
\<close>

theorem edit_paths_name_one_value:
  assumes "parseOpPath t = Inr p"
  shows "wf_path p \<and> length (get r p) \<le> 1"
  using assms parse_wf addressable_one unfolding parseOpPath_iff by blast

theorem edit_paths_name_one_value_witness:
  "\<exists>p. parseOpPath (text_of ''500[0]$a[0]'') = Inr p \<and> (\<forall>r. length (get r p) \<le> 1)"
proof -
  have "\<not> isl (parseOpPath (text_of ''500[0]$a[0]''))" by code_simp
  then have "\<exists>p. parseOpPath (text_of ''500[0]$a[0]'') = Inr p" by (rule not_isl)
  then show ?thesis using edit_paths_name_one_value by blast
qed

section \<open>Edits\<close>




text \<open>
  C26. In a batch every path names the field it would name in the record as it came in, whatever the
  batch has deleted, inserted, moved or retagged before it.
\<close>

theorem batches_name_original_fields:
  assumes "run_ops opts 0 ops (start_state r) = Inr st"
  shows "resolveField (es_entries st) path = resolveField (es_entries (start_state r)) path"
  by (rule paths_name_original_fields [OF assms])

definition mixed_batch :: "marc_op list" where
  "mixed_batch = [DeleteField 0 (letter ''A''), InsertField 2 (letter ''X''),
     SetValue (text_of ''500[1]$a[0]'') (text_of ''B'') (text_of ''Z'')]"

theorem batches_name_original_fields_witness:
  "\<exists>st. run_ops plain_options 0 mixed_batch (start_state letters) = Inr st \<and>
     resolveField (es_entries st) (text_of ''500[3]'') = resolveField (es_entries (start_state letters)) (text_of ''500[3]'')"
proof -
  have "\<not> isl (run_ops plain_options 0 mixed_batch (start_state letters))" by code_simp
  then have "\<exists>st. run_ops plain_options 0 mixed_batch (start_state letters) = Inr st" by (rule not_isl)
  then show ?thesis using batches_name_original_fields by blast
qed

text \<open>
  C14. The fields of a batch without moves are laid out by position: before each original field what
  was inserted there, in the order of the batch, and then that field as it was edited, unless it was
  deleted.
\<close>

theorem batches_lay_out_by_position:
  assumes "run_ops opts 0 ops (start_state r) = Inr st" "moves_of ops = []"
  shows "mr_fields (rebuild st) = positional (fold retag (es_retags st) (es_entries st)) (inserts_of 0 ops)"
  by (rule batch_without_moves [OF assms])

theorem batches_lay_out_by_position_witness:
  "\<exists>st. run_ops plain_options 0 mixed_batch (start_state letters) = Inr st \<and> moves_of mixed_batch = [] \<and>
     mr_fields (rebuild st) = positional (fold retag (es_retags st) (es_entries st)) (inserts_of 0 mixed_batch)"
proof -
  have "\<not> isl (run_ops plain_options 0 mixed_batch (start_state letters))" by code_simp
  then have "\<exists>st. run_ops plain_options 0 mixed_batch (start_state letters) = Inr st" by (rule not_isl)
  moreover have "moves_of mixed_batch = []" by code_simp
  ultimately show ?thesis using batches_lay_out_by_position by blast
qed



section \<open>Linked fields\<close>





section \<open>Differences\<close>

text \<open>
  C18. What stays in place between two versions is a longest increasing run: the indices it returns,
  last first, increase together with their values, and no increasing run is longer.
\<close>

theorem stays_in_place_most:
  "sorted_wrt (>) (longestIncreasingSubsequence vals) \<and>
   sorted_wrt (>) (map ((!) vals) (longestIncreasingSubsequence vals)) \<and>
   set (longestIncreasingSubsequence vals) \<subseteq> {..<length vals} \<and>
   (\<forall>run. inc_seq vals (length vals) run \<longrightarrow> length run \<le> length (longestIncreasingSubsequence vals))"
  by (intro conjI allI impI lis_correct)

theorem stays_in_place_most_witness:
  "length [1, 2 :: nat] \<le> length (longestIncreasingSubsequence [3, 1, 2])"
proof -
  have "inc_seq [3, 1, 2] (length [3, 1, 2 :: nat]) [1, 2]" by code_simp
  then show ?thesis using stays_in_place_most [of "[3, 1, 2]"] by blast
qed

text \<open>
  C29. The comparison of two lists of subfields misses nothing and invents nothing: it is empty exactly
  when the lists are equal, code by code and value by value, in order.
\<close>

theorem no_subfield_change_iff_equal: "diffSubfields a b = [] \<longleftrightarrow> a = b"
  by (rule diffSubfields_Nil_iff)





end
