(* ===== verification/Money_Properties.thy ===== *)
theory Money_Properties
  imports Money
begin

text \<open>What the money module guarantees: rounding, splitting without loss, and decimal strings.\<close>

text \<open>
  C31. Rounding is half to even: \<open>multiplyRounded a n d\<close> is an integer nearest to \<open>a * n / d\<close>, and of
  two equally near ones the even one; no other integer is.
\<close>

theorem multiplication_rounds_half_even:
  assumes "multiplyRounded a n d = Inr r"
  shows "half_even (a * n) d r \<and> (\<forall>s. half_even (a * n) d s \<longrightarrow> s = r)"
proof -
  have "d \<noteq> 0" using assms by (auto simp: multiplyRounded_def split: if_splits)
  then show ?thesis using multiplyRounded_half_even [OF assms] half_even_unique by blast
qed

theorem multiplication_rounds_half_even_witness: "half_even (- 25 * 1) 10 (- 2)"
proof -
  have "multiplyRounded (- 25) 1 10 = Inr (- 2)" by code_simp
  from multiplication_rounds_half_even [OF this] show ?thesis by blast
qed

text \<open>
  C28. Splitting an amount loses nothing and favours nobody: the parts add up to the amount, there
  is one per weight, and each is its exact quota rounded towards or away from zero, never more
  than one minor unit beyond it.
\<close>

theorem allocation_adds_up:
  assumes "allocate a ws = Inr ps"
  shows "sum_list ps = a \<and> length ps = length ws \<and>
    (\<forall>i < length ws. \<bar>ps ! i\<bar> = \<bar>a\<bar> * weight_value (ws ! i) div sum_list (map weight_value ws) \<or>
       \<bar>ps ! i\<bar> = \<bar>a\<bar> * weight_value (ws ! i) div sum_list (map weight_value ws) + 1)"
proof -
  let ?w = "map weight_value ws" and ?m = "allocate_magnitude \<bar>a\<bar> (map weight_value ws)"
  from assms have w: "\<forall>x \<in> set ?w. 0 \<le> x" "sum_list ?w \<noteq> 0"
    and ps: "ps = (if a < 0 then map uminus ?m else ?m)"
    by (auto simp: allocate_Inr_iff)
  have pos: "0 < sum_list ?w" using w sum_list_nonneg [of ?w] by fastforce
  have total: "sum_list ?m = \<bar>a\<bar>" by (rule allocate_magnitude_sum [OF abs_ge_zero w(1) pos])
  have quota: "?m ! i = \<bar>a\<bar> * weight_value (ws ! i) div sum_list ?w \<or> ?m ! i = \<bar>a\<bar> * weight_value (ws ! i) div sum_list ?w + 1"
    if "i < length ws" for i
    using allocate_magnitude_quota [OF abs_ge_zero w(1) pos, of i a] that by auto
  have nonneg: "0 \<le> \<bar>a\<bar> * weight_value (ws ! i) div sum_list ?w" if "i < length ws" for i
    using that w(1) pos by (intro pos_imp_zdiv_nonneg_iff [THEN iffD2]) auto
  have "\<bar>ps ! i\<bar> = ?m ! i" if "i < length ws" for i
    using quota [OF that] nonneg [OF that] that by (auto simp: ps)
  then show ?thesis using total quota by (auto simp: ps sum_list_uminus)
qed

theorem allocation_adds_up_witness: "sum_list [34, 33, 33 :: int] = 100"
proof -
  have "allocate 100 [BigInt 1, BigInt 1, BigInt 1] = Inr [34, 33, 33]" by code_simp
  from allocation_adds_up [OF this] show ?thesis by blast
qed

text \<open>
  A total never mixes currencies: \<open>sumMoney\<close> succeeds exactly when every amount is in the
  currency asked for, and then it is the sum in that currency.
\<close>

theorem sum_of_one_currency:
  "sumMoney ms cur = Inr r \<longleftrightarrow>
     (\<forall>m \<in> set ms. currency m = cur) \<and> r = \<lparr>amount = (\<Sum>m \<leftarrow> ms. amount m), currency = cur\<rparr>"
  by (rule sumMoney_Inr_iff)

text \<open>
  C30. Decimal strings: what \<open>toDecimalString\<close> prints, \<open>parseMoney\<close> reads back to the same amount,
  for every amount in a known currency, whatever its number of minor digits, unless the caller
  asks for a decimal comma.
\<close>

theorem decimal_string_round_trip:
  assumes "isCurrencyCode (currency m)" "sep \<noteq> SepComma"
  shows "\<exists>s. toDecimalString m = Inr s \<and> parseMoney s (currency m) sep = Inr m"
  using decimal_round_trip [OF assms] by blast

theorem decimal_string_round_trip_witness:
  "\<exists>s. toDecimalString \<lparr>amount = - 5, currency = ''KWD''\<rparr> = Inr s \<and> parseMoney s ''KWD'' SepDot = Inr \<lparr>amount = - 5, currency = ''KWD''\<rparr>"
proof -
  have "isCurrencyCode ''KWD''" by code_simp
  then show ?thesis using decimal_string_round_trip [of "\<lparr>amount = - 5, currency = ''KWD''\<rparr>" SepDot] by simp
qed

end
