(* ===== verification/Time_Properties.thy ===== *)
theory Time_Properties
  imports Due_Date Greek_Calendar
begin

text \<open>
  What the civil calendar and the opening hours guarantee: the conversions between days and dates,
  between wall-clock times and instants, the searches for an open minute, and the Greek feasts.
\<close>

section \<open>Days and dates\<close>

text \<open>
  C33. \<open>civilFromDays\<close> and \<open>daysFromCivil\<close> are inverse to each other from the year 1 on, and the day
  number is the count of days since 1970-01-01: whole years, their leap days, whole months, days.
\<close>

theorem civil_round_trip:
  assumes "valid_civil d" "1 \<le> year d"
  shows "civilFromDays (daysFromCivil d) = (d :: civil_date) \<and> daysFromCivil d = gregorian_day (year d) (month d) (day d) \<and>
    (\<forall>n \<ge> daysFromCivil d. valid_civil (civilFromDays n) \<and> daysFromCivil (civilFromDays n) = n)"
proof -
  have m: "1 \<le> month d" "month d \<le> 12" using assms(1) by (simp_all add: valid_civil_def)
  have "anno_domini d" using assms by (simp add: anno_domini_def)
  then have "- 719162 \<le> daysFromCivil d" using anno_domini_lo [OF assms] by simp
  then show ?thesis
    using civilFromDays_daysFromCivil [OF assms] daysFromCivil_counts [OF _ m] assms(2) civilFromDays_valid(1,2) by auto
qed

theorem civil_round_trip_witness: "civilFromDays (daysFromCivil \<lparr>year = 2024, month = 2, day = 29\<rparr>) = \<lparr>year = 2024, month = 2, day = 29\<rparr>"
proof -
  have leap: "valid_civil \<lparr>year = 2024, month = 2, day = 29\<rparr>" by code_simp
  show ?thesis by (rule civil_round_trip [OF leap, THEN conjunct1]) simp
qed

text \<open>
  A stored instant survives its text: \<open>Date.parse\<close> of what \<open>toISOString\<close> prints is the same
  millisecond, for the years 1 to 9999.
\<close>

theorem iso_string_round_trip:
  assumes "- 719162 \<le> ms div 86400000" "year (civilFromDays (ms div 86400000)) \<le> 9999"
  shows "date_parse (toISOString ms) = Some ms"
  by (rule date_parse_toISOString [OF assms])

theorem iso_string_round_trip_witness: "date_parse (toISOString 1777802400123) = Some 1777802400123"
proof -
  have "year (civilFromDays (1777802400123 div 86400000)) \<le> 9999" by code_simp
  then show ?thesis using iso_string_round_trip [of 1777802400123] by simp
qed

section \<open>Wall-clock times\<close>

text \<open>
  C32. The instant of a wall-clock time, when the clock is changed at most once within a day of it:
  a time that is shown once is that instant, of one shown twice the disambiguation picks the
  earlier or the later, one that is never shown is moved past the gap or refused, and the label
  says which of the three it was.
\<close>

theorem wall_time_is_resolved:
  assumes "wall_clock intl off" "modern (wall_of c - 2 * DAY_MS)" "one_change off tz (wall_of c)"
    and "instantFromCivil intl tz c dis = Inr (t, k)"
  shows "resolved_reading off tz (wall_of c) dis t k"
  by (rule instantFromCivil_resolved [OF assms])

definition october_night :: civil_date_time where
  "october_night = at_time \<lparr>year = 2026, month = 10, day = 25\<rparr> 3 30 0"

lemma october_night: "wall_of october_night = 1792899000000"
  by code_simp

theorem wall_time_is_resolved_witness:
  "\<exists>t k. resolved_reading athens_2026 ''Europe/Athens'' 1792899000000 Later t k"
proof -
  obtain t k where run: "instantFromCivil athens ''Europe/Athens'' october_night Later = Inr (t, k)"
    using instantFromCivil_Later by blast
  have lo: "modern (wall_of october_night - 2 * DAY_MS)" by (simp add: october_night modern_def DAY_MS_def)
  have "athens_2026 ''Europe/Athens'' ms = (if ms < 1792890000000 then 10800000 else 7200000)"
    if "\<bar>ms - 1792899000000\<bar> \<le> DAY_MS" for ms
    using that by (auto simp: athens_2026_def DAY_MS_def abs_le_iff)
  then have "one_change athens_2026 ''Europe/Athens'' (wall_of october_night)"
    unfolding one_change_def october_night by blast
  from wall_time_is_resolved [OF athens_law lo this run] show ?thesis by (auto simp: october_night)
qed

section \<open>Opening hours\<close>



text \<open>
  The search gives up only on a calendar that has nothing to find: it fails with
  \<open>CalendarExhausted\<close>, and then no minute of the 45 days from the start is open.
\<close>

theorem search_fails_when_closed:
  assumes "wf_calendar cal" "nextOpenCivil cal from m = Inl e"
    and "\<forall>k < 45. \<exists>hs. hoursOn cal (civilFromDays (daysFromCivil from + int k)) = Inr hs"
  shows "e = PolicyResolutionError CalendarExhausted (Some (cal_id cal)) \<and>
    (\<forall>k < 45. \<forall>x. searched m k x \<longrightarrow> \<not> open_on_day cal (daysFromCivil from + int k) x)"
  by (rule nextOpenCivil_Inl [OF assms])

definition always_closed :: calendar where
  "always_closed = split_days\<lparr>exceptions := [], weekly :=
     map (\<lambda>d. \<lparr>weekday = d, dh_intervals = []\<rparr>) [0, 1, 2, 3, 4, 5, 6]\<rparr>"

lemma next_open_minute_exists:
  "wf_calendar cal \<Longrightarrow> nextOpenCivil cal d m = Inr (date, m') \<Longrightarrow> \<exists>k. open_on_day cal k m'"
  using nextOpenCivil_first by blast

theorem search_fails_when_closed_witness: "\<not> open_on_day always_closed (daysFromCivil \<lparr>year = 2026, month = 5, day = 17\<rparr> + 44) 600"
proof -
  have wf: "wf_calendar always_closed" by code_simp
  have bounds: "daysFromCivil (definedFrom always_closed) \<le> 20590" "20590 + 45 \<le> daysFromCivil (definedTo always_closed)"
      "daysFromCivil \<lparr>year = 2026, month = 5, day = 17\<rparr> = 20590"
    by code_simp+
  have hours: "\<exists>hs. hoursOn always_closed (civilFromDays (daysFromCivil \<lparr>year = 2026, month = 5, day = 17\<rparr> + int k)) = Inr hs"
    if "k < 45" for k
    unfolding hoursOn_defined_iff using that bounds by (simp add: civilFromDays_valid(2))
  have never: "\<not> open_on_day always_closed d x" for d x
    by (auto simp: open_on_day_def isOpenAtCivil_Inr_iff hoursOn_def always_closed_def bind_res_Inr_iff Let_def
        split: if_splits)
  obtain e where run: "nextOpenCivil always_closed \<lparr>year = 2026, month = 5, day = 17\<rparr> 780 = Inl e"
    using next_open_minute_exists [OF wf] never by (metis old.sum.exhaust surj_pair)
  have "\<forall>k < 45. \<forall>x. searched 780 k x \<longrightarrow> \<not> open_on_day always_closed (daysFromCivil \<lparr>year = 2026, month = 5, day = 17\<rparr> + int k) x"
    using search_fails_when_closed [OF wf run] hours by blast
  from this [rule_format, of 44 600] show ?thesis by (simp add: searched_def)
qed

text \<open>
  Open days between two instants are counted in the half-open interval after the first: the
  count is the number of open days later than the day of the first instant and not later than
  the day of the second, so adjacent intervals add up.
\<close>

theorem open_days_are_counted:
  assumes "openDaysBetween intl cal t0 t1 False = Inr r" "openDaysBetween intl cal t1 t2 False = Inr s"
    and "daysFromCivil (zonedCivil intl t0 (timezone cal)) \<le> daysFromCivil (zonedCivil intl t1 (timezone cal))"
    and "daysFromCivil (zonedCivil intl t1 (timezone cal)) \<le> daysFromCivil (zonedCivil intl t2 (timezone cal))"
  shows "r = int (card {x. daysFromCivil (zonedCivil intl t0 (timezone cal)) < x \<and>
      x \<le> daysFromCivil (zonedCivil intl t1 (timezone cal)) \<and> isOpenDay cal (civilFromDays x) = Inr True}) \<and>
    openDaysBetween intl cal t0 t2 False = Inr (r + s)"
  using openDaysBetween_card [OF assms(1)] openDaysBetween_additive [OF assms] by blast

theorem open_days_are_counted_witness:
  "openDaysBetween athens split_days 1777802400000 1778493600000 False = Inr 7"
proof -
  have runs: "openDaysBetween athens split_days 1777802400000 1778061600000 False = Inr 3"
      "openDaysBetween athens split_days 1778061600000 1778493600000 False = Inr 4"
    by code_simp+
  have days: "daysFromCivil (zonedCivil athens 1777802400000 (timezone split_days)) \<le> daysFromCivil (zonedCivil athens 1778061600000 (timezone split_days))"
      "daysFromCivil (zonedCivil athens 1778061600000 (timezone split_days)) \<le> daysFromCivil (zonedCivil athens 1778493600000 (timezone split_days))"
    by code_simp+
  from open_days_are_counted [OF runs days] show ?thesis by simp
qed

section \<open>Moving a due date\<close>

text \<open>
  A due date asked to fall on the end of the previous open day can move forward: with a morning
  and an afternoon opening, a two-hour loan taken in the morning and due while the library is shut
  is moved to the end of that day, later than it was.
\<close>

theorem previous_open_day_moves_forward:
  "due_of (base_loan\<lparr>period := Some \<lparr>dur_value = 2, dur_unit = Hours\<rparr>,
     closedDayHandling := EndOfPreviousOpenDay\<rparr>) split_days 1777973400000 = Inr (Some 1778004000000) \<and>
   due_of (base_loan\<lparr>period := Some \<lparr>dur_value = 2, dur_unit = Hours\<rparr>\<rparr>) split_days 1777973400000 = Inr (Some 1777980600000)"
proof (rule conjI [OF endOfPreviousOpenDay_forward])
  show "due_of (base_loan\<lparr>period := Some \<lparr>dur_value = 2, dur_unit = Hours\<rparr>\<rparr>) split_days 1777973400000 = Inr (Some 1777980600000)"
    by (simp add: due_of_defs addDuration_def Let_def)
qed

section \<open>The Greek calendar\<close>

text \<open>
  C38. \<open>orthodoxPascha\<close> answers exactly for the years 1900 to 2099, and then with a Sunday of the
  week after the paschal full moon, between 4 April and 8 May.
\<close>

theorem pascha_is_the_sunday_after_the_moon:
  "(orthodoxPascha y = Inl e \<longleftrightarrow> y < 1900 \<or> 2099 < y) \<and> (\<forall>p. orthodoxPascha y = Inr p \<longrightarrow> pascha_facts y p)"
  using orthodoxPascha_error_iff orthodoxPascha_facts by blast

theorem pascha_is_the_sunday_after_the_moon_witness: "pascha_facts 2026 \<lparr>year = 2026, month = 4, day = 12\<rparr>"
proof -
  have "orthodoxPascha 2026 = Inr \<lparr>year = 2026, month = 4, day = 12\<rparr>" by code_simp
  then show ?thesis using pascha_is_the_sunday_after_the_moon [of 2026] by blast
qed

text \<open>
  The rows generated for a range of years are one per day, in order, and each closes its day,
  so a calendar that takes them as its exceptions is shut on every one of them.
\<close>

theorem greek_holidays_close_the_library:
  assumes "greekCalendarExceptionsForYears a b = Inr (exceptions cal)" "ex \<in> set (exceptions cal)"
  shows "sorted_wrt (<) (date_line (exceptions cal)) \<and> (\<forall>r. isOpenDay cal (ex_date ex) = Inr r \<longrightarrow> \<not> r)"
  using greek_years_strict [OF assms(1)] greek_calendar_closed [OF assms] by blast

definition greek_2026 :: calendar where
  "greek_2026 = split_days\<lparr>exceptions := (case greekCalendarExceptionsForYears 2026 2026 of Inr rows \<Rightarrow> rows | Inl e \<Rightarrow> [])\<rparr>"

theorem greek_holidays_close_the_library_witness:
  "isOpenDay greek_2026 \<lparr>year = 2026, month = 1, day = 1\<rparr> \<noteq> Inr True"
proof -
  obtain rows where "greekCalendarExceptionsForYears 2026 2026 = Inr rows" using greek_years_total [of 2026 2026] by auto
  then have rows: "greekCalendarExceptionsForYears 2026 2026 = Inr (exceptions greek_2026)" by (simp add: greek_2026_def)
  from rows have "greekCalendarExceptions 2026 = Inr (exceptions greek_2026)"
    by (auto simp: greekCalendarExceptionsForYears_def bind_res_Inr_iff)
  moreover have "\<exists>name. (\<lparr>year = 2026, month = 1, day = 1\<rparr>, name) \<in> set (greekFixedHolidays 2026)"
    by (simp add: greekFixedHolidays_def FIXED_def)
  ultimately obtain ex where "ex \<in> set (exceptions greek_2026)" "ex_date ex = \<lparr>year = 2026, month = 1, day = 1\<rparr>"
    using fixed_row_present by (metis calendar_exception.select_convs(1))
  with greek_holidays_close_the_library [OF rows] show ?thesis by metis
qed

end
