(* ===== verification/Policy_Properties.thy ===== *)
theory Policy_Properties
  imports Fines Pinning Policy_Rows
begin

text \<open>
  What the policy package guarantees beyond resolution and due dates: fines, lost items, blocks,
  the snapshots frozen on loans and holds, and the rows policies are stored in.
\<close>

section \<open>Fines\<close>


lemma charged_result:
  "Fines.charged pol t s a = Inr n \<Longrightarrow> \<exists>r. accrueOverdue athens (fine_input pol t s a) = Inr r \<and> amount (or_amount r) = n"
  by (cases "accrueOverdue athens (fine_input pol t s a)") (auto simp: Fines.charged_def)


text \<open>
  A cap is a cap: with a maximum and no minimum fine, what was already charged and the new
  charge together never exceed the maximum, unless more than it was charged before.
\<close>

theorem fines_stay_capped:
  assumes "accrueOverdue intl inp = Inr r" "0 \<le> minorUnits (amountPerInterval (oi_policy inp))"
    and "minimumFine (oi_policy inp) = None" "maximumFine (oi_policy inp) = Some m"
  shows "already_amount inp + amount (or_amount r) \<le> max (minorUnits m) (already_amount inp)"
  by (rule accrue_total_bounded [OF assms])

definition capped_fine :: overdue_fine_policy where
  "capped_fine = hourly_fine\<lparr>maximumFine := Some \<lparr>minorUnits = 120, mj_currency = ''EUR''\<rparr>\<rparr>"

theorem fines_stay_capped_witness:
  "\<exists>r. accrueOverdue athens (fine_input capped_fine 7200000 None 100) = Inr r \<and> 100 + amount (or_amount r) \<le> 120"
proof -
  have "Fines.charged capped_fine 7200000 None 100 = Inr 20" by (simp add: charged_defs capped_fine_def)
  then obtain r where r: "accrueOverdue athens (fine_input capped_fine 7200000 None 100) = Inr r"
    by (auto dest!: charged_result)
  have "already_amount (fine_input capped_fine 7200000 None 100) = 100"
    by (simp add: already_amount_def fine_input_def)
  then show ?thesis
    using fines_stay_capped [OF r, of "\<lparr>minorUnits = 120, mj_currency = ''EUR''\<rparr>"] r
    by (simp add: fine_input_def capped_fine_def hourly_fine_def)
qed

text \<open>
  The minimum fine breaks the cap: with a maximum of 5.00, a minimum of 1.00 and 4.50 already
  charged, the next charge is 1.00, which makes 5.50.
\<close>

theorem minimum_fine_passes_maximum:
  "Fines.charged (hourly_fine\<lparr>minimumFine := Some \<lparr>minorUnits = 100, mj_currency = ''EUR''\<rparr>,
     maximumFine := Some \<lparr>minorUnits = 500, mj_currency = ''EUR''\<rparr>\<rparr>) 3600000 None 450 = Inr 100"
  by (rule minimum_passes_maximum)

text \<open>
  Grace is a threshold and not a discount: once it is over, the charge is the one of the same
  policy without a grace period.
\<close>

theorem grace_is_no_discount:
  assumes "past_grace intl inp"
  shows "map_sum id (\<lambda>r. r\<lparr>graceEndsAt := None\<rparr>) (accrueOverdue intl inp) = accrueOverdue intl (without_grace inp)"
  by (rule accrue_grace_no_discount [OF assms])

definition lenient_fine :: overdue_fine_policy where
  "lenient_fine = hourly_fine\<lparr>gracePeriod := Some \<lparr>dur_value = 30, dur_unit = Minutes\<rparr>\<rparr>"

theorem grace_is_no_discount_witness:
  "map_sum id (\<lambda>r. amount (or_amount r)) (accrueOverdue athens (fine_input lenient_fine 3600000 None 0)) = Inr 50"
proof -
  have past: "past_grace athens (fine_input lenient_fine 3600000 None 0)"
    by (simp add: past_grace_def grace_end_def fine_input_def lenient_fine_def hourly_fine_def addDuration_def Let_def)
  have same: "without_grace (fine_input lenient_fine 3600000 None 0) = fine_input hourly_fine 3600000 None 0"
    by (simp add: without_grace_def fine_input_def lenient_fine_def hourly_fine_def)
  obtain r where "accrueOverdue athens (fine_input hourly_fine 3600000 None 0) = Inr r" "amount (or_amount r) = 50"
    using charged_result [OF interval_end_never_charged(1)] by blast
  with grace_is_no_discount [OF past] show ?thesis
    by (cases "accrueOverdue athens (fine_input lenient_fine 3600000 None 0)") (auto simp: same)
qed

text \<open>
  A lost item costs the replacement and the processing fee, in one currency: the computation
  is refused exactly when the basis is missing or the two are in different currencies.
\<close>

theorem lost_item_fee_is_exact:
  "(\<exists>e. computeLostItemFee inp = Inl e) \<longleftrightarrow>
     (case lost_item_basis inp of Inl e \<Rightarrow> True
      | Inr b \<Rightarrow> mj_currency b \<noteq> mj_currency (processingFee (lfi_policy inp)))"
  by (rule computeLostItemFee_error_iff)

section \<open>Blocks\<close>


text \<open>
  Only the age restriction is a warning: every other block the evaluation reports stops the
  operation.
\<close>

theorem only_age_is_a_warning: "honest_severity (evaluateBlocks r s op)"
  by (rule honest_evaluateBlocks)

text \<open>
  A renewal limit counted from now never lets go: when the policy measures the earliest
  renewal from the present moment, every renewal is too early, whenever it is asked for.
\<close>

theorem renewal_from_now_is_always_too_early:
  assumes "noRenewalBefore loan = Some d" "noRenewalBeforeRelativeTo loan = Now" "0 < durationMs d"
  shows "\<forall>due now. renewalTooEarly loan due now \<noteq> None"
  using renewalTooEarly_now [OF assms] by blast

theorem renewal_from_now_is_always_too_early_witness:
  "renewalTooEarly (base_loan\<lparr>noRenewalBefore := Some \<lparr>dur_value = 3, dur_unit = Days\<rparr>, noRenewalBeforeRelativeTo := Now\<rparr>)
     0 1000000000000 \<noteq> None"
  using renewal_from_now_is_always_too_early
      [of "base_loan\<lparr>noRenewalBefore := Some \<lparr>dur_value = 3, dur_unit = Days\<rparr>, noRenewalBeforeRelativeTo := Now\<rparr>"
        "\<lparr>dur_value = 3, dur_unit = Days\<rparr>"]
  by (simp add: durationMs_def)

section \<open>Frozen policies\<close>

text \<open>
  C36. A policy frozen on a loan is read back as it was written, and the reader of holds refuses
  it; a policy frozen on a hold likewise, the other way round.
\<close>

theorem frozen_policies_read_back:
  assumes "pin_timezone place \<noteq> []"
  shows "readPinnedPolicy i (store_policy (pinPolicy r place rolls)) = Inr (store_policy (pinPolicy r place rolls)) \<and>
    readPinnedHoldPolicy i (store_policy (pinPolicy r place rolls)) = Inl (PinnedHoldSnapshotError i (MissingPolicy ''hold'')) \<and>
    readPinnedHoldPolicy i (store_hold (pinHoldPolicy r place bs rolls')) = Inr (store_hold (pinHoldPolicy r place bs rolls')) \<and>
    readPinnedPolicy i (store_hold (pinHoldPolicy r place bs rolls')) = Inl (PinnedSnapshotError i (MissingPolicy ''loan''))"
  using frozen_loan.read_back [OF pinPolicy_wf [OF assms]] frozen_hold.read_back [OF pinHoldPolicy_wf]
    loan_is_no_hold [OF pinPolicy_wf [OF assms]] hold_is_no_loan [OF pinHoldPolicy_wf]
  by simp

definition main_desk :: pin_place where
  "main_desk = \<lparr>pin_resolvedAt = 0, pin_branchId = ''b'', pin_timezone = ''Europe/Athens'', pin_calendarId = Some ''c'',
     pin_itemTypeId = Some ''book'', pin_patronCategoryId = None\<rparr>"

theorem frozen_policies_read_back_witness:
  "\<forall>r. \<exists>v. readPinnedPolicy ''loan 7'' (store_policy (pinPolicy r main_desk [])) = Inr v"
  using frozen_policies_read_back [of main_desk "''loan 7''" _ "[]"] by (auto simp: main_desk_def)

text \<open>
  C39. The desk that promotes a hold and the check that placed it agree on where a copy may be
  collected, under every policy that moves copies between branches.
\<close>

theorem placement_and_promotion_agree:
  assumes "requestedPickupBranchId state = Some wanted" "transitAllowed hold"
  shows "ok (canCollectAt (question_of hold state wanted)) \<longleftrightarrow> pickupBlock hold state = None"
  using collectable_not_blocked [OF assms(1)] not_blocked_collectable [OF assms(1) _ assms(2)] by blast

definition home_only :: hold_policy where
  "home_only = \<lparr>hp_id = ''hp'', hp_name = ''hold'', holdsAllowed = True, requestTypes = [Hold],
     onShelfHolds = ShelfAllow, itemLevelHolds = LevelAllow, maxHoldsPerRecord = None, maxHoldsTotal = Some 5,
     pickupPolicy = PatronHomeBranch, pickupBranchIds = [], holdShelfExpiry = \<lparr>dur_value = 7, dur_unit = Days\<rparr>,
     shelfExpiryUsesCalendar = True, unfilledRequestExpiry = None, suspensionAllowed = True,
     maxSuspension = None, placementFee = None, notPickedUpFee = None, transitAllowed = True,
     maxTransitDays = None\<rparr>"

theorem placement_and_promotion_agree_witness:
  "\<not> ok (canCollectAt (question_of home_only (nothing_counted\<lparr>requestedPickupBranchId := Some ''b'', patronHomeBranchId := Some ''c''\<rparr>) ''b''))"
  using placement_and_promotion_agree
    [of "nothing_counted\<lparr>requestedPickupBranchId := Some ''b'', patronHomeBranchId := Some ''c''\<rparr>" "''b''" home_only]
  by (simp add: home_only_def pickupBlock_def nothing_counted_def)

text \<open>
  Where copies are not moved, one is moved all the same: \<open>canCollectAt\<close> sends a copy to a
  branch it is not at, against the policy, exactly for the home-branch rule and a reader without a
  home branch, and for the owning-branch rule and a copy whose owning branch is not known.
\<close>

theorem copies_move_against_the_policy:
  "moves_a_copy q \<longleftrightarrow> \<not> transitAllowed (pq_policy q) \<and>
     pq_itemCurrentBranchId q \<noteq> None \<and> pq_itemCurrentBranchId q \<noteq> Some (wantedBranchId q) \<and>
     (pickupPolicy (pq_policy q) = PatronHomeBranch \<and> pq_patronHomeBranchId q = None \<or>
      pickupPolicy (pq_policy q) = OwningBranch \<and> pq_itemOwningBranchId q = None)"
  by (rule moves_a_copy_iff)

text \<open>
  The loan policy's row round trip: the projection of the row that stores a policy is the
  policy, whatever it leaves out, as long as its due time is a time of day.
\<close>

theorem loan_policy_row_round_trip:
  assumes "wf_time (dueTimeOfDay p)"
  shows "projectLoanPolicy (loan_row p) = Inr p"
  by (rule projectLoanPolicy_loan_row [OF assms])

theorem loan_policy_row_round_trip_witness:
  "projectLoanPolicy (loan_row (base_loan\<lparr>dueTimeOfDay := Some \<lparr>tod_hour = 20, tod_minute = 30\<rparr>\<rparr>)) =
     Inr (base_loan\<lparr>dueTimeOfDay := Some \<lparr>tod_hour = 20, tod_minute = 30\<rparr>\<rparr>)"
  by (rule loan_policy_row_round_trip) (simp add: wf_time_def)

end
