(* ===== verification/Ledger.thy ===== *)
theory Ledger
  imports Prelude
begin

text \<open>
  The journal writer (\<open>apps/api/src/fees/ledger.ts\<close>) and the tables it writes: legs, the
  check the service makes of them, the row and statement checks the database makes
  (\<open>migrations-v2/20260916090000_fees_ledger\<close>), and \<open>postJournalWithin\<close> as one step on the
  state of those tables. A step that fails leaves no state, as the transaction rolls back.

  The rows' \<open>uuid\<close>s are arguments: a drawn id that is taken fails the primary key. The ids of
  entry and allocation rows are read by nothing and are left out.
\<close>

section \<open>Accounts, legs and errors\<close>

datatype ledger_account =
    PatronReceivable | PatronCredit | CashOnHand | Bank | CardClearing | FineRevenue
  | ReplacementRevenue | ServiceRevenue | TaxPayable | WaiverExpense | BadDebtExpense
  | CashOverShort | OpeningBalance

datatype ledger_tx_kind =
    TxCharge | TxPayment | TxWaiver | TxWriteOff | TxRefund | TxCancellation | TxReversal
  | TxCashOverShort

definition SUBSIDIARY_ACCOUNTS :: "ledger_account list" where
  "SUBSIDIARY_ACCOUNTS = [PatronReceivable, PatronCredit]"

definition isSubsidiary :: "ledger_account \<Rightarrow> bool" where
  "isSubsidiary account \<longleftrightarrow> account \<in> set SUBSIDIARY_ACCOUNTS"

text \<open>An absent field and a \<open>null\<close> one are both \<open>None\<close>: the sources read them through \<open>??\<close>.\<close>

record leg =
  leg_account :: ledger_account
  leg_accountId :: "string option"
  leg_debit :: "int option"
  leg_credit :: "int option"
  leg_feeId :: "string option"

datatype event_source = Desk | Opac | Sip2 | Ncip | Api | Offline | Kiosk | Migration

record journal_input =
  ji_kind :: ledger_tx_kind
  ji_currency :: string
  ji_branchId :: string
  ji_legs :: "leg list"
  ji_accountId :: "string option"
  ji_drawerSessionId :: "string option"
  ji_paymentMethodId :: "string option"
  ji_reversesTransactionId :: "string option"
  ji_actorUserId :: "string option"
  ji_source :: "event_source option"
  ji_deviceId :: "string option"
  ji_clientChangeId :: "string option"
  ji_note :: "string option"
  ji_now :: int

datatype ledger_code =
    NoLegs | Unbalanced | LegHasBothSides | LegHasNeitherSide | NegativeLeg
  | SubsidiaryWithoutAccount | AccountOnLibraryLeg

text \<open>What an operation of the ledger throws: its own errors, those of the database by the
  violated constraint, and the HTTP exceptions of the services. Messages are left out.\<close>

datatype fault =
    LedgerError ledger_code nat
  | RangeError
  | BadRequest
  | NotFound
  | Conflict
  | CheckViolation string
  | UniqueViolation string
  | PlainError

section \<open>The check of the service\<close>

definition leg_debit_or_0 :: "leg \<Rightarrow> int" where
  "leg_debit_or_0 l = (case leg_debit l of None \<Rightarrow> 0 | Some d \<Rightarrow> d)"

definition leg_credit_or_0 :: "leg \<Rightarrow> int" where
  "leg_credit_or_0 l = (case leg_credit l of None \<Rightarrow> 0 | Some c \<Rightarrow> c)"

definition leg_fault :: "leg \<Rightarrow> ledger_code option" where
  "leg_fault l = (let d = leg_debit_or_0 l; c = leg_credit_or_0 l in
     if d < 0 \<or> c < 0 then Some NegativeLeg
     else if 0 < d \<and> 0 < c then Some LegHasBothSides
     else if d = 0 \<and> c = 0 then Some LegHasNeitherSide
     else if isSubsidiary (leg_account l) \<and> leg_accountId l = None then Some SubsidiaryWithoutAccount
     else if \<not> isSubsidiary (leg_account l) \<and> leg_accountId l \<noteq> None then Some AccountOnLibraryLeg
     else None)"

text \<open>The loop carries the index of the leg, which the error names.\<close>

fun sum_legs :: "nat \<Rightarrow> leg list \<Rightarrow> int \<Rightarrow> int \<Rightarrow> fault + int \<times> int" where
  "sum_legs i [] debits credits = Inr (debits, credits)"
| "sum_legs i (l # ls) debits credits = (case leg_fault l of
     Some e \<Rightarrow> Inl (LedgerError e i)
   | None \<Rightarrow> sum_legs (Suc i) ls (debits + leg_debit_or_0 l) (credits + leg_credit_or_0 l))"

definition assertBalanced :: "leg list \<Rightarrow> fault + int" where
  "assertBalanced legs = (if length legs < 2 then Inl (LedgerError NoLegs (length legs))
     else bind_res (sum_legs 0 legs 0 0) (\<lambda>(debits, credits).
       if debits \<noteq> credits then Inl (LedgerError Unbalanced (length legs)) else Inr debits))"

section \<open>The tables\<close>

record account_transaction =
  tx_id :: string
  tx_kind :: ledger_tx_kind
  tx_currency :: string
  tx_totalCents :: int
  tx_branchId :: string
  tx_accountId :: "string option"
  tx_drawerSessionId :: "string option"
  tx_paymentMethodId :: "string option"
  tx_reversesTransactionId :: "string option"
  tx_actorUserId :: "string option"
  tx_source :: event_source
  tx_deviceId :: "string option"
  tx_clientChangeId :: "string option"
  tx_note :: "string option"
  tx_createdAt :: int

record account_entry =
  ae_transactionId :: string
  ae_account :: ledger_account
  ae_accountId :: "string option"
  ae_currency :: string
  ae_debitCents :: int
  ae_creditCents :: int
  ae_feeId :: "string option"
  ae_createdAt :: int

record journal =
  transactions :: "account_transaction list"
  entries :: "account_entry list"

text \<open>The row checks of \<open>account_entries\<close>, and its statement-level trigger: every
  transaction that got a new entry must balance over all its entries.\<close>

definition entry_row_ok :: "account_entry \<Rightarrow> bool" where
  "entry_row_ok e \<longleftrightarrow> 0 \<le> ae_debitCents e \<and> 0 \<le> ae_creditCents e \<and>
     (0 < ae_debitCents e) \<noteq> (0 < ae_creditCents e) \<and>
     (ae_account e \<in> {PatronReceivable, PatronCredit}) = (ae_accountId e \<noteq> None)"

definition debits_of :: "account_entry list \<Rightarrow> int" where
  "debits_of es = sum_list (map ae_debitCents es)"

definition credits_of :: "account_entry list \<Rightarrow> int" where
  "credits_of es = sum_list (map ae_creditCents es)"

definition entries_of :: "string \<Rightarrow> account_entry list \<Rightarrow> account_entry list" where
  "entries_of t es = filter (\<lambda>e. ae_transactionId e = t) es"

definition transaction_ok :: "account_entry list \<Rightarrow> account_transaction \<Rightarrow> bool" where
  "transaction_ok es t \<longleftrightarrow> (let own = entries_of (tx_id t) es in
     debits_of own = credits_of own \<and> 2 \<le> length own \<and>
     card (ae_currency ` set own) = 1 \<and> debits_of own = tx_totalCents t)"

definition lbr2_account_entries_balance :: "account_transaction list \<Rightarrow> account_entry list \<Rightarrow>
    account_entry list \<Rightarrow> bool" where
  "lbr2_account_entries_balance ts es new_entries \<longleftrightarrow>
     list_all (\<lambda>t. tx_id t \<in> ae_transactionId ` set new_entries \<longrightarrow> transaction_ok es t) ts"

section \<open>Posting\<close>

definition header_row :: "string \<Rightarrow> journal_input \<Rightarrow> int \<Rightarrow> account_transaction" where
  "header_row i input totalCents = \<lparr>tx_id = i, tx_kind = ji_kind input, tx_currency = ji_currency input,
     tx_totalCents = totalCents, tx_branchId = ji_branchId input, tx_accountId = ji_accountId input,
     tx_drawerSessionId = ji_drawerSessionId input, tx_paymentMethodId = ji_paymentMethodId input,
     tx_reversesTransactionId = ji_reversesTransactionId input, tx_actorUserId = ji_actorUserId input,
     tx_source = (case ji_source input of None \<Rightarrow> Desk | Some s \<Rightarrow> s), tx_deviceId = ji_deviceId input,
     tx_clientChangeId = ji_clientChangeId input, tx_note = ji_note input, tx_createdAt = ji_now input\<rparr>"

definition entry_row :: "string \<Rightarrow> journal_input \<Rightarrow> leg \<Rightarrow> account_entry" where
  "entry_row i input l = \<lparr>ae_transactionId = i, ae_account = leg_account l, ae_accountId = leg_accountId l,
     ae_currency = ji_currency input, ae_debitCents = leg_debit_or_0 l, ae_creditCents = leg_credit_or_0 l,
     ae_feeId = leg_feeId l, ae_createdAt = ji_now input\<rparr>"

text \<open>The constraints of \<open>account_transactions\<close> an insert meets, in the order of the table.\<close>

definition insert_transaction :: "account_transaction \<Rightarrow> journal \<Rightarrow> fault + journal" where
  "insert_transaction t db =
     (if tx_totalCents t < 0 then Inl (CheckViolation ''account_transactions_total_not_negative'')
      else if (tx_reversesTransactionId t \<noteq> None) \<noteq> (tx_kind t = TxReversal)
        then Inl (CheckViolation ''account_transactions_reverses_iff_reversal'')
      else if tx_reversesTransactionId t = Some (tx_id t)
        then Inl (CheckViolation ''account_transactions_no_self_reversal'')
      else if list_ex (\<lambda>u. tx_id u = tx_id t) (transactions db) then Inl (UniqueViolation ''account_transactions_pkey'')
      else if tx_reversesTransactionId t \<noteq> None \<and>
          list_ex (\<lambda>u. tx_reversesTransactionId u = tx_reversesTransactionId t) (transactions db)
        then Inl (UniqueViolation ''account_transactions_one_reversal_per_original'')
      else if tx_clientChangeId t \<noteq> None \<and>
          list_ex (\<lambda>u. tx_clientChangeId u = tx_clientChangeId t) (transactions db)
        then Inl (UniqueViolation ''account_transactions_client_change_unique'')
      else Inr (db\<lparr>transactions := transactions db @ [t]\<rparr>))"

definition insert_entries :: "account_entry list \<Rightarrow> journal \<Rightarrow> fault + journal" where
  "insert_entries new_entries db =
     (let es = entries db @ new_entries in
      if \<not> list_all entry_row_ok new_entries then Inl (CheckViolation ''account_entries'')
      else if \<not> lbr2_account_entries_balance (transactions db) es new_entries
        then Inl (CheckViolation ''account_entries_balance'')
      else Inr (db\<lparr>entries := es\<rparr>))"

definition postJournalWithin :: "string \<Rightarrow> journal_input \<Rightarrow> journal \<Rightarrow> fault + journal \<times> int" where
  "postJournalWithin i input db = bind_res (assertBalanced (ji_legs input)) (\<lambda>totalCents.
     bind_res (insert_transaction (header_row i input totalCents) db) (\<lambda>db1.
     bind_res (insert_entries (map (entry_row i input) (ji_legs input)) db1) (\<lambda>db2.
     Inr (db2, totalCents))))"

section \<open>What the check decides\<close>

definition leg_ok :: "leg \<Rightarrow> bool" where
  "leg_ok l \<longleftrightarrow> leg_fault l = None"

definition leg_debits :: "leg list \<Rightarrow> int" where
  "leg_debits ls = sum_list (map leg_debit_or_0 ls)"

definition leg_credits :: "leg list \<Rightarrow> int" where
  "leg_credits ls = sum_list (map leg_credit_or_0 ls)"

lemma leg_sums_simps [simp]:
  "leg_debits [] = 0" "leg_debits (l # ls) = leg_debit_or_0 l + leg_debits ls"
  "leg_credits [] = 0" "leg_credits (l # ls) = leg_credit_or_0 l + leg_credits ls"
  "leg_debits (ls @ ms) = leg_debits ls + leg_debits ms"
  "leg_credits (ls @ ms) = leg_credits ls + leg_credits ms"
  by (simp_all add: leg_debits_def leg_credits_def)

lemma entry_sums_simps [simp]:
  "debits_of [] = 0" "debits_of (e # es) = ae_debitCents e + debits_of es"
  "credits_of [] = 0" "credits_of (e # es) = ae_creditCents e + credits_of es"
  "debits_of (es @ fs) = debits_of es + debits_of fs"
  "credits_of (es @ fs) = credits_of es + credits_of fs"
  by (simp_all add: debits_of_def credits_of_def)

lemma sum_legs_Inr_iff:
  "sum_legs i ls d c = Inr r \<longleftrightarrow> (\<forall>l \<in> set ls. leg_ok l) \<and> r = (d + leg_debits ls, c + leg_credits ls)"
  by (induction ls arbitrary: i d c) (auto simp: leg_ok_def add.assoc split: option.splits)

lemma assertBalanced_Inr_iff:
  "assertBalanced ls = Inr n \<longleftrightarrow>
     2 \<le> length ls \<and> (\<forall>l \<in> set ls. leg_ok l) \<and> leg_debits ls = n \<and> leg_credits ls = n"
  by (auto simp: assertBalanced_def bind_res_Inr_iff sum_legs_Inr_iff split: if_splits)

lemma ex_nat_Suc: "(\<exists>k. P k) \<longleftrightarrow> P 0 \<or> (\<exists>k. P (Suc k))"
  by (metis not0_implies_Suc)

text \<open>The error names the first leg at fault, and what is wrong with it.\<close>

lemma sum_legs_Inl_iff:
  "sum_legs i ls d c = Inl e \<longleftrightarrow>
     (\<exists>k x. k < length ls \<and> leg_fault (ls ! k) = Some x \<and> (\<forall>j < k. leg_ok (ls ! j)) \<and> e = LedgerError x (i + k))"
proof (induction ls arbitrary: i d c)
  case (Cons l ls)
  show ?case
    by (subst ex_nat_Suc, cases "leg_fault l") (auto simp: Cons.IH All_less_Suc2 leg_ok_def)
qed simp

lemma assertBalanced_leg_fault:
  assumes "2 \<le> length ls" "k < length ls" "leg_fault (ls ! k) = Some x" "\<forall>j < k. leg_ok (ls ! j)"
  shows "assertBalanced ls = Inl (LedgerError x k)"
proof -
  have "sum_legs 0 ls 0 0 = Inl (LedgerError x k)" using assms by (auto simp: sum_legs_Inl_iff)
  then show ?thesis using assms(1) by (simp add: assertBalanced_def)
qed

section \<open>The service and the database refuse the same journals\<close>

lemma entry_row_simps [simp]:
  "ae_transactionId (entry_row i input l) = i" "ae_account (entry_row i input l) = leg_account l"
  "ae_accountId (entry_row i input l) = leg_accountId l" "ae_currency (entry_row i input l) = ji_currency input"
  "ae_debitCents (entry_row i input l) = leg_debit_or_0 l" "ae_creditCents (entry_row i input l) = leg_credit_or_0 l"
  "ae_feeId (entry_row i input l) = leg_feeId l"
  by (simp_all add: entry_row_def)

lemma header_row_simps [simp]:
  "tx_id (header_row i input n) = i" "tx_totalCents (header_row i input n) = n"
  "tx_kind (header_row i input n) = ji_kind input"
  "tx_reversesTransactionId (header_row i input n) = ji_reversesTransactionId input"
  "tx_clientChangeId (header_row i input n) = ji_clientChangeId input"
  "tx_currency (header_row i input n) = ji_currency input"
  "tx_drawerSessionId (header_row i input n) = ji_drawerSessionId input"
  by (simp_all add: header_row_def)

lemma isSubsidiary_iff: "isSubsidiary a \<longleftrightarrow> a \<in> {PatronReceivable, PatronCredit}"
  by (simp add: isSubsidiary_def SUBSIDIARY_ACCOUNTS_def)

lemma entry_row_ok_iff: "entry_row_ok (entry_row i input l) \<longleftrightarrow> leg_ok l"
  by (auto simp: entry_row_ok_def leg_ok_def leg_fault_def Let_def isSubsidiary_iff split: if_splits)

lemma debits_entry_rows [simp]:
  "debits_of (map (entry_row i input) ls) = leg_debits ls"
  "credits_of (map (entry_row i input) ls) = leg_credits ls"
  by (induction ls) simp_all

lemma entries_of_append: "entries_of t (es @ fs) = entries_of t es @ entries_of t fs"
  by (simp add: entries_of_def)

lemma entries_of_rows [simp]:
  "entries_of t (map (entry_row i input) ls) = (if t = i then map (entry_row i input) ls else [])"
  by (induction ls) (auto simp: entries_of_def)

lemma entry_rows_image:
  assumes "ls \<noteq> []"
  shows "ae_transactionId ` set (map (entry_row i input) ls) = {i}"
    and "ae_currency ` set (map (entry_row i input) ls) = {ji_currency input}"
  using assms by (auto simp: image_image image_constant_conv)

lemma entries_of_fresh: "i \<notin> ae_transactionId ` set es \<Longrightarrow> entries_of i es = []"
  by (auto simp: entries_of_def filter_empty_conv)

definition header_accepted :: "account_transaction \<Rightarrow> journal \<Rightarrow> bool" where
  "header_accepted t db \<longleftrightarrow> (tx_reversesTransactionId t \<noteq> None) = (tx_kind t = TxReversal) \<and>
     tx_reversesTransactionId t \<noteq> Some (tx_id t) \<and> (\<forall>u \<in> set (transactions db). tx_id u \<noteq> tx_id t \<and>
       (tx_reversesTransactionId t \<noteq> None \<longrightarrow> tx_reversesTransactionId u \<noteq> tx_reversesTransactionId t) \<and>
       (tx_clientChangeId t \<noteq> None \<longrightarrow> tx_clientChangeId u \<noteq> tx_clientChangeId t))"

lemma insert_transaction_Inr_iff:
  "insert_transaction t db = Inr db' \<longleftrightarrow>
     0 \<le> tx_totalCents t \<and> header_accepted t db \<and> db' = db\<lparr>transactions := transactions db @ [t]\<rparr>"
  by (auto simp: insert_transaction_def header_accepted_def list_ex_iff)

definition journal_rows_known :: "journal \<Rightarrow> bool" where
  "journal_rows_known db \<longleftrightarrow> distinct (map tx_id (transactions db)) \<and>
     ae_transactionId ` set (entries db) \<subseteq> tx_id ` set (transactions db)"

lemma leg_ok_nonneg: "leg_ok l \<Longrightarrow> 0 \<le> leg_debit_or_0 l \<and> 0 \<le> leg_credit_or_0 l"
  by (auto simp: leg_ok_def leg_fault_def Let_def split: if_splits)

lemma leg_debits_nonneg: "\<forall>l \<in> set ls. leg_ok l \<Longrightarrow> 0 \<le> leg_debits ls"
  by (induction ls) (auto dest: leg_ok_nonneg)

lemma trigger_fresh:
  assumes "journal_rows_known db" "i \<notin> tx_id ` set (transactions db)" "ls \<noteq> []" "tx_id t = i"
  shows "lbr2_account_entries_balance (transactions db @ [t]) (entries db @ map (entry_row i input) ls)
      (map (entry_row i input) ls) \<longleftrightarrow>
    leg_debits ls = leg_credits ls \<and> 2 \<le> length ls \<and> leg_debits ls = tx_totalCents t"
proof -
  have none: "entries_of i (entries db) = []"
    using assms(1,2) by (auto intro!: entries_of_fresh simp: journal_rows_known_def)
  have new: "ae_transactionId ` set (map (entry_row i input) ls) = {i}"
    and currencies: "ae_currency ` set (map (entry_row i input) ls) = {ji_currency input}"
    by (simp_all only: entry_rows_image [OF assms(3)])
  have old: "tx_id u \<noteq> i" if "u \<in> set (transactions db)" for u using assms(2) that by auto
  have "lbr2_account_entries_balance (transactions db @ [t]) (entries db @ map (entry_row i input) ls)
      (map (entry_row i input) ls) \<longleftrightarrow> transaction_ok (entries db @ map (entry_row i input) ls) t"
    unfolding lbr2_account_entries_balance_def list_all_iff new using old assms(4) by auto
  then show ?thesis
    unfolding transaction_ok_def Let_def assms(4) entries_of_append none
    by (simp add: currencies del: set_map)
qed

lemma assertBalanced_iff_database:
  assumes "journal_rows_known db" "header_accepted (header_row i input n) db" "ls \<noteq> []"
  shows "assertBalanced ls = Inr n \<longleftrightarrow>
    (\<exists>db1 db2. insert_transaction (header_row i input n) db = Inr db1 \<and>
       insert_entries (map (entry_row i input) ls) db1 = Inr db2)"
proof -
  have fresh: "i \<notin> tx_id ` set (transactions db)" using assms(2) by (auto simp: header_accepted_def)
  have rows: "list_all entry_row_ok (map (entry_row i input) ls) \<longleftrightarrow> (\<forall>l \<in> set ls. leg_ok l)"
    by (auto simp: list_all_iff entry_row_ok_iff)
  show ?thesis
    using assms(2) leg_debits_nonneg [of ls]
    by (auto simp: assertBalanced_Inr_iff insert_transaction_Inr_iff insert_entries_def rows Let_def
        trigger_fresh [OF assms(1) fresh assms(3)])
qed

section \<open>Posting keeps the journal balanced\<close>

definition posted :: "string \<Rightarrow> journal_input \<Rightarrow> int \<Rightarrow> journal \<Rightarrow> journal" where
  "posted i input n db = \<lparr>transactions = transactions db @ [header_row i input n],
     entries = entries db @ map (entry_row i input) (ji_legs input)\<rparr>"

lemma posted_simps [simp]:
  "transactions (posted i input n db) = transactions db @ [header_row i input n]"
  "entries (posted i input n db) = entries db @ map (entry_row i input) (ji_legs input)"
  by (simp_all add: posted_def)

lemma postJournalWithin_Inr_iff:
  assumes "journal_rows_known db"
  shows "postJournalWithin i input db = Inr (db', n) \<longleftrightarrow>
    assertBalanced (ji_legs input) = Inr n \<and> header_accepted (header_row i input n) db \<and> db' = posted i input n db"
    (is "?l \<longleftrightarrow> ?r")
proof (cases "assertBalanced (ji_legs input) = Inr n")
  case False
  then show ?thesis by (auto simp: postJournalWithin_def bind_res_Inr_iff)
next
  case True
  then have legs: "ji_legs input \<noteq> []" "0 \<le> n"
    using leg_debits_nonneg by (auto simp: assertBalanced_Inr_iff)
  show ?thesis
  proof (cases "header_accepted (header_row i input n) db")
    case False
    then show ?thesis by (auto simp: postJournalWithin_def bind_res_Inr_iff insert_transaction_Inr_iff True)
  next
    case acc: True
    with True assertBalanced_iff_database [OF assms acc legs(1)] obtain db2 where
      "insert_entries (map (entry_row i input) (ji_legs input))
         (db\<lparr>transactions := transactions db @ [header_row i input n]\<rparr>) = Inr db2"
      by (auto simp: insert_transaction_Inr_iff)
    moreover from this have "db2 = posted i input n db"
      by (auto simp: insert_entries_def Let_def posted_def split: if_splits)
    ultimately show ?thesis
      using True acc legs(2) by (auto simp: postJournalWithin_def insert_transaction_Inr_iff bind_res_Inr_iff)
  qed
qed

definition balanced_journal :: "journal \<Rightarrow> bool" where
  "balanced_journal db \<longleftrightarrow> journal_rows_known db \<and> list_all (transaction_ok (entries db)) (transactions db)"

lemma transaction_ok_posted_other:
  "tx_id t \<noteq> i \<Longrightarrow> transaction_ok (es @ map (entry_row i input) ls) t \<longleftrightarrow> transaction_ok es t"
  by (simp add: transaction_ok_def Let_def entries_of_append)

lemma postJournalWithin_balanced:
  assumes "balanced_journal db" "postJournalWithin i input db = Inr (db', n)"
  shows "balanced_journal db'"
proof -
  have known: "journal_rows_known db" using assms(1) by (simp add: balanced_journal_def)
  from assms(2) have p: "assertBalanced (ji_legs input) = Inr n" "header_accepted (header_row i input n) db"
    "db' = posted i input n db"
    by (simp_all add: postJournalWithin_Inr_iff [OF known])
  have fresh: "i \<notin> tx_id ` set (transactions db)" using p(2) by (auto simp: header_accepted_def)
  have "entries_of i (entries db) = []"
    using known fresh by (auto intro!: entries_of_fresh simp: journal_rows_known_def)
  moreover have "ae_currency ` set (map (entry_row i input) (ji_legs input)) = {ji_currency input}"
    by (rule entry_rows_image) (use p(1) in \<open>auto simp: assertBalanced_Inr_iff\<close>)
  ultimately have "transaction_ok (entries db') (header_row i input n)"
    using p(1) unfolding p(3) transaction_ok_def Let_def
    by (simp add: entries_of_append assertBalanced_Inr_iff del: set_map)
  moreover have "transaction_ok (entries db') t" if "t \<in> set (transactions db)" for t
    using that fresh assms(1) unfolding p(3) posted_simps
    by (subst transaction_ok_posted_other) (auto simp: balanced_journal_def list_all_iff)
  ultimately show ?thesis
    using known fresh by (auto simp: balanced_journal_def journal_rows_known_def list_all_iff p(3))
qed

end
