(* ===== verification/Settlement.thy ===== *)
theory Settlement
  imports Ledger
begin

text \<open>
  How one sum is spread over several charges (\<open>apps/api/src/fees/fee-settlement.ts\<close>):
  \<open>planSettlement\<close>, oldest charge first, and its mirror \<open>planRefund\<close>. Both loops are compared
  with the share every charge is entitled to, stated without a loop.
\<close>

record settle_target =
  st_feeId :: string
  st_cents :: int

record allocation =
  al_feeId :: string
  al_amountCents :: int

record settlement_plan =
  allocations :: "allocation list"
  appliedCents :: int
  unappliedCents :: int

fun settle_loop :: "settle_target list \<Rightarrow> int \<Rightarrow> allocation list \<times> int" where
  "settle_loop [] remaining = ([], remaining)"
| "settle_loop (t # ts) remaining =
     (if remaining = 0 then ([], remaining)
      else if st_cents t \<le> 0 then settle_loop ts remaining
      else let n = (if st_cents t < remaining then st_cents t else remaining);
               (as, left) = settle_loop ts (remaining - n)
           in (\<lparr>al_feeId = st_feeId t, al_amountCents = n\<rparr> # as, left))"

definition planSettlement :: "int \<Rightarrow> settle_target list \<Rightarrow> fault + settlement_plan" where
  "planSettlement amountCents targets =
     (if amountCents \<le> 0 then Inl RangeError
      else let (as, remaining) = settle_loop targets amountCents
        in Inr \<lparr>allocations = as, appliedCents = amountCents - remaining, unappliedCents = remaining\<rparr>)"

definition refundable :: "settle_target list \<Rightarrow> int" where
  "refundable targets = foldl (\<lambda>sum t. sum + (if 0 < st_cents t then st_cents t else 0)) 0 targets"

fun refund_loop :: "settle_target list \<Rightarrow> int \<Rightarrow> allocation list" where
  "refund_loop [] remaining = []"
| "refund_loop (t # ts) remaining =
     (if remaining = 0 then []
      else if st_cents t \<le> 0 then refund_loop ts remaining
      else let n = (if st_cents t < remaining then st_cents t else remaining)
           in \<lparr>al_feeId = st_feeId t, al_amountCents = - n\<rparr> # refund_loop ts (remaining - n))"

definition planRefund :: "int \<Rightarrow> settle_target list \<Rightarrow> fault + settlement_plan" where
  "planRefund amountCents targets =
     (if amountCents \<le> 0 then Inl RangeError
      else if refundable targets < amountCents then Inl RangeError
      else Inr \<lparr>allocations = refund_loop (rev targets) amountCents, appliedCents = amountCents,
        unappliedCents = 0\<rparr>)"

section \<open>What the loop hands out\<close>

definition allocated :: "allocation list \<Rightarrow> int" where
  "allocated as = sum_list (map al_amountCents as)"

definition allocated_to :: "string \<Rightarrow> allocation list \<Rightarrow> int" where
  "allocated_to i as = allocated (filter (\<lambda>a. al_feeId a = i) as)"

lemma allocated_simps [simp]:
  "allocated [] = 0" "allocated (a # as) = al_amountCents a + allocated as"
  "allocated (as @ bs) = allocated as + allocated bs"
  by (simp_all add: allocated_def)

lemma allocated_to_simps [simp]:
  "allocated_to i [] = 0"
  "allocated_to i (a # as) = (if al_feeId a = i then al_amountCents a else 0) + allocated_to i as"
  "allocated_to i (as @ bs) = allocated_to i as + allocated_to i bs"
  by (simp_all add: allocated_to_def)

lemma allocated_to_absent: "i \<notin> al_feeId ` set as \<Longrightarrow> allocated_to i as = 0"
  by (induction as) auto

definition claim_of :: "settle_target \<Rightarrow> int" where
  "claim_of t = max 0 (st_cents t)"

definition claims :: "settle_target list \<Rightarrow> int" where
  "claims ts = sum_list (map claim_of ts)"

lemma claims_simps [simp]: "claims [] = 0" "claims (t # ts) = claim_of t + claims ts"
    "claims (ts @ us) = claims ts + claims us"
  by (simp_all add: claims_def)

lemma claim_of_nonneg [simp]: "0 \<le> claim_of t"
  by (simp add: claim_of_def)

lemma claims_nonneg [simp]: "0 \<le> claims ts"
  by (induction ts) simp_all

lemma claims_rev [simp]: "claims (rev ts) = claims ts"
  by (simp add: claims_def rev_map [symmetric])

lemma refundable_claims: "refundable ts = claims ts"
proof -
  have "foldl (\<lambda>sum t. sum + (if 0 < st_cents t then st_cents t else 0)) s ts = s + claims ts" for s
    by (induction ts arbitrary: s) (auto simp: claim_of_def)
  then show ?thesis by (simp add: refundable_def)
qed

text \<open>The share of the charge after \<open>before\<close>: as much of it as the money left by them covers.\<close>

definition share :: "int \<Rightarrow> settle_target list \<Rightarrow> settle_target \<Rightarrow> int" where
  "share n before t = min (claim_of t) (max 0 (n - claims before))"

fun shares :: "int \<Rightarrow> settle_target list \<Rightarrow> settle_target list \<Rightarrow> allocation list" where
  "shares n before [] = []"
| "shares n before (t # ts) =
     (if 0 < share n before t then [\<lparr>al_feeId = st_feeId t, al_amountCents = share n before t\<rparr>] else [])
       @ shares n (before @ [t]) ts"

lemma shares_spent: "n \<le> claims before \<Longrightarrow> shares n before ts = []"
proof (induction ts arbitrary: before)
  case (Cons t ts)
  then have "n \<le> claims (before @ [t])" using claim_of_nonneg [of t] by (simp del: claim_of_nonneg)
  then show ?case using Cons by (simp add: share_def)
qed simp

lemma settle_loop_shares:
  "claims before \<le> n \<Longrightarrow> settle_loop ts (n - claims before) =
     (shares n before ts, max 0 (n - claims before - claims ts))"
proof (induction ts arbitrary: before)
  case (Cons t ts)
  let ?r = "n - claims before"
  consider "?r = 0" | "?r \<noteq> 0" "st_cents t \<le> 0" | "?r \<noteq> 0" "0 < st_cents t" "st_cents t < ?r"
    | "?r \<noteq> 0" "0 < st_cents t" "?r \<le> st_cents t" by linarith
  then show ?case
  proof cases
    case 1
    moreover have "n \<le> claims (before @ [t])" using 1 by simp
    moreover have "max 0 (- claim_of t - claims ts) = 0"
      using claim_of_nonneg [of t] claims_nonneg [of ts] by (simp del: claim_of_nonneg claims_nonneg)
    ultimately show ?thesis using Cons.prems
      by (simp add: shares_spent share_def)
  next
    case 2
    with Cons.prems Cons.IH [of "before @ [t]"] show ?thesis by (simp add: share_def claim_of_def)
  next
    case 3
    with Cons.prems Cons.IH [of "before @ [t]"] show ?thesis
      by (simp add: share_def claim_of_def Let_def algebra_simps)
  next
    case 4
    then have "n \<le> claims (before @ [t])" "share n before t = ?r"
      using Cons.prems by (simp_all add: share_def claim_of_def)
    moreover have "settle_loop ts 0 = ([], 0)" by (cases ts) simp_all
    ultimately show ?thesis using 4 Cons.prems claims_nonneg [of ts]
      by (auto simp: Let_def shares_spent claim_of_def max_def simp del: claims_nonneg)
  qed
qed simp

lemma planSettlement_Inr_iff:
  "planSettlement n ts = Inr p \<longleftrightarrow> 0 < n \<and> p = \<lparr>allocations = shares n [] ts,
     appliedCents = n - max 0 (n - claims ts), unappliedCents = max 0 (n - claims ts)\<rparr>"
  using settle_loop_shares [of "[]" n ts] by (auto simp: planSettlement_def)

lemma refund_loop_settle: "refund_loop ts n =
    map (\<lambda>a. a\<lparr>al_amountCents := - al_amountCents a\<rparr>) (fst (settle_loop ts n))"
  by (induction ts n rule: refund_loop.induct) (auto simp: Let_def split: prod.split)

lemma planRefund_Inr_iff:
  "planRefund n ts = Inr p \<longleftrightarrow> 0 < n \<and> n \<le> claims ts \<and>
     p = \<lparr>allocations = map (\<lambda>a. a\<lparr>al_amountCents := - al_amountCents a\<rparr>) (shares n [] (rev ts)),
       appliedCents = n, unappliedCents = 0\<rparr>"
  using settle_loop_shares [of "[]" n "rev ts"]
  by (auto simp: planRefund_def refundable_claims refund_loop_settle)

lemma share_bounds: "0 \<le> share n before t" "share n before t \<le> claim_of t"
  by (simp_all add: share_def)

lemma allocated_shares: "claims before \<le> n \<Longrightarrow> allocated (shares n before ts) = min (claims ts) (n - claims before)"
proof (induction ts arbitrary: before)
  case (Cons t ts)
  show ?case
  proof (cases "claims (before @ [t]) \<le> n")
    case True
    then have "share n before t = claim_of t" by (simp add: share_def)
    then show ?thesis using Cons.IH [OF True] claim_of_nonneg [of t]
      by (auto simp: min_def simp del: claim_of_nonneg)
  next
    case False
    then have "share n before t = n - claims before" "shares n (before @ [t]) ts = []"
      using Cons.prems by (simp_all add: share_def shares_spent)
    then show ?thesis using False Cons.prems claims_nonneg [of ts] by (auto simp: min_def simp del: claims_nonneg)
  qed
qed simp

lemma shares_positive: "a \<in> set (shares n before ts) \<Longrightarrow> 0 < al_amountCents a"
  by (induction ts arbitrary: before) (auto split: if_splits)

lemma shares_target:
  "a \<in> set (shares n before ts) \<Longrightarrow> \<exists>t \<in> set ts. al_feeId a = st_feeId t \<and> al_amountCents a \<le> claim_of t"
  by (induction ts arbitrary: before) (auto simp: share_bounds split: if_splits)

lemma shares_ids: "al_feeId ` set (shares n before ts) \<subseteq> st_feeId ` set ts"
  using shares_target by fast

lemma allocated_to_shares:
  "distinct (map st_feeId ts) \<Longrightarrow> t \<in> set ts \<Longrightarrow> allocated_to (st_feeId t) (shares n before ts) \<le> claim_of t"
proof (induction ts arbitrary: before)
  case (Cons u ts)
  have absent: "allocated_to (st_feeId u) (shares n (before @ [u]) ts) = 0"
    by (rule allocated_to_absent) (use Cons.prems shares_ids [of n "before @ [u]" ts] in auto)
  show ?case
  proof (cases "t = u")
    case True
    then show ?thesis by (simp add: absent share_bounds)
  next
    case False
    then have t: "t \<in> set ts" using Cons.prems by simp
    moreover have "st_feeId t \<noteq> st_feeId u" using Cons.prems t by (auto simp: image_iff)
    ultimately have "t \<in> set ts" "st_feeId t \<noteq> st_feeId u" by simp_all
    then show ?thesis using Cons.IH [of "before @ [u]"] Cons.prems by simp
  qed
qed simp

lemma allocated_to_shares_nonneg: "0 \<le> allocated_to i (shares n before ts)"
  by (induction ts arbitrary: before) auto

lemma shares_distinct: "distinct (map st_feeId ts) \<Longrightarrow> distinct (map al_feeId (shares n before ts))"
proof (induction ts arbitrary: before)
  case (Cons u ts)
  then show ?case using shares_ids [of n "before @ [u]" ts] by (fastforce simp: image_iff)
qed simp

end
