(* ===== verification/Fee_Service.thy ===== *)
theory Fee_Service
  imports Settlement
begin

text \<open>
  What a borrower owes and what happened to it (\<open>apps/api/src/fees/fees.service.ts\<close>): charging,
  settling by payment, waiver or write-off, and refunding, as steps on the tables they write.
  \<open>owed_cents\<close> is the generated column of \<open>migrations-v2/20260917090000_upgrade_surface\<close>. Each
  operation runs under the patron's lock in one transaction, so it is one step here. Foreign
  keys are not modelled: the rows an operation names are read or written by it first.
\<close>

section \<open>The tables\<close>

datatype fee_status = Outstanding | Paid | Waived | WrittenOff | Cancelled

record fee =
  fee_id :: string
  fee_accountId :: string
  fee_patronId :: string
  fee_typeId :: string
  fee_currency :: string
  fee_loanId :: "string option"
  fee_itemId :: "string option"
  fee_holdId :: "string option"
  fee_branchId :: string
  amount_cents :: int
  tax_cents :: int
  paid_cents :: int
  waived_cents :: int
  written_off_cents :: int
  fee_status :: fee_status
  is_accruing :: bool
  accrued_through :: "int option"
  fee_reason :: string
  created_at :: int
  closed_at :: "int option"
  archived_at :: "int option"

record patron_account =
  pa_id :: string
  pa_patronId :: string
  pa_currency :: string
  pa_openedAt :: int

datatype allocation_kind = AllocPayment | AllocWaiver | AllocWriteOff | AllocRefund

record fee_allocation =
  fa_transactionId :: string
  fa_feeId :: string
  fa_kind :: allocation_kind
  fa_currency :: string
  fa_amountCents :: int
  fa_createdAt :: int

record fee_type =
  ft_id :: string
  ft_revenueAccount :: ledger_account
  ft_archivedAt :: "int option"

record payment_method =
  pm_settlementAccount :: ledger_account
  pm_archivedAt :: "int option"

record service_point =
  sp_id :: string
  sp_branchId :: string
  sp_archivedAt :: "int option"

record cash_drawer_session =
  cd_id :: string
  cd_servicePointId :: string
  cd_branchId :: string
  cd_currency :: string
  cd_openedAt :: int
  cd_openingFloatCents :: int
  cd_closedAt :: "int option"
  cd_countedCents :: "int option"
  cd_expectedCents :: "int option"
  cd_varianceCents :: "int option"

record books =
  bk_journal :: journal
  bk_accounts :: "patron_account list"
  bk_fees :: "fee list"
  bk_allocations :: "fee_allocation list"
  bk_feeTypes :: "string \<rightharpoonup> fee_type"
  bk_paymentMethods :: "string \<rightharpoonup> payment_method"
  bk_servicePoints :: "string \<rightharpoonup> service_point"
  bk_drawers :: "cash_drawer_session list"

definition charged :: "fee \<Rightarrow> int" where
  "charged f = amount_cents f + tax_cents f"

definition settled :: "fee \<Rightarrow> int" where
  "settled f = paid_cents f + waived_cents f + written_off_cents f"

definition owed_cents :: "fee \<Rightarrow> int" where
  "owed_cents f = (if closed_at f = None \<and> archived_at f = None
     then amount_cents f + tax_cents f - paid_cents f - waived_cents f - written_off_cents f else 0)"

definition fee_row_ok :: "fee \<Rightarrow> bool" where
  "fee_row_ok f \<longleftrightarrow> 0 < amount_cents f \<and> 0 \<le> tax_cents f \<and>
     paid_cents f + waived_cents f + written_off_cents f \<le> amount_cents f + tax_cents f"

section \<open>Accounts and journals\<close>

definition accountForWithin :: "string \<Rightarrow> string \<Rightarrow> string \<Rightarrow> int \<Rightarrow> books \<Rightarrow> fault + books \<times> string" where
  "accountForWithin uuid patronId currency now db =
     (case find (\<lambda>a. pa_patronId a = patronId \<and> pa_currency a = currency) (bk_accounts db) of
        Some a \<Rightarrow> Inr (db, pa_id a)
      | None \<Rightarrow> if list_ex (\<lambda>a. pa_id a = uuid) (bk_accounts db) then Inl (UniqueViolation ''patron_accounts_pkey'')
          else Inr (db\<lparr>bk_accounts := bk_accounts db @ [\<lparr>pa_id = uuid, pa_patronId = patronId,
            pa_currency = currency, pa_openedAt = now\<rparr>]\<rparr>, uuid))"

definition post :: "string \<Rightarrow> journal_input \<Rightarrow> books \<Rightarrow> fault + books" where
  "post uuid input db = bind_res (postJournalWithin uuid input (bk_journal db)) (\<lambda>(j, n).
     Inr (db\<lparr>bk_journal := j\<rparr>))"

definition plain_journal :: "ledger_tx_kind \<Rightarrow> string \<Rightarrow> string \<Rightarrow> string option \<Rightarrow> leg list \<Rightarrow> int \<Rightarrow> journal_input" where
  "plain_journal kind currency branchId accountId legs now = \<lparr>ji_kind = kind, ji_currency = currency,
     ji_branchId = branchId, ji_legs = legs, ji_accountId = accountId, ji_drawerSessionId = None,
     ji_paymentMethodId = None, ji_reversesTransactionId = None, ji_actorUserId = None, ji_source = None,
     ji_deviceId = None, ji_clientChangeId = None, ji_note = None, ji_now = now\<rparr>"

definition debit_leg :: "ledger_account \<Rightarrow> string option \<Rightarrow> int \<Rightarrow> string option \<Rightarrow> leg" where
  "debit_leg acc accountId n feeId = \<lparr>leg_account = acc, leg_accountId = accountId, leg_debit = Some n,
     leg_credit = None, leg_feeId = feeId\<rparr>"

definition credit_leg :: "ledger_account \<Rightarrow> string option \<Rightarrow> int \<Rightarrow> string option \<Rightarrow> leg" where
  "credit_leg acc accountId n feeId = \<lparr>leg_account = acc, leg_accountId = accountId, leg_debit = None,
     leg_credit = Some n, leg_feeId = feeId\<rparr>"

section \<open>Charging\<close>

record charge_input =
  ci_patronId :: string
  ci_feeTypeId :: string
  ci_branchId :: string
  ci_currency :: string
  ci_amountCents :: int
  ci_reason :: string
  ci_loanId :: "string option"
  ci_itemId :: "string option"
  ci_holdId :: "string option"

text \<open>The ids drawn for the rows a step may insert.\<close>

record drawn_ids =
  new_account :: string
  new_fee :: string
  new_transaction :: string

text \<open>The predicate of the partial unique index \<open>fees_one_open_accrual_per_loan\<close>.\<close>

definition open_accrual :: "string \<Rightarrow> fee \<Rightarrow> bool" where
  "open_accrual loanId f \<longleftrightarrow> fee_loanId f = Some loanId \<and> is_accruing f \<and> closed_at f = None"

definition insert_fee :: "fee \<Rightarrow> books \<Rightarrow> fault + books" where
  "insert_fee f db = (if \<not> fee_row_ok f then Inl (CheckViolation ''fees'')
     else if list_ex (\<lambda>g. fee_id g = fee_id f) (bk_fees db) then Inl (UniqueViolation ''fees_pkey'')
     else if (case fee_loanId f of None \<Rightarrow> False
         | Some l \<Rightarrow> open_accrual l f \<and> list_ex (open_accrual l) (bk_fees db))
       then Inl (UniqueViolation ''fees_one_open_accrual_per_loan'')
     else Inr (db\<lparr>bk_fees := bk_fees db @ [f]\<rparr>))"

definition new_charge :: "string \<Rightarrow> string \<Rightarrow> int \<Rightarrow> charge_input \<Rightarrow> fee" where
  "new_charge feeId accountId now input = \<lparr>fee_id = feeId, fee_accountId = accountId,
     fee_patronId = ci_patronId input, fee_typeId = ci_feeTypeId input, fee_currency = ci_currency input,
     fee_loanId = ci_loanId input, fee_itemId = ci_itemId input, fee_holdId = ci_holdId input,
     fee_branchId = ci_branchId input, amount_cents = ci_amountCents input, tax_cents = 0, paid_cents = 0,
     waived_cents = 0, written_off_cents = 0, fee_status = Outstanding, is_accruing = False,
     accrued_through = None, fee_reason = ci_reason input, created_at = now, closed_at = None,
     archived_at = None\<rparr>"

definition charge :: "drawn_ids \<Rightarrow> string option \<Rightarrow> int \<Rightarrow> charge_input \<Rightarrow> books \<Rightarrow> fault + books \<times> string \<times> string" where
  "charge ids userId now input db =
     (if ci_amountCents input \<le> 0 then Inl BadRequest
      else case bk_feeTypes db (ci_feeTypeId input) of
        None \<Rightarrow> Inl NotFound
      | Some ft \<Rightarrow> if ft_archivedAt ft \<noteq> None then Inl NotFound else
          bind_res (accountForWithin (new_account ids) (ci_patronId input) (ci_currency input) now db)
            (\<lambda>(db1, accountId).
          bind_res (insert_fee (new_charge (new_fee ids) accountId now input) db1) (\<lambda>db2.
          bind_res (post (new_transaction ids)
            ((plain_journal TxCharge (ci_currency input) (ci_branchId input) (Some accountId)
              [debit_leg PatronReceivable (Some accountId) (ci_amountCents input) (Some (new_fee ids)),
               credit_leg (ft_revenueAccount ft) None (ci_amountCents input) (Some (new_fee ids))] now)
             \<lparr>ji_note := Some (ci_reason input), ji_actorUserId := userId\<rparr>) db2) (\<lambda>db3.
          Inr (db3, new_fee ids, new_transaction ids)))))"

section \<open>Settling\<close>

datatype settle_kind = SettlePayment | SettleWaiver | SettleWriteOff

record settle_input =
  si_patronId :: string
  si_currency :: string
  si_branchId :: string
  si_amountCents :: int
  si_feeIds :: "string list option"
  si_paymentMethodId :: "string option"
  si_drawerSessionId :: "string option"
  si_clientChangeId :: "string option"
  si_note :: "string option"

definition compare_created :: "fee \<Rightarrow> fee \<Rightarrow> int" where
  "compare_created f g = (if created_at f \<noteq> created_at g then created_at f - created_at g
     else if fee_id f < fee_id g then -1 else if fee_id g < fee_id f then 1 else 0)"

text \<open>The two queries of an open or refundable charge, and the filter by named ids.\<close>

definition open_fees :: "string \<Rightarrow> string \<Rightarrow> books \<Rightarrow> settle_target list" where
  "open_fees patronId currency db = map (\<lambda>f. \<lparr>st_feeId = fee_id f, st_cents = owed_cents f\<rparr>)
     (js_sort compare_created (filter (\<lambda>f. fee_patronId f = patronId \<and> fee_currency f = currency \<and>
       0 < owed_cents f) (bk_fees db)))"

definition paid_fees :: "string \<Rightarrow> string \<Rightarrow> books \<Rightarrow> settle_target list" where
  "paid_fees patronId currency db = map (\<lambda>f. \<lparr>st_feeId = fee_id f, st_cents = paid_cents f\<rparr>)
     (js_sort compare_created (filter (\<lambda>f. fee_patronId f = patronId \<and> fee_currency f = currency \<and>
       0 < paid_cents f) (bk_fees db)))"

definition named_fees :: "string list option \<Rightarrow> settle_target list \<Rightarrow> settle_target list" where
  "named_fees feeIds targets = (case feeIds of None \<Rightarrow> targets
     | Some is \<Rightarrow> if is = [] then targets else filter (\<lambda>t. st_feeId t \<in> set is) targets)"

definition settlementAccountFor :: "settle_kind option \<Rightarrow> string option \<Rightarrow> books \<Rightarrow> fault + ledger_account" where
  "settlementAccountFor kind paymentMethodId db =
     (if kind = Some SettleWaiver then Inr WaiverExpense
      else if kind = Some SettleWriteOff then Inr BadDebtExpense
      else case paymentMethodId of None \<Rightarrow> Inl BadRequest
        | Some i \<Rightarrow> (case bk_paymentMethods db i of
            None \<Rightarrow> Inl NotFound
          | Some m \<Rightarrow> if pm_archivedAt m \<noteq> None then Inl NotFound else Inr (pm_settlementAccount m)))"

definition settled_row :: "allocation_kind \<Rightarrow> int \<Rightarrow> int \<Rightarrow> fee \<Rightarrow> fee" where
  "settled_row kind n now f =
     (let done = amount_cents f + tax_cents f - paid_cents f - waived_cents f - written_off_cents f - n \<le> 0;
          g = (case kind of AllocWaiver \<Rightarrow> f\<lparr>waived_cents := waived_cents f + n\<rparr>
             | AllocWriteOff \<Rightarrow> f\<lparr>written_off_cents := written_off_cents f + n\<rparr>
             | _ \<Rightarrow> f\<lparr>paid_cents := paid_cents f + n\<rparr>);
          status = (case kind of AllocWaiver \<Rightarrow> Waived | AllocWriteOff \<Rightarrow> WrittenOff | _ \<Rightarrow> Paid)
      in g\<lparr>fee_status := (if done then status else Outstanding),
           closed_at := (if done then Some now else None),
           is_accruing := (if done then False else is_accruing f)\<rparr>)"

definition update_fee :: "allocation_kind \<Rightarrow> int \<Rightarrow> int \<Rightarrow> string \<Rightarrow> books \<Rightarrow> fault + books" where
  "update_fee kind n now i db =
     (let rows = map (\<lambda>f. if fee_id f = i then settled_row kind n now f else f) (bk_fees db) in
      if list_ex (\<lambda>f. fee_id f = i \<and> \<not> fee_row_ok (settled_row kind n now f)) (bk_fees db)
      then Inl (CheckViolation ''fees_settlement_within_charge'')
      else Inr (db\<lparr>bk_fees := rows\<rparr>))"

fun update_fees :: "allocation_kind \<Rightarrow> int \<Rightarrow> allocation list \<Rightarrow> books \<Rightarrow> fault + books" where
  "update_fees kind now [] db = Inr db"
| "update_fees kind now (a # as) db =
     bind_res (update_fee kind (al_amountCents a) now (al_feeId a) db) (update_fees kind now as)"

definition applyAllocations :: "string \<Rightarrow> allocation_kind \<Rightarrow> string \<Rightarrow> allocation list \<Rightarrow> int \<Rightarrow> books \<Rightarrow> fault + books" where
  "applyAllocations transactionId kind currency as now db =
     (if as = [] then Inr db
      else if list_ex (\<lambda>a. al_amountCents a = 0) as then Inl (CheckViolation ''fee_allocations_not_zero'')
      else update_fees kind now as (db\<lparr>bk_allocations := bk_allocations db @
        map (\<lambda>a. \<lparr>fa_transactionId = transactionId, fa_feeId = al_feeId a, fa_kind = kind,
          fa_currency = currency, fa_amountCents = al_amountCents a, fa_createdAt = now\<rparr>) as\<rparr>))"

primrec settle_tx_kind :: "settle_kind \<Rightarrow> ledger_tx_kind" where
  "settle_tx_kind SettlePayment = TxPayment"
| "settle_tx_kind SettleWaiver = TxWaiver"
| "settle_tx_kind SettleWriteOff = TxWriteOff"

primrec settle_alloc_kind :: "settle_kind \<Rightarrow> allocation_kind" where
  "settle_alloc_kind SettlePayment = AllocPayment"
| "settle_alloc_kind SettleWaiver = AllocWaiver"
| "settle_alloc_kind SettleWriteOff = AllocWriteOff"

definition settle_legs :: "string \<Rightarrow> ledger_account \<Rightarrow> int \<Rightarrow> settlement_plan \<Rightarrow> leg list" where
  "settle_legs accountId settlementAccount n plan =
     map (\<lambda>a. credit_leg PatronReceivable (Some accountId) (al_amountCents a) (Some (al_feeId a))) (allocations plan)
     @ (if 0 < unappliedCents plan then [credit_leg PatronCredit (Some accountId) (unappliedCents plan) None] else [])
     @ [debit_leg settlementAccount None n None]"

definition settlement_journal :: "ledger_tx_kind \<Rightarrow> string option \<Rightarrow> string \<Rightarrow> leg list \<Rightarrow> int \<Rightarrow> settle_input \<Rightarrow> journal_input" where
  "settlement_journal kind userId accountId legs now input =
     (plain_journal kind (si_currency input) (si_branchId input) (Some accountId) legs now)
       \<lparr>ji_paymentMethodId := si_paymentMethodId input, ji_drawerSessionId := si_drawerSessionId input,
        ji_clientChangeId := si_clientChangeId input, ji_actorUserId := userId, ji_note := si_note input\<rparr>"

definition settle :: "drawn_ids \<Rightarrow> string option \<Rightarrow> int \<Rightarrow> settle_kind \<Rightarrow> settle_input \<Rightarrow> books \<Rightarrow>
    fault + books \<times> settlement_plan" where
  "settle ids userId now kind input db =
     (if si_amountCents input \<le> 0 then Inl BadRequest else
      bind_res (accountForWithin (new_account ids) (si_patronId input) (si_currency input) now db) (\<lambda>(db1, accountId).
      bind_res (planSettlement (si_amountCents input)
        (named_fees (si_feeIds input) (open_fees (si_patronId input) (si_currency input) db1))) (\<lambda>plan.
      if 0 < unappliedCents plan \<and> kind \<noteq> SettlePayment then Inl BadRequest else
      bind_res (settlementAccountFor (Some kind) (si_paymentMethodId input) db1) (\<lambda>settlementAccount.
      bind_res (post (new_transaction ids) (settlement_journal (settle_tx_kind kind) userId accountId
        (settle_legs accountId settlementAccount (si_amountCents input) plan) now input) db1) (\<lambda>db2.
      bind_res (applyAllocations (new_transaction ids) (settle_alloc_kind kind) (si_currency input)
        (allocations plan) now db2) (\<lambda>db3.
      Inr (db3, plan)))))))"

section \<open>Refunding\<close>

definition refund_legs :: "string \<Rightarrow> ledger_account \<Rightarrow> int \<Rightarrow> settlement_plan \<Rightarrow> leg list" where
  "refund_legs accountId settlementAccount n plan =
     map (\<lambda>a. debit_leg PatronReceivable (Some accountId) (- al_amountCents a) (Some (al_feeId a))) (allocations plan)
     @ [credit_leg settlementAccount None n None]"

text \<open>A refund has no client change id.\<close>

definition refund :: "drawn_ids \<Rightarrow> string option \<Rightarrow> int \<Rightarrow> settle_input \<Rightarrow> books \<Rightarrow> fault + books \<times> settlement_plan" where
  "refund ids userId now input db =
     bind_res (accountForWithin (new_account ids) (si_patronId input) (si_currency input) now db) (\<lambda>(db1, accountId).
     bind_res (planRefund (si_amountCents input)
       (named_fees (si_feeIds input) (paid_fees (si_patronId input) (si_currency input) db1))) (\<lambda>plan.
     bind_res (settlementAccountFor None (si_paymentMethodId input) db1) (\<lambda>settlementAccount.
     bind_res (post (new_transaction ids) ((settlement_journal TxRefund userId accountId
       (refund_legs accountId settlementAccount (si_amountCents input) plan) now input)\<lparr>ji_clientChangeId := None\<rparr>) db1)
       (\<lambda>db2.
     bind_res (applyAllocations (new_transaction ids) AllocRefund (si_currency input) (allocations plan) now db2) (\<lambda>db3.
     Inr (db3, plan))))))"

section \<open>Reading the balance\<close>

definition owing :: "string \<Rightarrow> books \<Rightarrow> fee list" where
  "owing patronId db = filter (\<lambda>f. fee_patronId f = patronId \<and> 0 < owed_cents f) (bk_fees db)"

definition balances :: "string \<Rightarrow> books \<Rightarrow> (string \<times> int) list" where
  "balances patronId db = map (\<lambda>c. (c, sum_list (map owed_cents (filter (\<lambda>f. fee_currency f = c) (owing patronId db)))))
     (sort (remdups (map fee_currency (owing patronId db))))"

end
