(* ===== verification/Identities.thy ===== *)
theory Identities
  imports Fee_Service
begin

text \<open>
  The three statements that decide whether the ledger is true
  (\<open>apps/api/src/fees/ledger-identities.ts\<close>), as the queries compute them, and the invariant of
  the tables that makes all three report nothing. The \<open>detail\<close> of a drift is left out, and the
  order of the rows, which the queries leave open.
\<close>

section \<open>The reports\<close>

record drift =
  dr_subjectId :: string
  dr_currency :: string
  dr_expectedCents :: int
  dr_actualCents :: int

definition findUnbalancedTransactions :: "books \<Rightarrow> drift list" where
  "findUnbalancedTransactions db = (let es = entries (bk_journal db) in
     map (\<lambda>t. \<lparr>dr_subjectId = tx_id t, dr_currency = tx_currency t,
         dr_expectedCents = credits_of (entries_of (tx_id t) es),
         dr_actualCents = debits_of (entries_of (tx_id t) es)\<rparr>)
       (filter (\<lambda>t. debits_of (entries_of (tx_id t) es) \<noteq> credits_of (entries_of (tx_id t) es) \<or>
           length (entries_of (tx_id t) es) < 2 \<or>
           debits_of (entries_of (tx_id t) es) \<noteq> tx_totalCents t)
         (transactions (bk_journal db))))"

definition kind_sum :: "allocation_kind list \<Rightarrow> string \<Rightarrow> fee_allocation list \<Rightarrow> int" where
  "kind_sum ks i as = sum_list (map fa_amountCents (filter (\<lambda>a. fa_feeId a = i \<and> fa_kind a \<in> set ks) as))"

definition findFeeCounterDrift :: "books \<Rightarrow> drift list" where
  "findFeeCounterDrift db =
     (let paid = (\<lambda>f. kind_sum [AllocPayment, AllocRefund] (fee_id f) (bk_allocations db));
          waived = (\<lambda>f. kind_sum [AllocWaiver] (fee_id f) (bk_allocations db));
          written = (\<lambda>f. kind_sum [AllocWriteOff] (fee_id f) (bk_allocations db)) in
      map (\<lambda>f. \<lparr>dr_subjectId = fee_id f, dr_currency = fee_currency f,
          dr_expectedCents = paid f + waived f + written f,
          dr_actualCents = paid_cents f + waived_cents f + written_off_cents f\<rparr>)
        (filter (\<lambda>f. paid_cents f \<noteq> paid f \<or> waived_cents f \<noteq> waived f \<or> written_off_cents f \<noteq> written f)
          (bk_fees db)))"

definition net :: "account_entry list \<Rightarrow> int" where
  "net es = sum_list (map (\<lambda>e. ae_debitCents e - ae_creditCents e) es)"

definition receivables :: "books \<Rightarrow> account_entry list" where
  "receivables db = filter (\<lambda>e. ae_account e = PatronReceivable) (entries (bk_journal db))"

definition ledger_balance :: "books \<Rightarrow> string \<Rightarrow> string \<Rightarrow> int" where
  "ledger_balance db a c = net (filter (\<lambda>e. ae_accountId e = Some a \<and> ae_currency e = c) (receivables db))"

definition fees_balance :: "books \<Rightarrow> string \<Rightarrow> string \<Rightarrow> int" where
  "fees_balance db a c = sum_list (map owed_cents
     (filter (\<lambda>f. fee_accountId f = a \<and> fee_currency f = c) (bk_fees db)))"

text \<open>The full outer join: the accounts of either side, each once. A receivable entry names
  its account, by the row check of the table.\<close>

definition drift_keys :: "books \<Rightarrow> (string \<times> string) list" where
  "drift_keys db = remdups (concat (map (\<lambda>e. case ae_accountId e of None \<Rightarrow> [] | Some a \<Rightarrow> [(a, ae_currency e)])
       (receivables db)) @ map (\<lambda>f. (fee_accountId f, fee_currency f)) (bk_fees db))"

definition findAccountBalanceDrift :: "books \<Rightarrow> drift list" where
  "findAccountBalanceDrift db = map (\<lambda>(a, c). \<lparr>dr_subjectId = a, dr_currency = c,
       dr_expectedCents = fees_balance db a c, dr_actualCents = ledger_balance db a c\<rparr>)
     (filter (\<lambda>(a, c). ledger_balance db a c \<noteq> fees_balance db a c) (drift_keys db))"

section \<open>The invariant of the tables\<close>

definition fee_balance :: "journal \<Rightarrow> string \<Rightarrow> int" where
  "fee_balance j i = net (filter (\<lambda>e. ae_account e = PatronReceivable \<and> ae_feeId e = Some i) (entries j))"

definition fee_ok :: "fee \<Rightarrow> bool" where
  "fee_ok f \<longleftrightarrow> 0 < amount_cents f \<and> 0 \<le> tax_cents f \<and> 0 \<le> paid_cents f \<and> 0 \<le> waived_cents f \<and>
     0 \<le> written_off_cents f \<and> settled f \<le> charged f \<and>
     (closed_at f = None \<longleftrightarrow> settled f < charged f) \<and> (closed_at f \<noteq> None \<longrightarrow> \<not> is_accruing f) \<and>
     archived_at f = None"

definition counters_ok :: "fee_allocation list \<Rightarrow> fee \<Rightarrow> bool" where
  "counters_ok as f \<longleftrightarrow> paid_cents f = kind_sum [AllocPayment, AllocRefund] (fee_id f) as \<and>
     waived_cents f = kind_sum [AllocWaiver] (fee_id f) as \<and>
     written_off_cents f = kind_sum [AllocWriteOff] (fee_id f) as"

definition account_known :: "patron_account list \<Rightarrow> fee \<Rightarrow> bool" where
  "account_known accounts f \<longleftrightarrow> (\<exists>a \<in> set accounts. pa_id a = fee_accountId f \<and>
     pa_patronId a = fee_patronId f \<and> pa_currency a = fee_currency f)"

definition accounts_ok :: "patron_account list \<Rightarrow> bool" where
  "accounts_ok accounts \<longleftrightarrow> distinct (map pa_id accounts) \<and>
     distinct (map (\<lambda>a. (pa_patronId a, pa_currency a)) accounts)"

text \<open>A receivable entry is on the account and in the currency of the charge it names.\<close>

definition entry_of_fee :: "account_entry \<Rightarrow> fee \<Rightarrow> bool" where
  "entry_of_fee e f \<longleftrightarrow> ae_feeId e = Some (fee_id f) \<and> ae_accountId e = Some (fee_accountId f) \<and>
     ae_currency e = fee_currency f"

definition entries_ok :: "journal \<Rightarrow> fee list \<Rightarrow> bool" where
  "entries_ok j fs \<longleftrightarrow> (\<forall>e \<in> set (entries j). ae_account e = PatronReceivable \<longrightarrow> (\<exists>f \<in> set fs. entry_of_fee e f))"

definition settings_ok :: "books \<Rightarrow> bool" where
  "settings_ok db \<longleftrightarrow>
     (\<forall>i ft. bk_feeTypes db i = Some ft \<longrightarrow> ft_revenueAccount ft \<in> {FineRevenue, ReplacementRevenue, ServiceRevenue}) \<and>
     (\<forall>i m. bk_paymentMethods db i = Some m \<longrightarrow> pm_settlementAccount m \<in> {CashOnHand, Bank, CardClearing})"

definition one_open_accrual :: "fee list \<Rightarrow> bool" where
  "one_open_accrual fs \<longleftrightarrow> (\<forall>l. \<forall>f \<in> set fs. \<forall>g \<in> set fs. open_accrual l f \<and> open_accrual l g \<longrightarrow> fee_id f = fee_id g)"

definition books_ok :: "books \<Rightarrow> bool" where
  "books_ok db \<longleftrightarrow> balanced_journal (bk_journal db) \<and> settings_ok db \<and> accounts_ok (bk_accounts db) \<and>
     distinct (map fee_id (bk_fees db)) \<and> entries_ok (bk_journal db) (bk_fees db) \<and>
     one_open_accrual (bk_fees db) \<and>
     fa_feeId ` set (bk_allocations db) \<subseteq> fee_id ` set (bk_fees db) \<and>
     (\<forall>f \<in> set (bk_fees db). fee_ok f \<and> account_known (bk_accounts db) f \<and>
        counters_ok (bk_allocations db) f \<and> fee_balance (bk_journal db) (fee_id f) = charged f - settled f)"

section \<open>The invariant silences the reports\<close>

lemma net_simps [simp]: "net [] = 0" "net (e # es) = ae_debitCents e - ae_creditCents e + net es"
    "net (es @ fs) = net es + net fs"
  by (simp_all add: net_def)

lemma owed_cents_ok: "fee_ok f \<Longrightarrow> owed_cents f = charged f - settled f"
  by (auto simp: fee_ok_def owed_cents_def charged_def settled_def)

text \<open>Entries that all name a charge of a list can be summed charge by charge.\<close>

lemma net_by_fee:
  assumes "distinct (map fee_id fs)" "\<forall>e \<in> set es. \<exists>f \<in> set fs. ae_feeId e = Some (fee_id f)"
  shows "net es = sum_list (map (\<lambda>f. net (filter (\<lambda>e. ae_feeId e = Some (fee_id f)) es)) fs)"
  using assms(2)
proof (induction es)
  case (Cons e es)
  from Cons.prems obtain f where f: "f \<in> set fs" "ae_feeId e = Some (fee_id f)" by auto
  have hit: "ae_feeId e = Some (fee_id g) \<longleftrightarrow> g = f" if "g \<in> set fs" for g
    using that f assms(1) by (auto simp: distinct_map dest: inj_onD)
  have "sum_list (map (\<lambda>g. net (filter (\<lambda>e. ae_feeId e = Some (fee_id g)) (e # es))) fs) =
      sum_list (map (\<lambda>g. (if g = f then ae_debitCents e - ae_creditCents e else 0)
        + net (filter (\<lambda>e. ae_feeId e = Some (fee_id g)) es)) fs)"
    by (rule arg_cong [where f = sum_list], rule map_cong) (simp_all add: hit)
  also have "\<dots> = sum_list (map (\<lambda>g. if g = f then ae_debitCents e - ae_creditCents e else 0) fs)
      + sum_list (map (\<lambda>g. net (filter (\<lambda>e. ae_feeId e = Some (fee_id g)) es)) fs)"
    by (simp add: sum_list_addf)
  also have "sum_list (map (\<lambda>g. if g = f then ae_debitCents e - ae_creditCents e else 0) fs) =
      ae_debitCents e - ae_creditCents e"
  proof -
    have "{x. x = f \<and> x \<in> set fs} = {f}" using f(1) by auto
    then show ?thesis
      using f(1) assms(1) by (simp add: distinct_map sum_list_map_filter' [symmetric] sum_list_distinct_conv_sum_set)
  qed
  finally show ?case using Cons by simp
qed (simp add: sum_list_0)

lemma ledger_balance_fees:
  assumes "distinct (map fee_id (bk_fees db))" "entries_ok (bk_journal db) (bk_fees db)"
  shows "ledger_balance db a c = sum_list (map (\<lambda>f. fee_balance (bk_journal db) (fee_id f))
      (filter (\<lambda>f. fee_accountId f = a \<and> fee_currency f = c) (bk_fees db)))"
proof -
  let ?own = "\<lambda>f. fee_accountId f = a \<and> fee_currency f = c"
  let ?es = "filter (\<lambda>e. ae_accountId e = Some a \<and> ae_currency e = c) (receivables db)"
  have named: "\<exists>f \<in> set (filter ?own (bk_fees db)). ae_feeId e = Some (fee_id f)" if "e \<in> set ?es" for e
    using that assms(2) unfolding entries_ok_def entry_of_fee_def receivables_def by fastforce
  have same: "ae_accountId e = Some a \<and> ae_currency e = c"
    if "f \<in> set (bk_fees db)" "?own f" "e \<in> set (receivables db)" "ae_feeId e = Some (fee_id f)" for e f
  proof -
    from that(3) assms(2) obtain g where "g \<in> set (bk_fees db)" "entry_of_fee e g"
      by (auto simp: entries_ok_def receivables_def)
    moreover with that assms(1) have "g = f" by (auto simp: entry_of_fee_def distinct_map dest: inj_onD)
    ultimately show ?thesis using that(2) by (simp add: entry_of_fee_def)
  qed
  have own: "filter (\<lambda>e. ae_feeId e = Some (fee_id f)) ?es =
      filter (\<lambda>e. ae_account e = PatronReceivable \<and> ae_feeId e = Some (fee_id f)) (entries (bk_journal db))"
    if "f \<in> set (bk_fees db)" "?own f" for f
    using same [OF that] by (auto simp: receivables_def intro!: filter_cong)
  have "net ?es = sum_list (map (\<lambda>f. net (filter (\<lambda>e. ae_feeId e = Some (fee_id f)) ?es))
      (filter ?own (bk_fees db)))"
    by (rule net_by_fee) (use assms(1) named in \<open>auto simp: distinct_map inj_on_def\<close>)
  also have "\<dots> = sum_list (map (\<lambda>f. fee_balance (bk_journal db) (fee_id f)) (filter ?own (bk_fees db)))"
    unfolding fee_balance_def
    by (rule arg_cong [where f = sum_list], rule map_cong) (simp_all only: set_filter mem_Collect_eq own)
  finally show ?thesis by (simp add: ledger_balance_def)
qed

lemma books_ok_unbalanced: "books_ok db \<Longrightarrow> findUnbalancedTransactions db = []"
  by (auto simp: findUnbalancedTransactions_def books_ok_def balanced_journal_def list_all_iff
      transaction_ok_def Let_def filter_empty_conv)

lemma books_ok_counters: "books_ok db \<Longrightarrow> findFeeCounterDrift db = []"
  by (auto simp: findFeeCounterDrift_def books_ok_def counters_ok_def filter_empty_conv Let_def)

lemma books_ok_ledger_balance:
  assumes "books_ok db"
  shows "ledger_balance db a c = fees_balance db a c"
proof -
  have "ledger_balance db a c = sum_list (map (\<lambda>f. fee_balance (bk_journal db) (fee_id f))
      (filter (\<lambda>f. fee_accountId f = a \<and> fee_currency f = c) (bk_fees db)))"
    by (rule ledger_balance_fees) (use assms in \<open>simp_all add: books_ok_def\<close>)
  also have "\<dots> = fees_balance db a c"
    unfolding fees_balance_def
    by (rule arg_cong [where f = sum_list], rule map_cong)
      (use assms in \<open>auto simp: books_ok_def owed_cents_ok\<close>)
  finally show ?thesis .
qed

lemma books_ok_accounts: "books_ok db \<Longrightarrow> findAccountBalanceDrift db = []"
  by (simp add: findAccountBalanceDrift_def books_ok_ledger_balance)

end
