(* ===== verification/Fee_Invariant.thy ===== *)
theory Fee_Invariant
  imports Identities
begin

text \<open>
  Every operation of \<open>FeesService\<close> keeps the invariant of the tables, so the three identities hold
  after any sequence of them, and none of them is ever stopped by a constraint of the database.
\<close>

section \<open>What a journal does to the receivables\<close>

definition legs_balance :: "string \<Rightarrow> leg list \<Rightarrow> int" where
  "legs_balance i ls = leg_debits (filter (\<lambda>l. leg_account l = PatronReceivable \<and> leg_feeId l = Some i) ls)
     - leg_credits (filter (\<lambda>l. leg_account l = PatronReceivable \<and> leg_feeId l = Some i) ls)"

lemma legs_balance_simps [simp]:
  "legs_balance i [] = 0"
  "legs_balance i (l # ls) = (if leg_account l = PatronReceivable \<and> leg_feeId l = Some i
     then leg_debit_or_0 l - leg_credit_or_0 l else 0) + legs_balance i ls"
  "legs_balance i (ls @ ms) = legs_balance i ls + legs_balance i ms"
  by (simp_all add: legs_balance_def)

lemma leg_simps [simp]:
  "leg_account (debit_leg acc a n f) = acc" "leg_account (credit_leg acc a n f) = acc"
  "leg_accountId (debit_leg acc a n f) = a" "leg_accountId (credit_leg acc a n f) = a"
  "leg_feeId (debit_leg acc a n f) = f" "leg_feeId (credit_leg acc a n f) = f"
  "leg_debit_or_0 (debit_leg acc a n f) = n" "leg_credit_or_0 (debit_leg acc a n f) = 0"
  "leg_debit_or_0 (credit_leg acc a n f) = 0" "leg_credit_or_0 (credit_leg acc a n f) = n"
  by (simp_all add: debit_leg_def credit_leg_def leg_debit_or_0_def leg_credit_or_0_def)

lemma leg_ok_debit: "leg_ok (debit_leg acc a n f) \<longleftrightarrow> 0 < n \<and> (isSubsidiary acc \<longleftrightarrow> a \<noteq> None)"
  by (auto simp: leg_ok_def leg_fault_def Let_def)

lemma leg_ok_credit: "leg_ok (credit_leg acc a n f) \<longleftrightarrow> 0 < n \<and> (isSubsidiary acc \<longleftrightarrow> a \<noteq> None)"
  by (auto simp: leg_ok_def leg_fault_def Let_def)

lemma fee_balance_posted:
  "fee_balance (posted t input n j) i = fee_balance j i + legs_balance i (ji_legs input)"
proof -
  have "net (filter (\<lambda>e. ae_account e = PatronReceivable \<and> ae_feeId e = Some i) (map (entry_row t input) ls)) =
      legs_balance i ls" for ls
    by (induction ls) auto
  then show ?thesis by (simp add: fee_balance_def)
qed

lemma plain_journal_simps [simp]:
  "ji_legs (plain_journal k c b a ls now) = ls" "ji_currency (plain_journal k c b a ls now) = c"
  "ji_kind (plain_journal k c b a ls now) = k" "ji_reversesTransactionId (plain_journal k c b a ls now) = None"
  "ji_clientChangeId (plain_journal k c b a ls now) = None"
  "ji_drawerSessionId (plain_journal k c b a ls now) = None"
  by (simp_all add: plain_journal_def)

lemma settlement_journal_simps [simp]:
  "ji_legs (settlement_journal k u a ls now input) = ls"
  "ji_currency (settlement_journal k u a ls now input) = si_currency input"
  "ji_kind (settlement_journal k u a ls now input) = k"
  "ji_reversesTransactionId (settlement_journal k u a ls now input) = None"
  "ji_clientChangeId (settlement_journal k u a ls now input) = si_clientChangeId input"
  by (simp_all add: settlement_journal_def)

text \<open>The ids of a step are fresh when no row bears them yet.\<close>

definition fresh_transaction :: "string \<Rightarrow> string option \<Rightarrow> journal \<Rightarrow> bool" where
  "fresh_transaction t c j \<longleftrightarrow> (\<forall>u \<in> set (transactions j). tx_id u \<noteq> t \<and> (c \<noteq> None \<longrightarrow> tx_clientChangeId u \<noteq> c))"

lemma header_accepted_plain:
  assumes "ji_kind input \<noteq> TxReversal" "ji_reversesTransactionId input = None"
  shows "header_accepted (header_row t input n) j \<longleftrightarrow> fresh_transaction t (ji_clientChangeId input) j"
  using assms by (auto simp: header_accepted_def fresh_transaction_def)

lemma books_ok_journal: "books_ok db \<Longrightarrow> balanced_journal (bk_journal db)"
  by (simp add: books_ok_def)

lemma post_Inr_iff:
  assumes "balanced_journal (bk_journal db)" "ji_kind input \<noteq> TxReversal" "ji_reversesTransactionId input = None"
  shows "post t input db = Inr db' \<longleftrightarrow> (\<exists>n. assertBalanced (ji_legs input) = Inr n \<and>
    fresh_transaction t (ji_clientChangeId input) (bk_journal db) \<and>
    db' = db\<lparr>bk_journal := posted t input n (bk_journal db)\<rparr>)"
proof -
  have "journal_rows_known (bk_journal db)" using assms(1) by (simp add: balanced_journal_def)
  then show ?thesis
    by (auto simp: post_def bind_res_Inr_iff postJournalWithin_Inr_iff header_accepted_plain [OF assms(2,3)])
qed

section \<open>Moving the counters\<close>

lemma settled_row_simps [simp]:
  "fee_id (settled_row k n now f) = fee_id f" "fee_accountId (settled_row k n now f) = fee_accountId f"
  "fee_patronId (settled_row k n now f) = fee_patronId f" "fee_currency (settled_row k n now f) = fee_currency f"
  "fee_loanId (settled_row k n now f) = fee_loanId f" "archived_at (settled_row k n now f) = archived_at f"
  "amount_cents (settled_row k n now f) = amount_cents f" "tax_cents (settled_row k n now f) = tax_cents f"
  "paid_cents (settled_row k n now f) = paid_cents f + (if k \<in> {AllocPayment, AllocRefund} then n else 0)"
  "waived_cents (settled_row k n now f) = waived_cents f + (if k = AllocWaiver then n else 0)"
  "written_off_cents (settled_row k n now f) = written_off_cents f + (if k = AllocWriteOff then n else 0)"
  by (cases k; simp add: settled_row_def Let_def)+

lemma settled_row_closed:
  "closed_at (settled_row k n now f) = (if charged f \<le> settled f + n then Some now else None)"
  "is_accruing (settled_row k n now f) = (is_accruing f \<and> settled f + n < charged f)"
  by (cases k; auto simp: settled_row_def Let_def charged_def settled_def)+

lemma settled_row_sums [simp]:
  "charged (settled_row k n now f) = charged f" "settled (settled_row k n now f) = settled f + n"
  by (cases k; simp add: charged_def settled_def)+

definition moves_ok :: "allocation_kind \<Rightarrow> int \<Rightarrow> fee \<Rightarrow> bool" where
  "moves_ok k n f \<longleftrightarrow> (if k = AllocRefund then - paid_cents f \<le> n \<and> n \<le> 0 else 0 \<le> n) \<and>
     settled f + n \<le> charged f"

lemma moves_ok_settle: "fee_ok f \<Longrightarrow> k \<noteq> AllocRefund \<Longrightarrow> 0 \<le> n \<and> (n = 0 \<or> n \<le> charged f - settled f) \<Longrightarrow> moves_ok k (1 * n) f"
  by (auto simp: moves_ok_def fee_ok_def)

lemma moves_ok_refund: "fee_ok f \<Longrightarrow> 0 \<le> n \<and> (n = 0 \<or> n \<le> paid_cents f) \<Longrightarrow> moves_ok AllocRefund ((-1) * n) f"
  by (auto simp: moves_ok_def fee_ok_def)

lemma fee_ok_settled_row: "fee_ok f \<Longrightarrow> moves_ok k n f \<Longrightarrow> fee_ok (settled_row k n now f)"
  by (cases k) (auto simp: fee_ok_def moves_ok_def settled_row_closed)

lemma fee_row_ok_settled: "fee_ok f \<Longrightarrow> fee_row_ok f"
  by (auto simp: fee_ok_def fee_row_ok_def charged_def settled_def)

definition move_all :: "allocation_kind \<Rightarrow> int \<Rightarrow> allocation list \<Rightarrow> fee \<Rightarrow> fee" where
  "move_all k now as f = (case find (\<lambda>a. al_feeId a = fee_id f) as of None \<Rightarrow> f
     | Some a \<Rightarrow> settled_row k (al_amountCents a) now f)"

lemma find_absent: "i \<notin> al_feeId ` set as \<Longrightarrow> find (\<lambda>a. al_feeId a = i) as = None"
  by (auto simp: find_None_iff)

lemma allocated_to_find: "distinct (map al_feeId as) \<Longrightarrow>
    allocated_to i as = (case find (\<lambda>a. al_feeId a = i) as of None \<Rightarrow> 0 | Some a \<Rightarrow> al_amountCents a)"
  by (induction as) (auto simp: find_absent allocated_to_absent)

definition allocations_fit :: "allocation_kind \<Rightarrow> allocation list \<Rightarrow> fee list \<Rightarrow> bool" where
  "allocations_fit k as fs \<longleftrightarrow> distinct (map al_feeId as) \<and> al_feeId ` set as \<subseteq> fee_id ` set fs \<and>
     (\<forall>a \<in> set as. al_amountCents a \<noteq> 0) \<and> (\<forall>f \<in> set fs. moves_ok k (allocated_to (fee_id f) as) f)"

lemma update_fees_move_all:
  assumes "distinct (map al_feeId as)"
    and "\<forall>a \<in> set as. \<forall>f \<in> set (bk_fees db). fee_id f = al_feeId a \<longrightarrow> fee_row_ok (settled_row k (al_amountCents a) now f)"
  shows "update_fees k now as db = Inr (db\<lparr>bk_fees := map (move_all k now as) (bk_fees db)\<rparr>)"
  using assms
proof (induction as arbitrary: db)
  case Nil
  then show ?case by (simp add: move_all_def)
next
  case (Cons a as)
  let ?one = "\<lambda>f. if fee_id f = al_feeId a then settled_row k (al_amountCents a) now f else f"
  let ?db = "db\<lparr>bk_fees := map ?one (bk_fees db)\<rparr>"
  have "update_fee k (al_amountCents a) now (al_feeId a) db = Inr ?db"
    using Cons.prems(2) by (auto simp: update_fee_def Let_def list_ex_iff)
  moreover have "update_fees k now as ?db = Inr (?db\<lparr>bk_fees := map (move_all k now as) (bk_fees ?db)\<rparr>)"
  proof (rule Cons.IH)
    show "\<forall>b \<in> set as. \<forall>f \<in> set (bk_fees ?db). fee_id f = al_feeId b \<longrightarrow> fee_row_ok (settled_row k (al_amountCents b) now f)"
      using Cons.prems by (auto split: if_splits)
  qed (use Cons.prems in simp)
  moreover have "move_all k now as (?one f) = move_all k now (a # as) f" for f
    using Cons.prems(1) by (auto simp: move_all_def find_absent)
  ultimately show ?case by simp
qed

lemma move_all_simps [simp]:
  "fee_id (move_all k now as f) = fee_id f" "fee_accountId (move_all k now as f) = fee_accountId f"
  "fee_patronId (move_all k now as f) = fee_patronId f" "fee_currency (move_all k now as f) = fee_currency f"
  "fee_loanId (move_all k now as f) = fee_loanId f" "charged (move_all k now as f) = charged f"
  by (simp_all add: move_all_def split: option.split)

lemma move_all_Nil [simp]: "move_all k now [] = (\<lambda>f. f)"
  by (simp add: move_all_def fun_eq_iff)

lemma move_all_counters:
  assumes "distinct (map al_feeId as)"
  shows "paid_cents (move_all k now as f) = paid_cents f + (if k \<in> {AllocPayment, AllocRefund} then allocated_to (fee_id f) as else 0)"
    and "waived_cents (move_all k now as f) = waived_cents f + (if k = AllocWaiver then allocated_to (fee_id f) as else 0)"
    and "written_off_cents (move_all k now as f) = written_off_cents f + (if k = AllocWriteOff then allocated_to (fee_id f) as else 0)"
    and "settled (move_all k now as f) = settled f + allocated_to (fee_id f) as"
  by (simp_all add: move_all_def allocated_to_find [OF assms] split: option.split)

lemma find_allocated:
  assumes "distinct (map al_feeId as)" "find (\<lambda>a. al_feeId a = i) as = Some a"
  shows "al_amountCents a = allocated_to i as"
  by (simp add: allocated_to_find [OF assms(1)] assms(2))

lemma fee_ok_move_all:
  assumes "allocations_fit k as fs" "f \<in> set fs" "fee_ok f"
  shows "fee_ok (move_all k now as f)"
proof (cases "find (\<lambda>a. al_feeId a = fee_id f) as")
  case (Some a)
  then have "moves_ok k (al_amountCents a) f"
    using assms(1,2) find_allocated [OF _ Some] by (auto simp: allocations_fit_def)
  then show ?thesis using Some assms(3) by (simp add: move_all_def fee_ok_settled_row)
qed (simp add: move_all_def assms(3))

lemma accruing_move_all: "fee_ok f \<Longrightarrow> open_accrual l (move_all k now as f) \<Longrightarrow> open_accrual l f"
  by (auto simp: move_all_def open_accrual_def settled_row_closed fee_ok_def split: option.splits if_splits)

lemma one_open_accrual_map:
  assumes "one_open_accrual fs" "\<And>f l. f \<in> set fs \<Longrightarrow> open_accrual l (h f) \<Longrightarrow> open_accrual l f"
    and "\<And>f. fee_id (h f) = fee_id f"
  shows "one_open_accrual (map h fs)"
  using assms by (simp add: one_open_accrual_def) blast

lemma kind_sum_append: "kind_sum ks i (as @ bs) = kind_sum ks i as + kind_sum ks i bs"
  by (simp add: kind_sum_def)

lemma kind_sum_rows:
  "kind_sum ks i (map (\<lambda>a. \<lparr>fa_transactionId = t, fa_feeId = al_feeId a, fa_kind = k, fa_currency = c,
      fa_amountCents = al_amountCents a, fa_createdAt = now\<rparr>) as) = (if k \<in> set ks then allocated_to i as else 0)"
  by (induction as) (auto simp: kind_sum_def)

text \<open>The shared half of a settlement and a refund: a journal whose receivable legs say what the
  allocations say, then the allocations. No constraint stops it.\<close>

definition receivable_legs_ok :: "string \<Rightarrow> leg list \<Rightarrow> fee list \<Rightarrow> bool" where
  "receivable_legs_ok c ls fs \<longleftrightarrow> (\<forall>l \<in> set ls. leg_account l = PatronReceivable \<longrightarrow>
     (\<exists>f \<in> set fs. leg_feeId l = Some (fee_id f) \<and> leg_accountId l = Some (fee_accountId f) \<and> fee_currency f = c))"

lemma entries_ok_posted:
  assumes "entries_ok j fs" "receivable_legs_ok (ji_currency input) (ji_legs input) gs"
    and "\<forall>f \<in> set fs \<union> set gs. \<exists>g \<in> set hs. fee_id g = fee_id f \<and> fee_accountId g = fee_accountId f \<and> fee_currency g = fee_currency f"
  shows "entries_ok (posted t input n j) hs"
  unfolding entries_ok_def
proof (intro ballI impI)
  fix e assume e: "e \<in> set (entries (posted t input n j))" "ae_account e = PatronReceivable"
  then consider "e \<in> set (entries j)" | l where "l \<in> set (ji_legs input)" "e = entry_row t input l" by auto
  then have "\<exists>f \<in> set fs \<union> set gs. entry_of_fee e f"
  proof cases
    case 1
    then show ?thesis using assms(1) e(2) by (auto simp: entries_ok_def)
  next
    case 2
    then show ?thesis using assms(2) e(2) unfolding receivable_legs_ok_def entry_of_fee_def by fastforce
  qed
  then show "\<exists>f \<in> set hs. entry_of_fee e f" using assms(3) unfolding entry_of_fee_def by metis
qed

lemma post_balanced:
  assumes "balanced_journal (bk_journal db)" "post t input db = Inr db'"
  shows "balanced_journal (bk_journal db')"
  using assms by (auto simp: post_def bind_res_Inr_iff intro: postJournalWithin_balanced)

lemma applyAllocations_books_ok:
  assumes ok: "books_ok db" and fit: "allocations_fit k as (bk_fees db)"
    and plain: "ji_kind input \<noteq> TxReversal" "ji_reversesTransactionId input = None"
    and post: "post t input db = Inr db1"
    and legs: "\<forall>i. legs_balance i (ji_legs input) = - allocated_to i as"
      "receivable_legs_ok (ji_currency input) (ji_legs input) (bk_fees db)"
  shows "\<exists>db2. applyAllocations t k c as now db1 = Inr db2 \<and> books_ok db2"
proof -
  from post obtain n where db1: "db1 = db\<lparr>bk_journal := posted t input n (bk_journal db)\<rparr>"
    by (auto simp: post_Inr_iff [OF books_ok_journal [OF ok] plain])
  have dist: "distinct (map al_feeId as)" using fit by (simp add: allocations_fit_def)
  let ?rows = "map (\<lambda>a. \<lparr>fa_transactionId = t, fa_feeId = al_feeId a, fa_kind = k, fa_currency = c,
      fa_amountCents = al_amountCents a, fa_createdAt = now\<rparr>) as"
  let ?db2 = "db1\<lparr>bk_allocations := bk_allocations db1 @ ?rows, bk_fees := map (move_all k now as) (bk_fees db1)\<rparr>"
  have fees: "fee_ok f" "account_known (bk_accounts db) f" "counters_ok (bk_allocations db) f"
      "fee_balance (bk_journal db) (fee_id f) = charged f - settled f" if "f \<in> set (bk_fees db)" for f
    using that ok by (auto simp: books_ok_def)
  have row: "fee_row_ok (settled_row k (al_amountCents a) now f)"
    if "a \<in> set as" "f \<in> set (bk_fees db)" "fee_id f = al_feeId a" for a f
  proof -
    have found: "find (\<lambda>b. al_feeId b = fee_id f) as = Some a"
      using that dist by (induction as) auto
    then have "moves_ok k (al_amountCents a) f"
      using fit that(2) find_allocated [OF dist found] by (simp add: allocations_fit_def)
    then show ?thesis using fees(1) [OF that(2)] by (intro fee_row_ok_settled fee_ok_settled_row)
  qed
  have "applyAllocations t k c as now db1 = Inr ?db2"
  proof (cases "as = []")
    case True
    then show ?thesis by (simp add: applyAllocations_def)
  next
    case False
    have "\<not> list_ex (\<lambda>a. al_amountCents a = 0) as" using fit by (auto simp: allocations_fit_def list_ex_iff)
    moreover have "\<forall>a \<in> set as. \<forall>f \<in> set (bk_fees (db1\<lparr>bk_allocations := bk_allocations db1 @ ?rows\<rparr>)).
        fee_id f = al_feeId a \<longrightarrow> fee_row_ok (settled_row k (al_amountCents a) now f)"
      using row by (simp add: db1)
    ultimately show ?thesis
      using False update_fees_move_all [OF dist] by (simp add: applyAllocations_def)
  qed
  moreover have "books_ok ?db2"
  proof -
    have "one_open_accrual (map (move_all k now as) (bk_fees db))"
      by (rule one_open_accrual_map)
        (use ok fees(1) accruing_move_all in \<open>simp_all add: books_ok_def\<close>)
    moreover have "entries_ok (posted t input n (bk_journal db)) (map (move_all k now as) (bk_fees db))"
      by (rule entries_ok_posted [where fs = "bk_fees db" and gs = "bk_fees db"])
        (use ok legs(2) in \<open>auto simp: books_ok_def\<close>)
    moreover have "fa_feeId ` set (bk_allocations db @ ?rows) \<subseteq> fee_id ` set (bk_fees db)"
      using ok fit by (auto simp: books_ok_def allocations_fit_def)
    moreover have "counters_ok (bk_allocations db @ ?rows) (move_all k now as f)" if "f \<in> set (bk_fees db)" for f
      using fees(3) [OF that]
      by (simp add: counters_ok_def move_all_counters [OF dist] kind_sum_append kind_sum_rows)
    ultimately show ?thesis
      using ok fees post_balanced [OF books_ok_journal [OF ok] post] fit
      by (auto simp: books_ok_def settings_ok_def db1 account_known_def fee_ok_move_all fee_balance_posted
          legs(1) move_all_counters(4) [OF dist] comp_def image_image)
  qed
  ultimately show ?thesis by blast
qed

section \<open>Accounts\<close>

text \<open>What the patron's account is after \<open>accountForWithin\<close>, new or found.\<close>

definition account_of :: "string \<Rightarrow> string \<Rightarrow> string \<Rightarrow> patron_account list \<Rightarrow> bool" where
  "account_of i p c accounts \<longleftrightarrow> (\<exists>a \<in> set accounts. pa_id a = i \<and> pa_patronId a = p \<and> pa_currency a = c)"

lemma account_known_mono: "account_known as f \<Longrightarrow> set as \<subseteq> set bs \<Longrightarrow> account_known bs f"
  by (auto simp: account_known_def)

lemma account_found:
  "find (\<lambda>a. pa_patronId a = p \<and> pa_currency a = c) as = Some a \<Longrightarrow>
     a \<in> set as \<and> pa_patronId a = p \<and> pa_currency a = c"
  by (auto simp: find_Some_iff)

lemma accountForWithin_Inr:
  assumes "accountForWithin u p c now db = Inr (db1, i)"
  shows "\<exists>as. db1 = db\<lparr>bk_accounts := as\<rparr> \<and> set (bk_accounts db) \<subseteq> set as \<and> account_of i p c as \<and>
    (accounts_ok (bk_accounts db) \<longrightarrow> accounts_ok as)"
proof (cases "find (\<lambda>a. pa_patronId a = p \<and> pa_currency a = c) (bk_accounts db)")
  case None
  then have "\<not> (\<exists>a \<in> set (bk_accounts db). pa_patronId a = p \<and> pa_currency a = c)"
    by (auto simp: find_None_iff)
  with None assms show ?thesis
    by (auto simp: accountForWithin_def account_of_def accounts_ok_def list_ex_iff split: if_splits
        intro!: exI [of _ "bk_accounts db @ [\<lparr>pa_id = u, pa_patronId = p, pa_currency = c, pa_openedAt = now\<rparr>]"])
next
  case (Some a)
  with assms have "db1 = db" "i = pa_id a" by (auto simp: accountForWithin_def)
  then show ?thesis
    using account_found [OF Some] by (intro exI [of _ "bk_accounts db"]) (auto simp: account_of_def)
qed

lemma accountForWithin_ok:
  assumes "books_ok db" "accountForWithin u p c now db = Inr (db1, i)"
  shows "books_ok db1" "account_of i p c (bk_accounts db1)"
proof -
  from accountForWithin_Inr [OF assms(2)] obtain as where as: "db1 = db\<lparr>bk_accounts := as\<rparr>"
    "set (bk_accounts db) \<subseteq> set as" "account_of i p c as" "accounts_ok (bk_accounts db) \<longrightarrow> accounts_ok as"
    by blast
  show "books_ok db1"
    using assms(1) as by (auto simp: books_ok_def settings_ok_def intro: account_known_mono)
  show "account_of i p c (bk_accounts db1)" using as by simp
qed

lemma accountForWithin_total:
  "u \<notin> pa_id ` set (bk_accounts db) \<Longrightarrow> \<exists>r. accountForWithin u p c now db = Inr r"
  by (auto simp: accountForWithin_def list_ex_iff split: option.split)

lemma accountForWithin_rest:
  assumes "accountForWithin u p c now db = Inr (db1, i)"
  shows "bk_fees db1 = bk_fees db" "bk_journal db1 = bk_journal db" "bk_feeTypes db1 = bk_feeTypes db"
    "bk_paymentMethods db1 = bk_paymentMethods db" "bk_allocations db1 = bk_allocations db" "bk_drawers db1 = bk_drawers db"
  using accountForWithin_Inr [OF assms] by auto

lemma accounts_unique:
  assumes "accounts_ok as" "account_of i p c as" "account_known as f" "fee_patronId f = p" "fee_currency f = c"
  shows "fee_accountId f = i"
proof -
  from assms(2,3) obtain a b where "a \<in> set as" "pa_id a = i" "pa_patronId a = p" "pa_currency a = c"
    "b \<in> set as" "pa_id b = fee_accountId f" "pa_patronId b = fee_patronId f" "pa_currency b = fee_currency f"
    by (auto simp: account_of_def account_known_def)
  moreover from this have "a = b"
    using assms(1,4,5) by (auto simp: accounts_ok_def distinct_map dest: inj_onD)
  ultimately show ?thesis by simp
qed

section \<open>Charging\<close>

lemma kind_sum_absent: "fa_feeId ` set as \<subseteq> I \<Longrightarrow> i \<notin> I \<Longrightarrow> kind_sum ks i as = 0"
  by (induction as) (auto simp: kind_sum_def)

lemma fee_balance_absent:
  assumes "entries_ok j fs" "i \<notin> fee_id ` set fs"
  shows "fee_balance j i = 0"
proof -
  have "\<not> (ae_account e = PatronReceivable \<and> ae_feeId e = Some i)" if "e \<in> set (entries j)" for e
  proof
    assume e: "ae_account e = PatronReceivable \<and> ae_feeId e = Some i"
    with assms(1) that obtain f where "f \<in> set fs" "entry_of_fee e f" by (auto simp: entries_ok_def)
    with e assms(2) show False by (auto simp: entry_of_fee_def)
  qed
  then have "filter (\<lambda>e. ae_account e = PatronReceivable \<and> ae_feeId e = Some i) (entries j) = []"
    by (auto simp: filter_empty_conv)
  then show ?thesis by (simp add: fee_balance_def)
qed

lemma insert_fee_Inr_iff:
  "insert_fee f db = Inr db' \<longleftrightarrow> fee_row_ok f \<and> fee_id f \<notin> fee_id ` set (bk_fees db) \<and>
     (\<forall>l. open_accrual l f \<longrightarrow> (\<forall>g \<in> set (bk_fees db). \<not> open_accrual l g)) \<and>
     db' = db\<lparr>bk_fees := bk_fees db @ [f]\<rparr>"
proof -
  have "list_ex (\<lambda>g. fee_id g = fee_id f) (bk_fees db) \<longleftrightarrow> fee_id f \<in> fee_id ` set (bk_fees db)"
    unfolding list_ex_iff image_iff by metis
  then show ?thesis by (auto simp: insert_fee_def list_ex_iff open_accrual_def split: option.split)
qed

lemma new_fee_books_ok:
  assumes ok: "books_ok db" and ins: "insert_fee f db = Inr db1" and post: "post t input db1 = Inr db'"
    and plain: "ji_kind input \<noteq> TxReversal" "ji_reversesTransactionId input = None"
    and f: "fee_ok f" "account_known (bk_accounts db) f" "paid_cents f = 0" "waived_cents f = 0" "written_off_cents f = 0"
    and legs: "\<forall>i. legs_balance i (ji_legs input) = (if i = fee_id f then charged f else 0)"
      "receivable_legs_ok (ji_currency input) (ji_legs input) [f]"
  shows "books_ok db'"
proof -
  have db1: "db1 = db\<lparr>bk_fees := bk_fees db @ [f]\<rparr>" and fresh: "fee_id f \<notin> fee_id ` set (bk_fees db)"
    using ins by (simp_all add: insert_fee_Inr_iff)
  have journal: "balanced_journal (bk_journal db1)" using ok by (simp add: db1 books_ok_def)
  from post obtain n where "db' = db1\<lparr>bk_journal := posted t input n (bk_journal db1)\<rparr>"
    by (auto simp: post_Inr_iff [OF journal plain])
  then have db': "db' = db1\<lparr>bk_journal := posted t input n (bk_journal db)\<rparr>" by (simp add: db1)
  have one: "one_open_accrual (bk_fees db @ [f])"
    using ok ins unfolding one_open_accrual_def books_ok_def insert_fee_Inr_iff by auto
  have rows: "entries_ok (posted t input n (bk_journal db)) (bk_fees db @ [f])"
    by (rule entries_ok_posted [where fs = "bk_fees db" and gs = "[f]"]) (use ok legs(2) in \<open>auto simp: books_ok_def\<close>)
  have "kind_sum ks (fee_id f) (bk_allocations db) = 0" for ks
    by (rule kind_sum_absent [OF _ fresh]) (use ok in \<open>simp add: books_ok_def\<close>)
  then have "counters_ok (bk_allocations db) f" using f(3-5) by (simp add: counters_ok_def)
  moreover have "fee_balance (bk_journal db) (fee_id f) = 0"
    by (rule fee_balance_absent [OF _ fresh]) (use ok in \<open>simp add: books_ok_def\<close>)
  moreover have "settled f = 0" using f(3-5) by (simp add: settled_def)
  ultimately have new: "fee_ok f \<and> account_known (bk_accounts db) f \<and> counters_ok (bk_allocations db) f \<and>
      fee_balance (posted t input n (bk_journal db)) (fee_id f) = charged f - settled f"
    using f(1,2) by (simp add: fee_balance_posted legs(1))
  have old: "fee_ok g \<and> account_known (bk_accounts db) g \<and> counters_ok (bk_allocations db) g \<and>
      fee_balance (posted t input n (bk_journal db)) (fee_id g) = charged g - settled g"
    if "g \<in> set (bk_fees db)" for g
  proof -
    have "fee_id g \<noteq> fee_id f" using fresh that by (metis imageI)
    then show ?thesis using ok that by (simp add: books_ok_def fee_balance_posted legs(1))
  qed
  have "fa_feeId ` set (bk_allocations db) \<subseteq> insert (fee_id f) (fee_id ` set (bk_fees db))"
    using ok by (auto simp: books_ok_def)
  then show ?thesis
    using ok fresh one rows new old post_balanced [OF journal post]
    by (simp add: books_ok_def db' db1 settings_ok_def ball_Un le_supI1)
qed

lemma account_of_known: "account_of i p c as \<Longrightarrow> fee_accountId f = i \<Longrightarrow> fee_patronId f = p \<Longrightarrow>
    fee_currency f = c \<Longrightarrow> account_known as f"
  by (simp add: account_of_def account_known_def)

lemma charge_books_ok:
  assumes ok: "books_ok db" and run: "charge ids u now input db = Inr (db', r)"
  shows "books_ok db'"
proof -
  from run obtain ft db1 i db2 where pos: "0 < ci_amountCents input"
    and ft: "bk_feeTypes db (ci_feeTypeId input) = Some ft"
    and acc: "accountForWithin (new_account ids) (ci_patronId input) (ci_currency input) now db = Inr (db1, i)"
    and ins: "insert_fee (new_charge (new_fee ids) i now input) db1 = Inr db2"
    and post: "post (new_transaction ids) ((plain_journal TxCharge (ci_currency input) (ci_branchId input) (Some i)
        [debit_leg PatronReceivable (Some i) (ci_amountCents input) (Some (new_fee ids)),
         credit_leg (ft_revenueAccount ft) None (ci_amountCents input) (Some (new_fee ids))] now)
        \<lparr>ji_note := Some (ci_reason input), ji_actorUserId := u\<rparr>) db2 = Inr db'"
    by (auto simp: charge_def bind_res_Inr_iff split: if_splits option.splits)
  have revenue: "ft_revenueAccount ft \<noteq> PatronReceivable"
    using ok ft by (fastforce simp: books_ok_def settings_ok_def)
  show ?thesis
  proof (rule new_fee_books_ok [OF accountForWithin_ok(1) [OF ok acc] ins post])
    show "account_known (bk_accounts db1) (new_charge (new_fee ids) i now input)"
      by (rule account_of_known [OF accountForWithin_ok(2) [OF ok acc]]) (simp_all add: new_charge_def)
  qed (use pos revenue in \<open>auto simp: new_charge_def fee_ok_def charged_def settled_def receivable_legs_ok_def\<close>)
qed

section \<open>Settling and refunding\<close>

lemma compare_created_order: "keyed_comparator compare_created fee_id"
  by unfold_locales (auto simp: compare_created_def split: if_splits)

interpretation by_age: keyed_comparator compare_created fee_id
  by (rule compare_created_order)

lemma named_fees_subset: "set (named_fees is ts) \<subseteq> set ts"
  by (auto simp: named_fees_def split: option.split)

lemma named_fees_distinct: "distinct (map st_feeId ts) \<Longrightarrow> distinct (map st_feeId (named_fees is ts))"
  by (auto simp: named_fees_def distinct_map_filter split: option.split)

lemma mset_map_sort: "mset (map h (js_sort cmp xs)) = mset (map h xs)"
  by simp

lemma distinct_sorted_ids: "distinct (map h xs) \<Longrightarrow> distinct (map h (js_sort cmp xs))"
  by (metis mset_map_sort mset_eq_imp_distinct_iff)

lemma open_fees_facts:
  assumes "distinct (map fee_id (bk_fees db))"
  shows "distinct (map st_feeId (open_fees p c db))"
    and "t \<in> set (open_fees p c db) \<Longrightarrow> \<exists>f \<in> set (bk_fees db). st_feeId t = fee_id f \<and> st_cents t = owed_cents f \<and>
      fee_patronId f = p \<and> fee_currency f = c \<and> 0 < owed_cents f"
  using assms by (auto simp: open_fees_def comp_def intro!: distinct_sorted_ids distinct_map_filter)

lemma paid_fees_facts:
  assumes "distinct (map fee_id (bk_fees db))"
  shows "distinct (map st_feeId (paid_fees p c db))"
    and "t \<in> set (paid_fees p c db) \<Longrightarrow> \<exists>f \<in> set (bk_fees db). st_feeId t = fee_id f \<and> st_cents t = paid_cents f \<and>
      fee_patronId f = p \<and> fee_currency f = c \<and> 0 < paid_cents f"
  using assms by (auto simp: paid_fees_def comp_def intro!: distinct_sorted_ids distinct_map_filter)

text \<open>Allocations that take no more from a charge than its target offers fit the charges.\<close>

lemma shares_fit:
  assumes dist: "distinct (map fee_id fs)" "distinct (map st_feeId ts)"
    and targets: "\<forall>t \<in> set ts. \<exists>f \<in> set fs. st_feeId t = fee_id f \<and> 0 < st_cents t \<and> st_cents t \<le> offer f"
    and moves: "\<forall>f \<in> set fs. \<forall>n. 0 \<le> n \<and> (n = 0 \<or> n \<le> offer f) \<longrightarrow> moves_ok k (sign * n) f"
    and sign: "sign \<noteq> 0"
  shows "allocations_fit k (map (\<lambda>a. a\<lparr>al_amountCents := sign * al_amountCents a\<rparr>) (shares n [] ts)) fs"
proof -
  let ?as = "shares n [] ts"
  have ids: "al_feeId ` set ?as \<subseteq> st_feeId ` set ts" by (rule shares_ids)
  have scaled: "allocated_to i (map (\<lambda>a. a\<lparr>al_amountCents := sign * al_amountCents a\<rparr>) as) = sign * allocated_to i as" for i as
    by (induction as) (auto simp: algebra_simps)
  have "moves_ok k (sign * allocated_to (fee_id f) ?as) f" if f: "f \<in> set fs" for f
  proof (cases "fee_id f \<in> st_feeId ` set ts")
    case False
    then have "allocated_to (fee_id f) ?as = 0" using ids by (intro allocated_to_absent) auto
    moreover have "moves_ok k (sign * 0) f" using moves f by blast
    ultimately show ?thesis by simp
  next
    case True
    then obtain t where t: "t \<in> set ts" "st_feeId t = fee_id f" by auto
    with targets obtain g where g: "g \<in> set fs" "fee_id g = fee_id f" "0 < st_cents t" "st_cents t \<le> offer g" by auto
    have "g = f" using dist(1) f g by (auto simp: distinct_map dest: inj_onD)
    moreover have "allocated_to (fee_id f) ?as \<le> st_cents t"
      using allocated_to_shares [OF dist(2) t(1), of n "[]"] t(2) g(3) by (simp add: claim_of_def)
    ultimately show ?thesis using moves f g(4) allocated_to_shares_nonneg [of "fee_id f" n "[]" ts] by auto
  qed
  moreover have "al_feeId ` set ?as \<subseteq> fee_id ` set fs"
  proof -
    have "st_feeId ` set ts \<subseteq> fee_id ` set fs" using targets by auto
    then show ?thesis using ids by blast
  qed
  moreover have "distinct (map al_feeId ?as)" by (rule shares_distinct [OF dist(2)])
  moreover have "sign * al_amountCents a \<noteq> 0" if "a \<in> set ?as" for a
    using shares_positive [OF that] sign by simp
  ultimately show ?thesis by (simp add: allocations_fit_def scaled comp_def image_image)
qed

lemma books_ok_fees: "books_ok db \<Longrightarrow> distinct (map fee_id (bk_fees db))"
  "books_ok db \<Longrightarrow> f \<in> set (bk_fees db) \<Longrightarrow> fee_ok f \<and> account_known (bk_accounts db) f"
  "books_ok db \<Longrightarrow> accounts_ok (bk_accounts db)"
  by (auto simp: books_ok_def)

lemma target_account:
  assumes "books_ok db" "account_of i p c (bk_accounts db)" "f \<in> set (bk_fees db)" "fee_patronId f = p" "fee_currency f = c"
  shows "fee_accountId f = i"
  by (rule accounts_unique) (use assms books_ok_fees in blast)+

text \<open>The receivable legs of a plan, one for each allocation.\<close>

lemma legs_balance_credits:
  "legs_balance i (map (\<lambda>a. credit_leg PatronReceivable acc (al_amountCents a) (Some (al_feeId a))) as) = - allocated_to i as"
  by (induction as) auto

lemma legs_balance_debits:
  "legs_balance i (map (\<lambda>a. debit_leg PatronReceivable acc (- al_amountCents a) (Some (al_feeId a))) as) = - allocated_to i as"
  by (induction as) auto

lemma settlementAccountFor_library:
  assumes "books_ok db" "settlementAccountFor k m db = Inr acc"
  shows "\<not> isSubsidiary acc" "acc \<noteq> PatronReceivable"
  using assms by (fastforce simp: settlementAccountFor_def books_ok_def settings_ok_def isSubsidiary_iff
      split: if_splits option.splits)+

lemma alloc_kind_not_refund [simp]: "settle_alloc_kind k \<noteq> AllocRefund" "settle_tx_kind k \<noteq> TxReversal"
  by (cases k; simp)+

text \<open>A settlement: what the plan takes is open, so no constraint is in the way.\<close>

lemma open_shares_fit:
  assumes "books_ok db" "k \<noteq> AllocRefund"
  shows "allocations_fit k (shares n [] (named_fees is (open_fees p c db))) (bk_fees db)"
proof -
  note facts = open_fees_facts [OF books_ok_fees(1) [OF assms(1)]]
  have "allocations_fit k (map (\<lambda>a. a\<lparr>al_amountCents := 1 * al_amountCents a\<rparr>)
      (shares n [] (named_fees is (open_fees p c db)))) (bk_fees db)"
  proof (rule shares_fit [where offer = "\<lambda>f. charged f - settled f"])
    show "\<forall>t \<in> set (named_fees is (open_fees p c db)). \<exists>f \<in> set (bk_fees db). st_feeId t = fee_id f \<and>
        0 < st_cents t \<and> st_cents t \<le> charged f - settled f"
    proof
      fix t assume "t \<in> set (named_fees is (open_fees p c db))"
      then have "t \<in> set (open_fees p c db)" using named_fees_subset by blast
      from facts(2) [OF this] obtain f where f: "f \<in> set (bk_fees db)" "st_feeId t = fee_id f"
        "st_cents t = owed_cents f" "0 < owed_cents f" by blast
      moreover have "owed_cents f = charged f - settled f"
        using f(1) books_ok_fees(2) [OF assms(1)] owed_cents_ok by blast
      ultimately show "\<exists>f \<in> set (bk_fees db). st_feeId t = fee_id f \<and> 0 < st_cents t \<and> st_cents t \<le> charged f - settled f"
        by auto
    qed
    show "\<forall>f \<in> set (bk_fees db). \<forall>n. 0 \<le> n \<and> (n = 0 \<or> n \<le> charged f - settled f) \<longrightarrow> moves_ok k (1 * n) f"
      using books_ok_fees(2) [OF assms(1)] moves_ok_settle [OF _ assms(2)] by blast
  qed (use books_ok_fees(1) [OF assms(1)] named_fees_distinct [OF facts(1)] in simp_all)
  then show ?thesis by simp
qed

lemma paid_shares_fit:
  assumes "books_ok db"
  shows "allocations_fit AllocRefund (map (\<lambda>a. a\<lparr>al_amountCents := - al_amountCents a\<rparr>)
      (shares n [] (rev (named_fees is (paid_fees p c db))))) (bk_fees db)"
proof -
  note facts = paid_fees_facts [OF books_ok_fees(1) [OF assms]]
  have "allocations_fit AllocRefund (map (\<lambda>a. a\<lparr>al_amountCents := (-1) * al_amountCents a\<rparr>)
      (shares n [] (rev (named_fees is (paid_fees p c db))))) (bk_fees db)"
  proof (rule shares_fit [where offer = paid_cents])
    show "\<forall>t \<in> set (rev (named_fees is (paid_fees p c db))). \<exists>f \<in> set (bk_fees db). st_feeId t = fee_id f \<and>
        0 < st_cents t \<and> st_cents t \<le> paid_cents f"
      using facts(2) named_fees_subset by fastforce
    show "\<forall>f \<in> set (bk_fees db). \<forall>n. 0 \<le> n \<and> (n = 0 \<or> n \<le> paid_cents f) \<longrightarrow> moves_ok AllocRefund ((-1) * n) f"
      using books_ok_fees(2) [OF assms] moves_ok_refund by blast
    show "distinct (map st_feeId (rev (named_fees is (paid_fees p c db))))"
      using named_fees_distinct [OF facts(1)] by (simp add: rev_map [symmetric])
  qed (use books_ok_fees(1) [OF assms] in simp_all)
  then show ?thesis by simp
qed

text \<open>The charges a plan names are all on the patron's account, in its currency.\<close>

definition on_account :: "string \<Rightarrow> string \<Rightarrow> fee list \<Rightarrow> allocation list \<Rightarrow> bool" where
  "on_account i c fs as \<longleftrightarrow> (\<forall>a \<in> set as. \<exists>f \<in> set fs. al_feeId a = fee_id f \<and> i = fee_accountId f \<and> fee_currency f = c)"

lemma shares_on_account:
  assumes "books_ok db" "account_of i p c (bk_accounts db)"
    and "\<forall>t \<in> set ts. \<exists>f \<in> set (bk_fees db). st_feeId t = fee_id f \<and> fee_patronId f = p \<and> fee_currency f = c"
  shows "on_account i c (bk_fees db) (shares n [] ts)"
  unfolding on_account_def
proof
  fix a assume "a \<in> set (shares n [] ts)"
  then obtain t where "t \<in> set ts" "al_feeId a = st_feeId t" using shares_target by blast
  with assms(3) obtain f where "f \<in> set (bk_fees db)" "al_feeId a = fee_id f" "fee_patronId f = p" "fee_currency f = c"
    by metis
  with target_account [OF assms(1,2)]
  show "\<exists>f \<in> set (bk_fees db). al_feeId a = fee_id f \<and> i = fee_accountId f \<and> fee_currency f = c" by blast
qed

lemma settle_books_ok:
  assumes ok: "books_ok db" and run: "settle ids u now kind input db = Inr (db', plan)"
  shows "books_ok db'"
proof -
  from run obtain db1 i acc db2 where
    a: "accountForWithin (new_account ids) (si_patronId input) (si_currency input) now db = Inr (db1, i)"
    and p: "planSettlement (si_amountCents input)
      (named_fees (si_feeIds input) (open_fees (si_patronId input) (si_currency input) db1)) = Inr plan"
    and acc: "settlementAccountFor (Some kind) (si_paymentMethodId input) db1 = Inr acc"
    and post: "post (new_transaction ids) (settlement_journal (settle_tx_kind kind) u i
      (settle_legs i acc (si_amountCents input) plan) now input) db1 = Inr db2"
    and applied: "applyAllocations (new_transaction ids) (settle_alloc_kind kind) (si_currency input)
      (allocations plan) now db2 = Inr db'"
    by (auto simp: settle_def bind_res_Inr_iff split: if_splits)
  note ok1 = accountForWithin_ok [OF ok a]
  let ?ts = "named_fees (si_feeIds input) (open_fees (si_patronId input) (si_currency input) db1)"
  have as: "allocations plan = shares (si_amountCents input) [] ?ts"
    using p by (simp add: planSettlement_Inr_iff)
  have "\<forall>t \<in> set ?ts. \<exists>f \<in> set (bk_fees db1). st_feeId t = fee_id f \<and> fee_patronId f = si_patronId input \<and>
      fee_currency f = si_currency input"
    using open_fees_facts(2) [OF books_ok_fees(1) [OF ok1(1)]] named_fees_subset by fast
  then have on: "on_account i (si_currency input) (bk_fees db1) (allocations plan)"
    unfolding as by (rule shares_on_account [OF ok1])
  have "\<exists>db3. applyAllocations (new_transaction ids) (settle_alloc_kind kind) (si_currency input)
      (allocations plan) now db2 = Inr db3 \<and> books_ok db3"
  proof (rule applyAllocations_books_ok [OF ok1(1) _ _ _ post])
    show "allocations_fit (settle_alloc_kind kind) (allocations plan) (bk_fees db1)"
      unfolding as by (rule open_shares_fit [OF ok1(1)]) simp
  qed (use settlementAccountFor_library [OF ok1(1) acc] on in
      \<open>auto simp: settle_legs_def legs_balance_credits receivable_legs_ok_def on_account_def\<close>)
  with applied show ?thesis by simp
qed

lemma refund_books_ok:
  assumes ok: "books_ok db" and run: "refund ids u now input db = Inr (db', plan)"
  shows "books_ok db'"
proof -
  from run obtain db1 i acc db2 where
    a: "accountForWithin (new_account ids) (si_patronId input) (si_currency input) now db = Inr (db1, i)"
    and p: "planRefund (si_amountCents input)
      (named_fees (si_feeIds input) (paid_fees (si_patronId input) (si_currency input) db1)) = Inr plan"
    and acc: "settlementAccountFor None (si_paymentMethodId input) db1 = Inr acc"
    and post: "post (new_transaction ids) ((settlement_journal TxRefund u i
      (refund_legs i acc (si_amountCents input) plan) now input)\<lparr>ji_clientChangeId := None\<rparr>) db1 = Inr db2"
    and applied: "applyAllocations (new_transaction ids) AllocRefund (si_currency input) (allocations plan) now db2 = Inr db'"
    by (auto simp: refund_def bind_res_Inr_iff)
  note ok1 = accountForWithin_ok [OF ok a]
  let ?ts = "named_fees (si_feeIds input) (paid_fees (si_patronId input) (si_currency input) db1)"
  have as: "allocations plan = map (\<lambda>a. a\<lparr>al_amountCents := - al_amountCents a\<rparr>) (shares (si_amountCents input) [] (rev ?ts))"
    using p by (simp add: planRefund_Inr_iff)
  have "\<forall>t \<in> set (rev ?ts). \<exists>f \<in> set (bk_fees db1). st_feeId t = fee_id f \<and> fee_patronId f = si_patronId input \<and>
      fee_currency f = si_currency input"
    using paid_fees_facts(2) [OF books_ok_fees(1) [OF ok1(1)]] named_fees_subset by fastforce
  then have "on_account i (si_currency input) (bk_fees db1) (shares (si_amountCents input) [] (rev ?ts))"
    by (rule shares_on_account [OF ok1])
  then have on: "on_account i (si_currency input) (bk_fees db1) (allocations plan)"
    by (auto simp: as on_account_def)
  have "\<exists>db3. applyAllocations (new_transaction ids) AllocRefund (si_currency input) (allocations plan) now db2 =
      Inr db3 \<and> books_ok db3"
  proof (rule applyAllocations_books_ok [OF ok1(1) _ _ _ post])
    show "allocations_fit AllocRefund (allocations plan) (bk_fees db1)"
      unfolding as by (rule paid_shares_fit [OF ok1(1)])
  qed (use settlementAccountFor_library [OF ok1(1) acc] on in
      \<open>auto simp: refund_legs_def legs_balance_debits receivable_legs_ok_def on_account_def\<close>)
  with applied show ?thesis by simp
qed

section \<open>Which settlements are refused\<close>

lemma planSettlement_pos: "0 < n \<Longrightarrow> planSettlement n ts = Inr \<lparr>allocations = shares n [] ts,
     appliedCents = n - max 0 (n - claims ts), unappliedCents = max 0 (n - claims ts)\<rparr>"
  by (simp add: planSettlement_Inr_iff)

lemma settle_legs_sums:
  "leg_debits (settle_legs i acc n plan) = n"
  "leg_credits (settle_legs i acc n plan) = allocated (allocations plan) + max 0 (unappliedCents plan)"
proof -
  have "leg_credits (map (\<lambda>a. credit_leg PatronReceivable (Some i) (al_amountCents a) (Some (al_feeId a))) as) = allocated as"
    and "leg_debits (map (\<lambda>a. credit_leg PatronReceivable (Some i) (al_amountCents a) (Some (al_feeId a))) as) = 0" for as
    by (induction as) auto
  then show "leg_debits (settle_legs i acc n plan) = n"
    "leg_credits (settle_legs i acc n plan) = allocated (allocations plan) + max 0 (unappliedCents plan)"
    by (simp_all add: settle_legs_def)
qed

lemma settle_legs_balanced:
  assumes "planSettlement n ts = Inr plan" "\<not> isSubsidiary acc"
  shows "assertBalanced (settle_legs i acc n plan) = Inr n"
proof -
  from assms(1) have plan: "0 < n" "allocations plan = shares n [] ts" "unappliedCents plan = max 0 (n - claims ts)"
    by (auto simp: planSettlement_Inr_iff)
  have sum: "allocated (allocations plan) + unappliedCents plan = n"
    using plan(1) by (simp add: plan(2,3) allocated_shares)
  have "allocations plan \<noteq> [] \<or> 0 < unappliedCents plan" using sum plan(1) by auto
  then have "2 \<le> length (settle_legs i acc n plan)" by (cases "allocations plan") (auto simp: settle_legs_def)
  moreover have "\<forall>l \<in> set (settle_legs i acc n plan). leg_ok l"
    using plan(1) assms(2) shares_positive [of _ n "[]" ts]
    by (auto simp: settle_legs_def leg_ok_debit leg_ok_credit isSubsidiary_iff plan(2))
  ultimately show ?thesis
    using sum plan(3) by (simp add: assertBalanced_Inr_iff settle_legs_sums)
qed

definition fresh_ids :: "drawn_ids \<Rightarrow> string option \<Rightarrow> books \<Rightarrow> bool" where
  "fresh_ids ids c db \<longleftrightarrow> new_account ids \<notin> pa_id ` set (bk_accounts db) \<and>
     new_fee ids \<notin> fee_id ` set (bk_fees db) \<and> fresh_transaction (new_transaction ids) c (bk_journal db)"

definition settleable :: "settle_input \<Rightarrow> books \<Rightarrow> int" where
  "settleable input db = claims (named_fees (si_feeIds input) (open_fees (si_patronId input) (si_currency input) db))"

definition refundable_paid :: "settle_input \<Rightarrow> books \<Rightarrow> int" where
  "refundable_paid input db = claims (named_fees (si_feeIds input) (paid_fees (si_patronId input) (si_currency input) db))"

lemma queries_rest:
  assumes "bk_fees db1 = bk_fees db" "bk_paymentMethods db1 = bk_paymentMethods db"
  shows "open_fees p c db1 = open_fees p c db" "paid_fees p c db1 = paid_fees p c db"
    "settlementAccountFor k m db1 = settlementAccountFor k m db"
  using assms by (simp_all add: open_fees_def paid_fees_def settlementAccountFor_def cong: option.case_cong)

lemma settle_succeeds:
  assumes ok: "books_ok db" and fresh: "fresh_ids ids (si_clientChangeId input) db"
    and pos: "0 < si_amountCents input" and covered: "kind \<noteq> SettlePayment \<Longrightarrow> si_amountCents input \<le> settleable input db"
    and acc: "settlementAccountFor (Some kind) (si_paymentMethodId input) db = Inr acc"
  shows "\<exists>r. settle ids u now kind input db = Inr r"
proof -
  obtain db1 i where a: "accountForWithin (new_account ids) (si_patronId input) (si_currency input) now db = Inr (db1, i)"
    using accountForWithin_total [of "new_account ids" db] fresh unfolding fresh_ids_def by fastforce
  note ok1 = accountForWithin_ok [OF ok a] and rest = accountForWithin_rest [OF a]
  note same = queries_rest [OF rest(1,4)]
  let ?ts = "named_fees (si_feeIds input) (open_fees (si_patronId input) (si_currency input) db1)"
  define plan where "plan = \<lparr>allocations = shares (si_amountCents input) [] ?ts,
    appliedCents = si_amountCents input - max 0 (si_amountCents input - claims ?ts),
    unappliedCents = max 0 (si_amountCents input - claims ?ts)\<rparr>"
  have p: "planSettlement (si_amountCents input) ?ts = Inr plan" using pos by (simp add: planSettlement_Inr_iff plan_def)
  have lib: "\<not> isSubsidiary acc" using settlementAccountFor_library [OF ok acc] by simp
  obtain db2 where post: "post (new_transaction ids) (settlement_journal (settle_tx_kind kind) u i
      (settle_legs i acc (si_amountCents input) plan) now input) db1 = Inr db2"
    using settle_legs_balanced [OF p lib] fresh
    by (auto simp: post_Inr_iff [OF books_ok_journal [OF ok1(1)]] rest(2) fresh_ids_def)
  have "\<forall>t \<in> set ?ts. \<exists>f \<in> set (bk_fees db1). st_feeId t = fee_id f \<and> fee_patronId f = si_patronId input \<and>
      fee_currency f = si_currency input"
    using open_fees_facts(2) [OF books_ok_fees(1) [OF ok1(1)]] named_fees_subset by fast
  then have on: "on_account i (si_currency input) (bk_fees db1) (allocations plan)"
    unfolding plan_def by (simp add: shares_on_account [OF ok1])
  have "\<exists>db3. applyAllocations (new_transaction ids) (settle_alloc_kind kind) (si_currency input)
      (allocations plan) now db2 = Inr db3 \<and> books_ok db3"
  proof (rule applyAllocations_books_ok [OF ok1(1) _ _ _ post])
    show "allocations_fit (settle_alloc_kind kind) (allocations plan) (bk_fees db1)"
      unfolding plan_def by (simp add: open_shares_fit [OF ok1(1)])
  qed (use lib on in \<open>auto simp: settle_legs_def legs_balance_credits receivable_legs_ok_def on_account_def isSubsidiary_iff\<close>)
  moreover have "\<not> (0 < unappliedCents plan \<and> kind \<noteq> SettlePayment)"
    using covered by (cases "kind = SettlePayment") (simp_all add: plan_def settleable_def same)
  ultimately show ?thesis
    using pos a p acc post by (auto simp: settle_def same(3))
qed

lemma settle_refuses:
  assumes "books_ok db" "fresh_ids ids (si_clientChangeId input) db"
  shows "settle ids u now kind input db = Inl e \<longleftrightarrow>
    (if si_amountCents input \<le> 0 \<or> kind \<noteq> SettlePayment \<and> settleable input db < si_amountCents input then e = BadRequest
     else settlementAccountFor (Some kind) (si_paymentMethodId input) db = Inl e)"
proof -
  obtain db1 i where a: "accountForWithin (new_account ids) (si_patronId input) (si_currency input) now db = Inr (db1, i)"
    using accountForWithin_total [of "new_account ids" db] assms(2) unfolding fresh_ids_def by fastforce
  note same = queries_rest [OF accountForWithin_rest(1,4) [OF a]]
  consider "si_amountCents input \<le> 0" | "0 < si_amountCents input" "kind \<noteq> SettlePayment" "settleable input db < si_amountCents input"
    | "0 < si_amountCents input" "kind \<noteq> SettlePayment \<longrightarrow> si_amountCents input \<le> settleable input db" by linarith
  then show ?thesis
  proof cases
    case 1
    then show ?thesis by (auto simp: settle_def)
  next
    case 2
    then show ?thesis
      by (auto simp: settle_def a same settleable_def planSettlement_pos)
  next
    case 3
    then have cond: "\<not> (si_amountCents input \<le> 0 \<or> kind \<noteq> SettlePayment \<and> settleable input db < si_amountCents input)"
      by auto
    show ?thesis
    proof (cases "settlementAccountFor (Some kind) (si_paymentMethodId input) db")
      case (Inr acc)
      with settle_succeeds [OF assms 3(1) _ Inr] 3(2) obtain r where "settle ids u now kind input db = Inr r" by blast
      then show ?thesis unfolding if_not_P [OF cond] using Inr by simp
    next
      case (Inl x)
      let ?p = "planSettlement (si_amountCents input)
        (named_fees (si_feeIds input) (open_fees (si_patronId input) (si_currency input) db))"
      obtain plan where p: "?p = Inr plan" "0 < unappliedCents plan \<longrightarrow> kind = SettlePayment"
        using 3 planSettlement_Inr_iff [of "si_amountCents input"] by (auto simp: settleable_def)
      then show ?thesis using Inl cond 3(1) by (auto simp: settle_def a same)
    qed
  qed
qed

end
