(* ===== verification/Fee_Accrual.thy ===== *)
theory Fee_Accrual
  imports Fee_Invariant
begin

text \<open>
  The overdue accrual (\<open>apps/api/src/fees/fee-accrual.ts\<close>): the upsert of the one open accruing
  charge of a loan, and a journal for the difference between what the charge says and what its
  receivable carries.
\<close>

record accrual_input =
  ac_loanId :: string
  ac_patronId :: string
  ac_accountId :: string
  ac_feeTypeId :: string
  ac_revenueAccount :: ledger_account
  ac_branchId :: string
  ac_currency :: string
  ac_itemId :: "string option"
  ac_totalCents :: int
  ac_accruedThrough :: int
  ac_reason :: string
  ac_now :: int

record accrual_outcome =
  ao_feeId :: string
  ao_deltaCents :: int
  ao_transactionId :: "string option"

definition accrued_fee :: "string \<Rightarrow> accrual_input \<Rightarrow> fee" where
  "accrued_fee feeId input = \<lparr>fee_id = feeId, fee_accountId = ac_accountId input, fee_patronId = ac_patronId input,
     fee_typeId = ac_feeTypeId input, fee_currency = ac_currency input, fee_loanId = Some (ac_loanId input),
     fee_itemId = ac_itemId input, fee_holdId = None, fee_branchId = ac_branchId input,
     amount_cents = ac_totalCents input, tax_cents = 0, paid_cents = 0, waived_cents = 0, written_off_cents = 0,
     fee_status = Outstanding, is_accruing = True, accrued_through = Some (ac_accruedThrough input),
     fee_reason = ac_reason input, created_at = ac_now input, closed_at = None, archived_at = None\<rparr>"

definition topped_up :: "accrual_input \<Rightarrow> fee \<Rightarrow> fee" where
  "topped_up input f = f\<lparr>amount_cents := max (amount_cents f) (ac_totalCents input),
     accrued_through := Some (ac_accruedThrough input)\<rparr>"

text \<open>The \<open>INSERT \<dots> ON CONFLICT \<dots> DO UPDATE \<dots> RETURNING\<close>. A row check is made of the row
  proposed, before the conflict is looked for.\<close>

definition upsert_accrual :: "string \<Rightarrow> accrual_input \<Rightarrow> books \<Rightarrow> fault + books \<times> fee" where
  "upsert_accrual feeId input db =
     (if \<not> fee_row_ok (accrued_fee feeId input) then Inl (CheckViolation ''fees'')
      else case find (open_accrual (ac_loanId input)) (bk_fees db) of
        Some f \<Rightarrow> Inr (db\<lparr>bk_fees := map (\<lambda>g. if fee_id g = fee_id f then topped_up input g else g) (bk_fees db)\<rparr>,
          topped_up input f)
      | None \<Rightarrow> bind_res (insert_fee (accrued_fee feeId input) db) (\<lambda>db1. Inr (db1, accrued_fee feeId input)))"

definition accrual_journal :: "accrual_input \<Rightarrow> string \<Rightarrow> int \<Rightarrow> journal_input" where
  "accrual_journal input feeId delta =
     (let grew = 0 < delta; magnitude = (if grew then delta else - delta) in
      (plain_journal (if grew then TxCharge else TxCancellation) (ac_currency input) (ac_branchId input)
        (Some (ac_accountId input))
        (if grew then
          [debit_leg PatronReceivable (Some (ac_accountId input)) magnitude (Some feeId),
           credit_leg (ac_revenueAccount input) None magnitude (Some feeId)]
         else
          [debit_leg (ac_revenueAccount input) None magnitude (Some feeId),
           credit_leg PatronReceivable (Some (ac_accountId input)) magnitude (Some feeId)]) (ac_now input))
      \<lparr>ji_note := Some (ac_reason input)\<rparr>)"

definition accrueWithin :: "drawn_ids \<Rightarrow> accrual_input \<Rightarrow> books \<Rightarrow> fault + books \<times> accrual_outcome" where
  "accrueWithin ids input db =
     bind_res (upsert_accrual (new_fee ids) input db) (\<lambda>(db1, fee).
       let already = fee_balance (bk_journal db1) (fee_id fee);
           delta = charged fee - already in
       if delta = 0 then Inr (db1, \<lparr>ao_feeId = fee_id fee, ao_deltaCents = 0, ao_transactionId = None\<rparr>)
       else bind_res (post (new_transaction ids) (accrual_journal input (fee_id fee) delta) db1) (\<lambda>db2.
         Inr (db2, \<lparr>ao_feeId = fee_id fee, ao_deltaCents = delta, ao_transactionId = Some (new_transaction ids)\<rparr>)))"

section \<open>What the sweep is given\<close>

text \<open>The caller looks the account up by patron and currency; the open accrual of the loan, if
  there is one, was raised the same way.\<close>

definition accrual_fits :: "accrual_input \<Rightarrow> books \<Rightarrow> bool" where
  "accrual_fits input db \<longleftrightarrow>
     account_of (ac_accountId input) (ac_patronId input) (ac_currency input) (bk_accounts db) \<and>
     ac_revenueAccount input \<in> {FineRevenue, ReplacementRevenue, ServiceRevenue} \<and>
     (\<forall>f \<in> set (bk_fees db). open_accrual (ac_loanId input) f \<longrightarrow>
       fee_accountId f = ac_accountId input \<and> fee_currency f = ac_currency input)"

lemma accrued_fee_simps [simp]:
  "fee_id (accrued_fee i input) = i" "charged (accrued_fee i input) = ac_totalCents input"
  "settled (accrued_fee i input) = 0" "open_accrual l (accrued_fee i input) \<longleftrightarrow> l = ac_loanId input"
  "fee_accountId (accrued_fee i input) = ac_accountId input" "fee_currency (accrued_fee i input) = ac_currency input"
  "fee_patronId (accrued_fee i input) = ac_patronId input" "paid_cents (accrued_fee i input) = 0"
  "waived_cents (accrued_fee i input) = 0" "written_off_cents (accrued_fee i input) = 0"
  "owed_cents (accrued_fee i input) = ac_totalCents input"
  by (auto simp: accrued_fee_def charged_def settled_def open_accrual_def owed_cents_def)

lemma topped_up_simps [simp]:
  "fee_id (topped_up input f) = fee_id f" "settled (topped_up input f) = settled f"
  "fee_accountId (topped_up input f) = fee_accountId f" "fee_currency (topped_up input f) = fee_currency f"
  "fee_patronId (topped_up input f) = fee_patronId f" "fee_loanId (topped_up input f) = fee_loanId f"
  "closed_at (topped_up input f) = closed_at f" "is_accruing (topped_up input f) = is_accruing f"
  "paid_cents (topped_up input f) = paid_cents f" "waived_cents (topped_up input f) = waived_cents f"
  "written_off_cents (topped_up input f) = written_off_cents f" "tax_cents (topped_up input f) = tax_cents f"
  "archived_at (topped_up input f) = archived_at f"
  by (simp_all add: topped_up_def settled_def)

lemma charged_topped_up: "charged f \<le> charged (topped_up input f)"
    "tax_cents f = 0 \<Longrightarrow> charged (topped_up input f) = max (charged f) (ac_totalCents input)"
  by (auto simp: topped_up_def charged_def)

lemma open_accrual_topped_up [simp]: "open_accrual l (topped_up input f) = open_accrual l f"
  by (simp add: open_accrual_def)

lemma fee_ok_topped_up: "fee_ok f \<Longrightarrow> open_accrual l f \<Longrightarrow> fee_ok (topped_up input f)"
  using charged_topped_up(1) [of f input] by (auto simp: fee_ok_def open_accrual_def topped_up_def charged_def settled_def)

lemma accrual_journal_simps [simp]:
  "ji_kind (accrual_journal input i d) \<noteq> TxReversal" "ji_reversesTransactionId (accrual_journal input i d) = None"
  "ji_currency (accrual_journal input i d) = ac_currency input" "ji_clientChangeId (accrual_journal input i d) = None"
  by (simp_all add: accrual_journal_def Let_def)

lemma revenue_not_receivable:
  "accrual_fits input db \<Longrightarrow> ac_revenueAccount input \<noteq> PatronReceivable \<and> \<not> isSubsidiary (ac_revenueAccount input)"
  by (auto simp: accrual_fits_def isSubsidiary_iff)

text \<open>Whichever way it goes, the receivable of the charge moves by the difference.\<close>

lemma accrual_legs_balance:
  "accrual_fits input db \<Longrightarrow> d \<noteq> 0 \<Longrightarrow> legs_balance j (ji_legs (accrual_journal input i d)) = (if j = i then d else 0)"
  using revenue_not_receivable [of input db] by (auto simp: accrual_journal_def Let_def)

lemma accrual_legs_ok:
  "accrual_fits input db \<Longrightarrow> f \<in> set fs \<Longrightarrow> fee_id f = i \<Longrightarrow> fee_accountId f = ac_accountId input \<Longrightarrow>
     fee_currency f = ac_currency input \<Longrightarrow>
     receivable_legs_ok (ac_currency input) (ji_legs (accrual_journal input i d)) fs"
  using revenue_not_receivable [of input db] by (auto simp: accrual_journal_def Let_def receivable_legs_ok_def)

lemma accrual_balanced:
  "accrual_fits input db \<Longrightarrow> d \<noteq> 0 \<Longrightarrow> assertBalanced (ji_legs (accrual_journal input i d)) = Inr \<bar>d\<bar>"
  using revenue_not_receivable [of input db]
  by (auto simp: accrual_journal_def Let_def assertBalanced_Inr_iff leg_ok_debit leg_ok_credit isSubsidiary_iff)

section \<open>The first accrual of a loan\<close>

lemma find_open_None: "find (open_accrual l) fs = None \<longleftrightarrow> (\<forall>f \<in> set fs. \<not> open_accrual l f)"
  by (auto simp: find_None_iff)

lemma find_open_Some: "find (open_accrual l) fs = Some f \<Longrightarrow> f \<in> set fs \<and> open_accrual l f"
  by (auto simp: find_Some_iff)

lemma accrue_first:
  assumes ok: "books_ok db" and fits: "accrual_fits input db"
    and none: "\<forall>f \<in> set (bk_fees db). \<not> open_accrual (ac_loanId input) f"
    and run: "accrueWithin ids input db = Inr (db', out)"
  shows "books_ok db'" "bk_fees db' = bk_fees db @ [accrued_fee (new_fee ids) input]"
    "ao_deltaCents out = ac_totalCents input" "ao_feeId out = new_fee ids"
proof -
  let ?f = "accrued_fee (new_fee ids) input"
  let ?db1 = "db\<lparr>bk_fees := bk_fees db @ [?f]\<rparr>"
  from none have find: "find (open_accrual (ac_loanId input)) (bk_fees db) = None" by (simp add: find_open_None)
  from run have row: "fee_row_ok ?f" by (auto simp: accrueWithin_def upsert_accrual_def bind_res_Inr_iff split: if_splits)
  then have pos: "0 < ac_totalCents input" by (simp add: fee_row_ok_def accrued_fee_def)
  from run row find have ins: "insert_fee ?f db = Inr ?db1"
    by (auto simp: accrueWithin_def upsert_accrual_def bind_res_Inr_iff insert_fee_Inr_iff)
  then have "fee_id ?f \<notin> fee_id ` set (bk_fees db)" unfolding insert_fee_Inr_iff by blast
  then have zero: "fee_balance (bk_journal db) (new_fee ids) = 0"
    using ok by (intro fee_balance_absent [where fs = "bk_fees db"]) (simp_all add: books_ok_def)
  have post: "post (new_transaction ids) (accrual_journal input (new_fee ids) (ac_totalCents input)) ?db1 = Inr db'"
    and out: "ao_deltaCents out = ac_totalCents input" "ao_feeId out = new_fee ids"
    using run row find ins pos zero
    by (auto simp: accrueWithin_def upsert_accrual_def bind_res_Inr_iff Let_def)
  show "books_ok db'"
  proof (rule new_fee_books_ok [OF ok ins post])
    show "account_known (bk_accounts db) ?f"
      using fits by (intro account_of_known) (auto simp: accrual_fits_def)
    show "fee_ok ?f" using pos by (simp add: fee_ok_def) (simp add: accrued_fee_def)
    show "receivable_legs_ok (ji_currency (accrual_journal input (new_fee ids) (ac_totalCents input)))
        (ji_legs (accrual_journal input (new_fee ids) (ac_totalCents input))) [?f]"
      unfolding accrual_journal_simps by (rule accrual_legs_ok [OF fits, where f = ?f]) simp_all
  qed (use pos accrual_legs_balance [OF fits] in simp_all)
  have "balanced_journal (bk_journal ?db1)" using ok by (simp add: books_ok_def)
  with post show "bk_fees db' = bk_fees db @ [?f]" by (auto simp: post_Inr_iff)
  show "ao_deltaCents out = ac_totalCents input" "ao_feeId out = new_fee ids" by (rule out)+
qed

section \<open>Topping up an open accrual\<close>

definition topped_fees :: "accrual_input \<Rightarrow> fee \<Rightarrow> fee list \<Rightarrow> fee list" where
  "topped_fees input f fs = map (\<lambda>g. if fee_id g = fee_id f then topped_up input g else g) fs"

lemma topped_fees_simps [simp]:
  "map fee_id (topped_fees input f fs) = map fee_id fs"
  by (simp add: topped_fees_def comp_def)

text \<open>The receivable of the open accrual ends at what was charged, whatever was settled on it.\<close>

lemma accrue_top_up:
  assumes ok: "books_ok db" and fits: "accrual_fits input db"
    and f: "f \<in> set (bk_fees db)" "open_accrual (ac_loanId input) f"
    and run: "accrueWithin ids input db = Inr (db', out)"
  shows "\<exists>j. db' = db\<lparr>bk_fees := topped_fees input f (bk_fees db), bk_journal := j\<rparr> \<and> balanced_journal j \<and>
      entries_ok j (topped_fees input f (bk_fees db)) \<and>
      (\<forall>i. fee_balance j i = (if i = fee_id f then charged (topped_up input f) else fee_balance (bk_journal db) i))"
    and "ao_deltaCents out = charged (topped_up input f) - charged f + settled f" "ao_feeId out = fee_id f"
proof -
  let ?db1 = "db\<lparr>bk_fees := topped_fees input f (bk_fees db)\<rparr>"
  let ?d = "charged (topped_up input f) - charged f + settled f"
  obtain g where g: "find (open_accrual (ac_loanId input)) (bk_fees db) = Some g"
    using f find_open_None [of "ac_loanId input" "bk_fees db"]
    by (cases "find (open_accrual (ac_loanId input)) (bk_fees db)") auto
  have "one_open_accrual (bk_fees db)" using ok by (simp add: books_ok_def)
  then have "fee_id g = fee_id f"
    using find_open_Some [OF g] f unfolding one_open_accrual_def by blast
  then have "g = f"
    using find_open_Some [OF g] f(1) books_ok_fees(1) [OF ok] by (auto simp: distinct_map dest: inj_onD)
  note found = g [unfolded \<open>g = f\<close>]
  have already: "fee_balance (bk_journal db) (fee_id f) = charged f - settled f"
    using ok f(1) by (simp add: books_ok_def)
  have entries: "entries_ok j (topped_fees input f (bk_fees db))" if "entries_ok j (bk_fees db)" for j
    unfolding entries_ok_def
  proof (intro ballI impI)
    fix e assume "e \<in> set (entries j)" "ae_account e = PatronReceivable"
    with that obtain h where h: "h \<in> set (bk_fees db)" "entry_of_fee e h" unfolding entries_ok_def by blast
    then show "\<exists>h \<in> set (topped_fees input f (bk_fees db)). entry_of_fee e h"
      unfolding topped_fees_def set_map
      by (intro bexI [where x = "if fee_id h = fee_id f then topped_up input h else h"]) (auto simp: entry_of_fee_def)
  qed
  have journal: "balanced_journal (bk_journal ?db1)" "entries_ok (bk_journal db) (bk_fees db)"
    using ok by (simp_all add: books_ok_def)
  have step: "(if ?d = 0 then Inr (?db1, \<lparr>ao_feeId = fee_id f, ao_deltaCents = 0, ao_transactionId = None\<rparr>)
      else bind_res (post (new_transaction ids) (accrual_journal input (fee_id f) ?d) ?db1) (\<lambda>db2.
        Inr (db2, \<lparr>ao_feeId = fee_id f, ao_deltaCents = ?d, ao_transactionId = Some (new_transaction ids)\<rparr>))) = Inr (db', out)"
  proof -
    have up: "upsert_accrual (new_fee ids) input db = Inr (?db1, topped_up input f)"
      using run found by (auto simp: accrueWithin_def upsert_accrual_def topped_fees_def split: if_splits)
    have moved: "charged (topped_up input f) - fee_balance (bk_journal ?db1) (fee_id f) = ?d"
      by (simp add: already)
    show ?thesis using run
      by (simp only: accrueWithin_def up bind_res.simps prod.case Let_def moved topped_up_simps(1))
  qed
  show "\<exists>j. db' = db\<lparr>bk_fees := topped_fees input f (bk_fees db), bk_journal := j\<rparr> \<and> balanced_journal j \<and>
      entries_ok j (topped_fees input f (bk_fees db)) \<and>
      (\<forall>i. fee_balance j i = (if i = fee_id f then charged (topped_up input f) else fee_balance (bk_journal db) i))"
  proof (cases "?d = 0")
    case True
    then show ?thesis
      using step journal entries [OF journal(2)] already by (intro exI [of _ "bk_journal db"]) auto
  next
    case False
    with step have post: "post (new_transaction ids) (accrual_journal input (fee_id f) ?d) ?db1 = Inr db'"
      by (auto simp: bind_res_Inr_iff)
    from post obtain n where db': "db' = ?db1\<lparr>bk_journal := posted (new_transaction ids)
        (accrual_journal input (fee_id f) ?d) n (bk_journal ?db1)\<rparr>"
      by (auto simp: post_Inr_iff [OF journal(1)])
    let ?j = "posted (new_transaction ids) (accrual_journal input (fee_id f) ?d) n (bk_journal db)"
    have "receivable_legs_ok (ac_currency input) (ji_legs (accrual_journal input (fee_id f) ?d)) (bk_fees db)"
      by (rule accrual_legs_ok [OF fits f(1)]) (use fits f in \<open>auto simp: accrual_fits_def\<close>)
    then have "entries_ok ?j (bk_fees db)"
      by (intro entries_ok_posted [OF journal(2), where gs = "bk_fees db"]) auto
    moreover have "balanced_journal ?j" using post_balanced [OF journal(1) post] db' by simp
    moreover have "fee_balance ?j i = (if i = fee_id f then charged (topped_up input f) else fee_balance (bk_journal db) i)" for i
      using accrual_legs_balance [OF fits False, of i "fee_id f"] already by (simp add: fee_balance_posted)
    ultimately show ?thesis using db' entries by (intro exI [of _ ?j]) simp
  qed
  show "ao_deltaCents out = ?d" "ao_feeId out = fee_id f"
    using step by (auto simp: bind_res_Inr_iff split: if_splits)
qed

lemma topped_fees_open: "one_open_accrual fs \<Longrightarrow> one_open_accrual (topped_fees input f fs)"
  unfolding topped_fees_def by (rule one_open_accrual_map) (auto split: if_splits)

text \<open>With nothing settled on it, an accrual keeps the books true.\<close>

lemma accrue_top_up_books_ok:
  assumes ok: "books_ok db" and fits: "accrual_fits input db"
    and f: "f \<in> set (bk_fees db)" "open_accrual (ac_loanId input) f" "settled f = 0"
    and run: "accrueWithin ids input db = Inr (db', out)"
  shows "books_ok db'"
proof -
  from accrue_top_up(1) [OF ok fits f(1,2) run] obtain j where
    db': "db' = db\<lparr>bk_fees := topped_fees input f (bk_fees db), bk_journal := j\<rparr>"
    and j: "balanced_journal j" "entries_ok j (topped_fees input f (bk_fees db))"
      "\<forall>i. fee_balance j i = (if i = fee_id f then charged (topped_up input f) else fee_balance (bk_journal db) i)"
    by blast
  have row: "fee_ok h \<and> account_known (bk_accounts db) h \<and> counters_ok (bk_allocations db) h \<and>
      fee_balance j (fee_id h) = charged h - settled h" if "h \<in> set (topped_fees input f (bk_fees db))" for h
  proof -
    from that obtain g where g: "g \<in> set (bk_fees db)" "h = (if fee_id g = fee_id f then topped_up input g else g)"
      by (auto simp: topped_fees_def)
    have gf: "g = f" if "fee_id g = fee_id f"
      using that g(1) f(1) books_ok_fees(1) [OF ok] by (auto simp: distinct_map dest: inj_onD)
    from ok g(1) have "fee_ok g" "account_known (bk_accounts db) g" "counters_ok (bk_allocations db) g"
      "fee_balance (bk_journal db) (fee_id g) = charged g - settled g" by (auto simp: books_ok_def)
    then show ?thesis
      using g(2) gf f(2,3) j(3) fee_ok_topped_up [of f "ac_loanId input" input]
      by (auto simp: account_known_def counters_ok_def)
  qed
  have "distinct (map fee_id (topped_fees input f (bk_fees db)))" using books_ok_fees(1) [OF ok] by simp
  moreover have "fee_id ` set (topped_fees input f (bk_fees db)) = fee_id ` set (bk_fees db)"
    by (metis topped_fees_simps set_map)
  moreover have "one_open_accrual (topped_fees input f (bk_fees db))"
    using ok by (intro topped_fees_open) (simp add: books_ok_def)
  ultimately show ?thesis
    using ok j(1,2) row by (simp add: books_ok_def db' settings_ok_def)
qed

lemma accrue_books_ok:
  assumes "books_ok db" "accrual_fits input db" "accrueWithin ids input db = Inr (db', out)"
    and "\<forall>f \<in> set (bk_fees db). open_accrual (ac_loanId input) f \<longrightarrow> settled f = 0"
  shows "books_ok db'"
proof (cases "\<exists>f \<in> set (bk_fees db). open_accrual (ac_loanId input) f")
  case True
  then show ?thesis using assms accrue_top_up_books_ok by blast
next
  case False
  then show ?thesis using accrue_first(1) [OF assms(1,2) _ assms(3)] by blast
qed

text \<open>With something settled on it, the difference is posted as a new charge on the receivable,
  which then carries that much more than the charges say is owed.\<close>

lemma sum_list_single:
  "distinct (map fee_id fs) \<Longrightarrow> f \<in> set fs \<Longrightarrow> sum_list (map (\<lambda>g. if fee_id g = fee_id f then (x::int) else 0) fs) = x"
proof (induction fs)
  case (Cons g fs)
  have "sum_list (map (\<lambda>h. if fee_id h = fee_id f then x else 0) hs) = 0" if "fee_id f \<notin> fee_id ` set hs" for hs
    using that by (induction hs) auto
  with Cons show ?case by (auto simp: image_iff)
qed simp

lemma accrue_drift:
  assumes ok: "books_ok db" and fits: "accrual_fits input db"
    and f: "f \<in> set (bk_fees db)" "open_accrual (ac_loanId input) f"
    and run: "accrueWithin ids input db = Inr (db', out)"
  shows "ledger_balance db' (ac_accountId input) (ac_currency input) =
    fees_balance db' (ac_accountId input) (ac_currency input) + settled f"
proof -
  from accrue_top_up(1) [OF ok fits f run] obtain j where
    db': "db' = db\<lparr>bk_fees := topped_fees input f (bk_fees db), bk_journal := j\<rparr>"
    and j: "entries_ok j (topped_fees input f (bk_fees db))"
      "\<forall>i. fee_balance j i = (if i = fee_id f then charged (topped_up input f) else fee_balance (bk_journal db) i)"
    by blast
  let ?own = "\<lambda>g. fee_accountId g = ac_accountId input \<and> fee_currency g = ac_currency input"
  let ?gs = "filter ?own (topped_fees input f (bk_fees db))"
  have dist: "distinct (map fee_id (topped_fees input f (bk_fees db)))" using books_ok_fees(1) [OF ok] by simp
  have "ledger_balance db' (ac_accountId input) (ac_currency input) = sum_list (map (\<lambda>g. fee_balance j (fee_id g)) ?gs)"
    using ledger_balance_fees [of db' "ac_accountId input" "ac_currency input"] dist j(1) by (simp add: db')
  also have "\<dots> = sum_list (map (\<lambda>g. owed_cents g + (if fee_id g = fee_id f then settled f else 0)) ?gs)"
  proof (rule arg_cong [where f = sum_list], rule map_cong)
    fix h assume "h \<in> set ?gs"
    then obtain g where g: "g \<in> set (bk_fees db)" "h = (if fee_id g = fee_id f then topped_up input g else g)"
      by (auto simp: topped_fees_def)
    have gf: "g = f" if "fee_id g = fee_id f"
      using that g(1) f(1) books_ok_fees(1) [OF ok] by (auto simp: distinct_map dest: inj_onD)
    have "fee_ok g" "fee_balance (bk_journal db) (fee_id g) = charged g - settled g"
      using ok g(1) by (auto simp: books_ok_def)
    then show "fee_balance j (fee_id h) = owed_cents h + (if fee_id h = fee_id f then settled f else 0)"
      using g(2) gf f(2) j(2) owed_cents_ok [of g] owed_cents_ok [OF fee_ok_topped_up, of f "ac_loanId input" input]
      by auto
  qed simp
  also have "\<dots> = fees_balance db' (ac_accountId input) (ac_currency input)
      + sum_list (map (\<lambda>g. if fee_id g = fee_id (topped_up input f) then settled f else 0) ?gs)"
    by (simp add: sum_list_addf fees_balance_def db')
  also have "sum_list (map (\<lambda>g. if fee_id g = fee_id (topped_up input f) then settled f else 0) ?gs) = settled f"
  proof (rule sum_list_single)
    show "distinct (map fee_id ?gs)" using dist by (rule distinct_map_filter)
    show "topped_up input f \<in> set ?gs" using f fits by (auto simp: topped_fees_def accrual_fits_def)
  qed
  finally show ?thesis .
qed

end
