(* ===== verification/Cash_Drawer.thy ===== *)
theory Cash_Drawer
  imports Fee_Accrual
begin

text \<open>
  The till (\<open>apps/api/src/fees/cash-drawer.service.ts\<close>): opening one at a service point, what the
  journal says it should hold, and counting it. \<open>close\<close> reads the session before its transaction
  and writes inside it, so it is two definitions here. At the end, every operation of the fees
  module as one step relation.
\<close>

section \<open>Opening\<close>

definition open_drawer :: "string \<Rightarrow> int \<Rightarrow> string \<Rightarrow> string \<Rightarrow> int \<Rightarrow> books \<Rightarrow> fault + books" where
  "open_drawer uuid now servicePointId currency openingFloatCents db =
     (if openingFloatCents < 0 then Inl BadRequest
      else case bk_servicePoints db servicePointId of
        None \<Rightarrow> Inl NotFound
      | Some sp \<Rightarrow> if sp_archivedAt sp \<noteq> None then Inl NotFound
          else if list_ex (\<lambda>d. cd_servicePointId d = servicePointId \<and> cd_closedAt d = None) (bk_drawers db)
            then Inl Conflict
          else if list_ex (\<lambda>d. cd_id d = uuid) (bk_drawers db) then Inl (UniqueViolation ''cash_drawer_sessions_pkey'')
          else Inr (db\<lparr>bk_drawers := bk_drawers db @ [\<lparr>cd_id = uuid, cd_servicePointId = sp_id sp,
            cd_branchId = sp_branchId sp, cd_currency = currency, cd_openedAt = now,
            cd_openingFloatCents = openingFloatCents, cd_closedAt = None, cd_countedCents = None,
            cd_expectedCents = None, cd_varianceCents = None\<rparr>]\<rparr>))"

section \<open>Counting\<close>

definition cash_entries :: "string \<Rightarrow> journal \<Rightarrow> account_entry list" where
  "cash_entries sessionId j = filter (\<lambda>e. ae_account e = CashOnHand \<and>
     list_ex (\<lambda>t. tx_id t = ae_transactionId e \<and> tx_drawerSessionId t = Some sessionId) (transactions j)) (entries j)"

definition expected_in :: "cash_drawer_session \<Rightarrow> journal \<Rightarrow> int" where
  "expected_in d j = cd_openingFloatCents d + net (cash_entries (cd_id d) j)"

definition find_drawer :: "string \<Rightarrow> books \<Rightarrow> cash_drawer_session option" where
  "find_drawer i db = find (\<lambda>d. cd_id d = i) (bk_drawers db)"

definition expectedCents :: "string \<Rightarrow> books \<Rightarrow> fault + int" where
  "expectedCents i db = (case find_drawer i db of None \<Rightarrow> Inl NotFound
     | Some d \<Rightarrow> Inr (expected_in d (bk_journal db)))"

definition close_probe :: "string \<Rightarrow> int \<Rightarrow> books \<Rightarrow> fault + cash_drawer_session" where
  "close_probe i countedCents db =
     (if countedCents < 0 then Inl BadRequest
      else case find_drawer i db of None \<Rightarrow> Inl NotFound
        | Some d \<Rightarrow> if cd_closedAt d \<noteq> None then Inl Conflict else Inr d)"

definition variance_journal :: "cash_drawer_session \<Rightarrow> string option \<Rightarrow> string option \<Rightarrow> int \<Rightarrow> int \<Rightarrow> journal_input" where
  "variance_journal d userId remark now varianceCents =
     (let short = varianceCents < 0; magnitude = (if short then - varianceCents else varianceCents) in
      (plain_journal TxCashOverShort (cd_currency d) (cd_branchId d) None
        (if short then [debit_leg CashOverShort None magnitude None, credit_leg CashOnHand None magnitude None]
         else [debit_leg CashOnHand None magnitude None, credit_leg CashOverShort None magnitude None]) now)
      \<lparr>ji_drawerSessionId := Some (cd_id d), ji_actorUserId := userId, ji_note := remark\<rparr>)"

record close_result =
  cr_expectedCents :: int
  cr_countedCents :: int
  cr_varianceCents :: int
  cr_transactionId :: "string option"

definition close_commit :: "cash_drawer_session \<Rightarrow> string \<Rightarrow> string option \<Rightarrow> string option \<Rightarrow> int \<Rightarrow> int \<Rightarrow> books \<Rightarrow>
    fault + books \<times> close_result" where
  "close_commit session uuid userId remark now countedCents db =
     (let expected = (case find_drawer (cd_id session) db of None \<Rightarrow> 0 | Some d \<Rightarrow> expected_in d (bk_journal db));
          variance = countedCents - expected in
      bind_res (if variance = 0 then Inr (db, None)
          else bind_res (post uuid (variance_journal session userId remark now variance) db) (\<lambda>db1. Inr (db1, Some uuid)))
        (\<lambda>(db1, transactionId).
      Inr (db1\<lparr>bk_drawers := map (\<lambda>d. if cd_id d = cd_id session then d\<lparr>cd_closedAt := Some now,
          cd_countedCents := Some countedCents, cd_expectedCents := Some expected, cd_varianceCents := Some variance\<rparr>
          else d) (bk_drawers db1)\<rparr>,
        \<lparr>cr_expectedCents = expected, cr_countedCents = countedCents, cr_varianceCents = variance,
         cr_transactionId = transactionId\<rparr>)))"

definition close :: "string \<Rightarrow> string \<Rightarrow> string option \<Rightarrow> string option \<Rightarrow> int \<Rightarrow> int \<Rightarrow> books \<Rightarrow>
    fault + books \<times> close_result" where
  "close i uuid userId remark now countedCents db = bind_res (close_probe i countedCents db) (\<lambda>session.
     close_commit session uuid userId remark now countedCents db)"

section \<open>A merge of two patrons\<close>

text \<open>The statement of \<open>PatronMergeService.carrySatellites\<close> that moves the charges.\<close>

definition carry_fees :: "string \<Rightarrow> string \<Rightarrow> books \<Rightarrow> books" where
  "carry_fees loserId survivorId db = db\<lparr>bk_fees := map (\<lambda>f. if fee_patronId f = loserId
     then f\<lparr>fee_patronId := survivorId\<rparr> else f) (bk_fees db)\<rparr>"

section \<open>A count is recorded, and the books then agree with it\<close>

lemma post_other_books_ok:
  assumes ok: "books_ok db" and plain: "ji_kind input \<noteq> TxReversal" "ji_reversesTransactionId input = None"
    and post: "post t input db = Inr db'" and legs: "\<forall>l \<in> set (ji_legs input). leg_account l \<noteq> PatronReceivable"
  shows "books_ok db'"
proof -
  note journal = books_ok_journal [OF ok]
  from post obtain n where db': "db' = db\<lparr>bk_journal := posted t input n (bk_journal db)\<rparr>"
    by (auto simp: post_Inr_iff [OF journal plain])
  have none: "legs_balance i ls = 0" if "\<forall>l \<in> set ls. leg_account l \<noteq> PatronReceivable" for i ls
    using that by (induction ls) auto
  have "entries_ok (posted t input n (bk_journal db)) (bk_fees db)"
    by (rule entries_ok_posted [where fs = "bk_fees db" and gs = "[]"])
      (use ok legs in \<open>auto simp: books_ok_def receivable_legs_ok_def\<close>)
  then show ?thesis
    using ok post_balanced [OF journal post] none [OF legs]
    by (simp add: books_ok_def db' settings_ok_def fee_balance_posted)
qed

lemma drawers_books_ok: "books_ok (db\<lparr>bk_drawers := ds\<rparr>) \<longleftrightarrow> books_ok db"
  by (simp add: books_ok_def settings_ok_def)

lemma open_drawer_books_ok: "books_ok db \<Longrightarrow> open_drawer u now sp c n db = Inr db' \<Longrightarrow> books_ok db'"
  by (auto simp: open_drawer_def drawers_books_ok split: if_splits option.splits)

lemma variance_journal_simps [simp]:
  "ji_kind (variance_journal d u m now v) \<noteq> TxReversal" "ji_reversesTransactionId (variance_journal d u m now v) = None"
  "ji_clientChangeId (variance_journal d u m now v) = None"
  "ji_drawerSessionId (variance_journal d u m now v) = Some (cd_id d)"
  by (simp_all add: variance_journal_def Let_def)

lemma variance_legs: "l \<in> set (ji_legs (variance_journal d u m now v)) \<Longrightarrow> leg_account l \<noteq> PatronReceivable"
  by (auto simp: variance_journal_def Let_def split: if_splits)

lemma close_commit_Inr:
  assumes "close_commit s uuid u m now n db = Inr (db', r)"
  shows "\<exists>db1. (if cr_varianceCents r = 0 then db1 = db \<and> cr_transactionId r = None
      else post uuid (variance_journal s u m now (cr_varianceCents r)) db = Inr db1 \<and> cr_transactionId r = Some uuid) \<and>
    db' = db1\<lparr>bk_drawers := map (\<lambda>d. if cd_id d = cd_id s then d\<lparr>cd_closedAt := Some now,
          cd_countedCents := Some n, cd_expectedCents := Some (cr_expectedCents r),
          cd_varianceCents := Some (cr_varianceCents r)\<rparr> else d) (bk_drawers db1)\<rparr> \<and>
    cr_countedCents r = n \<and> cr_varianceCents r = n - cr_expectedCents r \<and>
    cr_expectedCents r = (case find_drawer (cd_id s) db of None \<Rightarrow> 0 | Some d \<Rightarrow> expected_in d (bk_journal db))"
  using assms by (auto simp: close_commit_def Let_def bind_res_Inr_iff split: if_splits)

lemma close_commit_books_ok:
  assumes "books_ok db" "close_commit s uuid u m now n db = Inr (db', r)"
  shows "books_ok db'"
proof -
  from close_commit_Inr [OF assms(2)] obtain db1 ds where db': "db' = db1\<lparr>bk_drawers := ds\<rparr>"
    and db1: "if cr_varianceCents r = 0 then db1 = db else post uuid (variance_journal s u m now (cr_varianceCents r)) db = Inr db1"
    by (auto split: if_splits)
  have "books_ok db1"
  proof (cases "cr_varianceCents r = 0")
    case True
    then show ?thesis using db1 assms(1) by simp
  next
    case False
    then have "post uuid (variance_journal s u m now (cr_varianceCents r)) db = Inr db1" using db1 by simp
    then show ?thesis
      by (intro post_other_books_ok [OF assms(1)]) (auto dest: variance_legs)
  qed
  then show ?thesis by (simp add: db' drawers_books_ok)
qed

lemma cash_entries_posted:
  assumes "journal_rows_known j" "t \<notin> tx_id ` set (transactions j)"
  shows "net (cash_entries i (posted t input n j)) = net (cash_entries i j) +
    (if ji_drawerSessionId input = Some i then
      leg_debits (filter (\<lambda>l. leg_account l = CashOnHand) (ji_legs input))
      - leg_credits (filter (\<lambda>l. leg_account l = CashOnHand) (ji_legs input)) else 0)"
proof -
  have old: "ae_transactionId e \<noteq> t" if "e \<in> set (entries j)" for e
    using assms that by (auto simp: journal_rows_known_def)
  have fresh: "\<not> list_ex (\<lambda>u. tx_id u = t \<and> tx_drawerSessionId u = Some i) (transactions j)"
    using assms(2) by (auto simp: list_ex_iff)
  have "filter (\<lambda>e. ae_account e = CashOnHand \<and>
      list_ex (\<lambda>u. tx_id u = ae_transactionId e \<and> tx_drawerSessionId u = Some i) (transactions (posted t input n j))) (entries j) =
      cash_entries i j"
    unfolding cash_entries_def by (rule filter_cong) (auto dest: old)
  moreover have "net (filter (\<lambda>e. ae_account e = CashOnHand \<and>
      list_ex (\<lambda>u. tx_id u = ae_transactionId e \<and> tx_drawerSessionId u = Some i) (transactions (posted t input n j)))
        (map (entry_row t input) ls)) =
      (if ji_drawerSessionId input = Some i then leg_debits (filter (\<lambda>l. leg_account l = CashOnHand) ls)
        - leg_credits (filter (\<lambda>l. leg_account l = CashOnHand) ls) else 0)" for ls
    using fresh by (induction ls) auto
  ultimately show ?thesis by (simp add: cash_entries_def)
qed

lemma find_updated: "find (\<lambda>d. cd_id d = i) (map (\<lambda>d. if cd_id d = i then h d else d) ds) =
    map_option h (find (\<lambda>d. cd_id d = i) ds)" if "\<And>d. cd_id (h d) = cd_id d"
  using that by (induction ds) auto

lemma close_commit_agrees:
  assumes ok: "books_ok db" and d: "find_drawer i db = Some d" and s: "cd_id s = i"
    and run: "close_commit s uuid u m now n db = Inr (db', r)"
  shows "cr_expectedCents r = expected_in d (bk_journal db)" "cr_varianceCents r = n - cr_expectedCents r"
    "expectedCents i db' = Inr n"
    "find_drawer i db' = Some (d\<lparr>cd_closedAt := Some now, cd_countedCents := Some n,
       cd_expectedCents := Some (cr_expectedCents r), cd_varianceCents := Some (cr_varianceCents r)\<rparr>)"
    "cr_transactionId r = None \<longleftrightarrow> n = cr_expectedCents r"
proof -
  let ?h = "\<lambda>d. d\<lparr>cd_closedAt := Some now, cd_countedCents := Some n, cd_expectedCents := Some (cr_expectedCents r),
      cd_varianceCents := Some (cr_varianceCents r)\<rparr>"
  from close_commit_Inr [OF run] obtain db1 where
    db1: "if cr_varianceCents r = 0 then db1 = db \<and> cr_transactionId r = None
      else post uuid (variance_journal s u m now (cr_varianceCents r)) db = Inr db1 \<and> cr_transactionId r = Some uuid"
    and db': "db' = db1\<lparr>bk_drawers := map (\<lambda>d. if cd_id d = i then ?h d else d) (bk_drawers db1)\<rparr>"
    and v: "cr_varianceCents r = n - cr_expectedCents r" and e: "cr_expectedCents r = expected_in d (bk_journal db)"
    using d s by auto
  show "cr_varianceCents r = n - cr_expectedCents r" "cr_expectedCents r = expected_in d (bk_journal db)"
    by (rule v e)+
  show "cr_transactionId r = None \<longleftrightarrow> n = cr_expectedCents r" using db1 v by (auto split: if_splits)
  have drawers: "bk_drawers db1 = bk_drawers db" using db1 by (auto simp: post_def bind_res_Inr_iff split: if_splits)
  show found: "find_drawer i db' = Some (?h d)"
    using d find_updated [of ?h i "bk_drawers db"] by (simp add: find_drawer_def db' drawers)
  have "cd_id d = i" using d by (auto simp: find_drawer_def find_Some_iff)
  have "expected_in d (bk_journal db1) = n"
  proof (cases "cr_varianceCents r = 0")
    case True
    then show ?thesis using db1 e v by simp
  next
    case False
    note journal = books_ok_journal [OF ok]
    from False db1 have "post uuid (variance_journal s u m now (cr_varianceCents r)) db = Inr db1" by simp
    then obtain k where j: "bk_journal db1 = posted uuid (variance_journal s u m now (cr_varianceCents r)) k (bk_journal db)"
      and fresh: "fresh_transaction uuid None (bk_journal db)"
      by (auto simp: post_Inr_iff [OF journal])
    have "uuid \<notin> tx_id ` set (transactions (bk_journal db))" using fresh by (auto simp: fresh_transaction_def)
    from cash_entries_posted [OF _ this, of i "variance_journal s u m now (cr_varianceCents r)" k] journal
    have "net (cash_entries i (bk_journal db1)) = net (cash_entries i (bk_journal db)) + cr_varianceCents r"
      unfolding j using s by (auto simp: balanced_journal_def) (auto simp: variance_journal_def Let_def)
    then show ?thesis using e v \<open>cd_id d = i\<close> by (simp add: expected_in_def)
  qed
  then show "expectedCents i db' = Inr n" using found by (simp add: expectedCents_def expected_in_def db')
qed

lemma close_probe_found:
  "close_probe i n db = Inr s \<Longrightarrow> find_drawer i db = Some s \<and> cd_id s = i \<and> cd_closedAt s = None \<and> 0 \<le> n"
  by (auto simp: close_probe_def find_drawer_def find_Some_iff split: if_splits option.splits)

lemma close_agrees:
  assumes ok: "books_ok db" and run: "close i uuid u m now n db = Inr (db', r)"
  shows "expectedCents i db = Inr (cr_expectedCents r)" "cr_varianceCents r = n - cr_expectedCents r"
    "expectedCents i db' = Inr n" "cr_transactionId r = None \<longleftrightarrow> n = cr_expectedCents r"
    "\<exists>d. find_drawer i db' = Some d \<and> cd_closedAt d = Some now \<and> cd_countedCents d = Some n \<and>
      cd_expectedCents d = Some (cr_expectedCents r) \<and> cd_varianceCents d = Some (cr_varianceCents r)"
proof -
  from run obtain s where s: "find_drawer i db = Some s" "cd_id s = i"
    and commit: "close_commit s uuid u m now n db = Inr (db', r)"
    by (auto simp: close_def bind_res_Inr_iff dest: close_probe_found)
  note agree = close_commit_agrees [OF ok s commit]
  show "expectedCents i db = Inr (cr_expectedCents r)" using s(1) agree(1) by (simp add: expectedCents_def)
  show "cr_varianceCents r = n - cr_expectedCents r" "expectedCents i db' = Inr n"
    "cr_transactionId r = None \<longleftrightarrow> n = cr_expectedCents r" by (rule agree)+
  show "\<exists>d. find_drawer i db' = Some d \<and> cd_closedAt d = Some now \<and> cd_countedCents d = Some n \<and>
      cd_expectedCents d = Some (cr_expectedCents r) \<and> cd_varianceCents d = Some (cr_varianceCents r)"
    using agree(4) by simp
qed

text \<open>The session is read outside the transaction and not read again under the lock: of two
  counts that both saw the till open, the second is written over the first.\<close>

lemma close_overwritten:
  assumes ok: "books_ok db" and probes: "close_probe i n db = Inr s" "close_probe i n2 db = Inr s"
    and first: "close_commit s uuid u m now n db = Inr (db1, r1)"
    and second: "close_commit s uuid2 u2 m2 now2 n2 db1 = Inr (db2, r2)"
  shows "\<exists>d. find_drawer i db2 = Some d \<and> cd_countedCents d = Some n2 \<and> cd_expectedCents d = Some n \<and>
    cd_varianceCents d = Some (n2 - n)"
proof -
  note s = close_probe_found [OF probes(1)]
  note agree1 = close_commit_agrees [OF ok _ _ first, of i s]
  from agree1(4) s obtain d where d: "find_drawer i db1 = Some d" by blast
  note agree2 = close_commit_agrees [OF close_commit_books_ok [OF ok first] d _ second]
  have "expected_in d (bk_journal db1) = n" using agree1(3) s d by (simp add: expectedCents_def)
  then show ?thesis using agree2 s by auto
qed

section \<open>Every operation of the module\<close>

inductive ledger_step :: "books \<Rightarrow> books \<Rightarrow> bool" where
  charging: "charge ids u now ci db = Inr (db', r) \<Longrightarrow> ledger_step db db'"
| settling: "settle ids u now kind si db = Inr (db', p) \<Longrightarrow> ledger_step db db'"
| refunding: "refund ids u now si db = Inr (db', p) \<Longrightarrow> ledger_step db db'"
| accruing: "accrueWithin ids ac db = Inr (db', out) \<Longrightarrow> accrual_fits ac db \<Longrightarrow>
    \<forall>f \<in> set (bk_fees db). open_accrual (ac_loanId ac) f \<longrightarrow> settled f = 0 \<Longrightarrow> ledger_step db db'"
| opening_till: "open_drawer i now sp c n db = Inr db' \<Longrightarrow> ledger_step db db'"
| counting: "close i uuid u m now n db = Inr (db', r) \<Longrightarrow> ledger_step db db'"

lemma close_books_ok: "books_ok db \<Longrightarrow> close i uuid u m now n db = Inr (db', r) \<Longrightarrow> books_ok db'"
  by (auto simp: close_def bind_res_Inr_iff intro: close_commit_books_ok)

lemma ledger_step_books_ok: "ledger_step db db' \<Longrightarrow> books_ok db \<Longrightarrow> books_ok db'"
  by (induction rule: ledger_step.induct)
    (blast intro: charge_books_ok settle_books_ok refund_books_ok accrue_books_ok open_drawer_books_ok close_books_ok)+

lemma ledger_steps_books_ok: "ledger_step\<^sup>*\<^sup>* db db' \<Longrightarrow> books_ok db \<Longrightarrow> books_ok db'"
  by (induction rule: rtranclp_induct) (auto intro: ledger_step_books_ok)

text \<open>A library's books on its first day.\<close>

definition new_books :: "(string \<rightharpoonup> fee_type) \<Rightarrow> (string \<rightharpoonup> payment_method) \<Rightarrow> (string \<rightharpoonup> service_point) \<Rightarrow> books" where
  "new_books fts pms sps = \<lparr>bk_journal = \<lparr>transactions = [], entries = []\<rparr>, bk_accounts = [], bk_fees = [],
     bk_allocations = [], bk_feeTypes = fts, bk_paymentMethods = pms, bk_servicePoints = sps, bk_drawers = []\<rparr>"

lemma new_books_ok: "settings_ok (new_books fts pms sps) \<Longrightarrow> books_ok (new_books fts pms sps)"
  by (simp add: books_ok_def new_books_def balanced_journal_def journal_rows_known_def accounts_ok_def
      entries_ok_def one_open_accrual_def)

end
