(* ===== verification/Ledger_Cases.thy ===== *)
theory Ledger_Cases
  imports Cash_Drawer
begin

text \<open>
  A small library's books, taken through a day: the states the properties of the ledger are
  witnessed at, and the sequences on which the module departs from what its comments say.
\<close>

section \<open>A day at the desk\<close>

definition day_one :: books where
  "day_one = new_books [''overdue'' \<mapsto> \<lparr>ft_id = ''overdue'', ft_revenueAccount = FineRevenue, ft_archivedAt = None\<rparr>]
     [''cash'' \<mapsto> \<lparr>pm_settlementAccount = CashOnHand, pm_archivedAt = None\<rparr>]
     [''desk'' \<mapsto> \<lparr>sp_id = ''desk'', sp_branchId = ''b'', sp_archivedAt = None\<rparr>]"

lemma day_one_ok: "books_ok day_one"
  unfolding day_one_def by (rule new_books_ok) (simp add: settings_ok_def new_books_def)

definition ids :: "string \<Rightarrow> drawn_ids" where
  "ids s = \<lparr>new_account = CHR ''a'' # s, new_fee = CHR ''f'' # s, new_transaction = CHR ''t'' # s\<rparr>"

definition fine :: "string \<Rightarrow> string \<Rightarrow> int \<Rightarrow> charge_input" where
  "fine patron c n = \<lparr>ci_patronId = patron, ci_feeTypeId = ''overdue'', ci_branchId = ''b'', ci_currency = c,
     ci_amountCents = n, ci_reason = ''late'', ci_loanId = None, ci_itemId = None, ci_holdId = None\<rparr>"

definition paying :: "string \<Rightarrow> string \<Rightarrow> string option \<Rightarrow> int \<Rightarrow> settle_input" where
  "paying patron c drawer n = \<lparr>si_patronId = patron, si_currency = c, si_branchId = ''b'', si_amountCents = n,
     si_feeIds = None, si_paymentMethodId = Some ''cash'', si_drawerSessionId = drawer,
     si_clientChangeId = None, si_note = None\<rparr>"

definition overdue_loan :: "string \<Rightarrow> int \<Rightarrow> accrual_input" where
  "overdue_loan account n = \<lparr>ac_loanId = ''l'', ac_patronId = ''p'', ac_accountId = account, ac_feeTypeId = ''overdue'',
     ac_revenueAccount = FineRevenue, ac_branchId = ''b'', ac_currency = ''EUR'', ac_itemId = None,
     ac_totalCents = n, ac_accruedThrough = 0, ac_reason = ''sweep'', ac_now = 0\<rparr>"

fun after :: "fault + books \<times> 'a \<Rightarrow> books" where
  "after (Inr (db, r)) = db"
| "after (Inl e) = day_one"

fun ran :: "fault + books \<times> 'a \<Rightarrow> bool" where
  "ran (Inr r) = True"
| "ran (Inl e) = False"

lemma ran_after: "ran m \<Longrightarrow> \<exists>r. m = Inr (after m, r)"
  by (cases m rule: ran.cases) auto

text \<open>A charge of 240, so that the patron has an account, then a loan that accrues 300.\<close>

definition charged_240 :: books where
  "charged_240 = after (charge (ids ''1'') None 1 (fine ''p'' ''EUR'' 240) day_one)"

definition accrued_300 :: books where
  "accrued_300 = after (accrueWithin (ids ''2'') (overdue_loan ''a1'' 300) charged_240)"

lemma charge_240: "\<exists>r. charge (ids ''1'') None 1 (fine ''p'' ''EUR'' 240) day_one = Inr (charged_240, r)"
  unfolding charged_240_def by (rule ran_after) code_simp

lemma accrue_300: "\<exists>out. accrueWithin (ids ''2'') (overdue_loan ''a1'' 300) charged_240 = Inr (accrued_300, out)"
  unfolding accrued_300_def by (rule ran_after) code_simp

lemma charged_240_ok: "books_ok charged_240"
  using charge_240 charge_books_ok [OF day_one_ok] by blast

text \<open>What a query of a state finds, as values.\<close>

definition owed_list :: "books \<Rightarrow> (string \<times> int) list" where
  "owed_list db = map (\<lambda>f. (fee_id f, owed_cents f)) (bk_fees db)"

definition drift_list :: "books \<Rightarrow> (string \<times> int \<times> int) list" where
  "drift_list db = map (\<lambda>d. (dr_subjectId d, dr_expectedCents d, dr_actualCents d)) (findAccountBalanceDrift db)"

lemma accrued_300_owed: "owed_list accrued_300 = [(''f1'', 240), (''f2'', 300)] \<and> drift_list accrued_300 = []"
  by code_simp

section \<open>A fine that was partly paid\<close>

text \<open>The reader pays 100 of the running fine of 300; the next sweep finds 300 again. The
  receivable carried 200, so it posts 100 as a new charge, and carries 300 for a debt of 200.\<close>

definition part_paid :: books where
  "part_paid = after (settle (ids ''3'') None 2 SettlePayment
     ((paying ''p'' ''EUR'' None 100)\<lparr>si_feeIds := Some [''f2'']\<rparr>) accrued_300)"

definition swept_again :: books where
  "swept_again = after (accrueWithin (ids ''4'') (overdue_loan ''a1'' 300) part_paid)"

lemma part_paid_true: "owed_list part_paid = [(''f1'', 240), (''f2'', 200)] \<and> drift_list part_paid = []"
  by code_simp

lemma swept_again_drifts: "owed_list swept_again = [(''f1'', 240), (''f2'', 200)] \<and>
    drift_list swept_again = [(''a1'', 440, 540)]"
  by code_simp

section \<open>A fine that was paid in full\<close>

text \<open>The reader pays the 300 and keeps the book: the charge closes, the sweep finds no open
  accrual for the loan, and charges the whole 300 again.\<close>

definition paid_off :: books where
  "paid_off = after (settle (ids ''3'') None 2 SettlePayment
     ((paying ''p'' ''EUR'' None 300)\<lparr>si_feeIds := Some [''f2'']\<rparr>) accrued_300)"

lemma charged_again: "owed_list paid_off = [(''f1'', 240), (''f2'', 0)] \<and>
    owed_list (after (accrueWithin (ids ''4'') (overdue_loan ''a1'' 300) paid_off)) =
      [(''f1'', 240), (''f2'', 0), (''f4'', 300)]"
  by code_simp

section \<open>Two records of one reader\<close>

text \<open>The charges of the merged record move to the survivor, their account does not. The
  survivor's payment is credited to another account than the one the charge was debited to.\<close>

definition merged_paid :: books where
  "merged_paid = after (settle (ids ''3'') None 2 SettlePayment (paying ''q'' ''EUR'' None 240) (carry_fees ''p'' ''q'' charged_240))"

lemma merge_drifts: "drift_list (carry_fees ''p'' ''q'' charged_240) = [] \<and>
    owed_list merged_paid = [(''f1'', 0)] \<and> drift_list merged_paid = [(''a3'', 0, - 240), (''a1'', 0, 240)]"
  by code_simp

section \<open>A till\<close>

definition till_open :: books where
  "till_open = (case open_drawer ''d'' 1 ''desk'' ''EUR'' 5000 charged_240 of Inr db \<Rightarrow> db)"

definition till_counted :: books where
  "till_counted = after (close ''d'' ''c'' None None 5 4970 till_open)"

text \<open>A payment names the session it goes into. Nothing asks whether that session is still
  open, nor whether the payment is in its currency.\<close>

definition paid_into_closed :: books where
  "paid_into_closed = after (settle (ids ''3'') None 6 SettlePayment (paying ''p'' ''EUR'' (Some ''d'') 240) till_counted)"

definition paid_in_pounds :: books where
  "paid_in_pounds = after (settle (ids ''3'') None 2 SettlePayment (paying ''p'' ''GBP'' (Some ''d'') 999) till_open)"

fun cents :: "fault + int \<Rightarrow> int option" where
  "cents (Inr n) = Some n"
| "cents (Inl e) = None"

lemma till_counted_short: "cents (expectedCents ''d'' till_open) = Some 5000 \<and>
    cents (expectedCents ''d'' till_counted) = Some 4970 \<and>
    map cd_varianceCents (bk_drawers till_counted) = [Some (- 30)]"
  by code_simp

lemma closed_till_takes_money: "map cd_closedAt (bk_drawers till_counted) = [Some 5] \<and>
    cents (expectedCents ''d'' paid_into_closed) = Some 5210 \<and>
    map cd_expectedCents (bk_drawers paid_into_closed) = [Some 5000]"
  by code_simp

lemma pounds_count_as_euros: "map cd_currency (bk_drawers paid_in_pounds) = [''EUR''] \<and>
    cents (expectedCents ''d'' paid_in_pounds) = Some 5999"
  by code_simp

end
