(* ===== verification/Ledger_Properties.thy ===== *)
theory Ledger_Properties
  imports Ledger_Cases
begin

text \<open>
  What the fees module guarantees, and where it departs from it: the journal, the settlement
  plans, the operations of the desk, the till, and the nightly sweep. Each property is witnessed
  in the books of \<open>Ledger_Cases\<close>.
\<close>

section \<open>The journal\<close>





section \<open>Plans\<close>

text \<open>
  C9. A settlement is first come, first served: \<open>planSettlement\<close> succeeds for every positive
  amount, applies no more than is owed, gives each charge in order what is left up to what it
  owes, and reports the rest as unapplied.
\<close>

theorem settlement_is_first_come:
  "planSettlement n ts = Inr p \<longleftrightarrow> 0 < n \<and> p = \<lparr>allocations = shares n [] ts,
     appliedCents = n - max 0 (n - claims ts), unappliedCents = max 0 (n - claims ts)\<rparr>"
  by (rule planSettlement_Inr_iff)

text \<open>
  C35. A refund takes from the newest settlement first and never gives back more than was paid:
  it is refused exactly when the amount is not positive or exceeds what was paid, and otherwise
  its allocations are the first-come shares of the reversed list, negated.
\<close>

theorem refund_is_last_paid_first:
  "planRefund n ts = Inr p \<longleftrightarrow> 0 < n \<and> n \<le> claims ts \<and>
     p = \<lparr>allocations = map (\<lambda>a. a\<lparr>al_amountCents := - al_amountCents a\<rparr>) (shares n [] (rev ts)),
       appliedCents = n, unappliedCents = 0\<rparr>"
  by (rule planRefund_Inr_iff)

section \<open>The books\<close>

text \<open>
  C2. From books that agree, no sequence of charges, settlements, refunds, accruals on charges
  nothing was settled of, and till operations leads to books on which one of the three nightly
  reports has a row: every transaction balances, every counter equals its allocations, and every
  account's receivable equals what its charges still owe.
\<close>

theorem reports_stay_empty:
  assumes "ledger_step\<^sup>*\<^sup>* db db'" "books_ok db"
  shows "findUnbalancedTransactions db' = [] \<and> findFeeCounterDrift db' = [] \<and> findAccountBalanceDrift db' = []"
  using ledger_steps_books_ok [OF assms] by (simp add: books_ok_unbalanced books_ok_counters books_ok_accounts)

theorem reports_stay_empty_witness:
  "findUnbalancedTransactions charged_240 = [] \<and> findFeeCounterDrift charged_240 = [] \<and> findAccountBalanceDrift charged_240 = []"
proof -
  have "ledger_step\<^sup>*\<^sup>* day_one charged_240" using charge_240 by (blast intro: ledger_step.intros)
  from reports_stay_empty [OF this day_one_ok] show ?thesis .
qed



text \<open>
  C40. The sweep after a part payment. \<open>accrueWithin\<close> derives what it has already posted from the
  receivable, which settlements have credited, so a sweep over an open fine of which something
  was settled leaves the account's receivable above its charges by exactly what was settled.
\<close>

theorem sweep_drifts_by_settled:
  assumes "books_ok db" "accrual_fits input db" "f \<in> set (bk_fees db)" "open_accrual (ac_loanId input) f"
    and "accrueWithin drawn input db = Inr (db', out)"
  shows "ledger_balance db' (ac_accountId input) (ac_currency input) =
    fees_balance db' (ac_accountId input) (ac_currency input) + settled f"
  by (rule accrue_drift [OF assms])

definition sweep_of_300 :: accrual_input where
  "sweep_of_300 = overdue_loan ''a1'' 300"

lemma sweep_300_fits: "accrual_fits sweep_of_300 part_paid"
  unfolding accrual_fits_def by code_simp

lemma part_paid_ok: "books_ok part_paid"
proof -
  have "\<forall>f \<in> set (bk_fees charged_240). open_accrual ''l'' f \<longrightarrow> settled f = 0" by code_simp
  moreover have fits: "accrual_fits (overdue_loan ''a1'' 300) charged_240" unfolding accrual_fits_def by code_simp
  moreover obtain out where "accrueWithin (ids ''2'') (overdue_loan ''a1'' 300) charged_240 = Inr (accrued_300, out)"
    using accrue_300 by blast
  ultimately have "books_ok accrued_300"
    using accrue_books_ok [OF charged_240_ok] by (simp add: overdue_loan_def)
  moreover have "\<exists>r. settle (ids ''3'') None 2 SettlePayment ((paying ''p'' ''EUR'' None 100)\<lparr>si_feeIds := Some [''f2'']\<rparr>) accrued_300 =
      Inr (part_paid, r)"
    unfolding part_paid_def by (rule ran_after) code_simp
  ultimately show ?thesis using settle_books_ok by blast
qed

theorem sweep_drifts_by_settled_witness:
  "ledger_balance swept_again ''a1'' ''EUR'' = fees_balance swept_again ''a1'' ''EUR'' + 100"
proof -
  have "\<exists>r. accrueWithin (ids ''4'') sweep_of_300 part_paid = Inr (swept_again, r)"
    unfolding swept_again_def sweep_of_300_def by (rule ran_after) code_simp
  then obtain out where run: "accrueWithin (ids ''4'') sweep_of_300 part_paid = Inr (swept_again, out)" by blast
  have "list_all (\<lambda>f. fee_id f = ''f2'' \<longrightarrow> open_accrual ''l'' f \<and> settled f = 100) (bk_fees part_paid) \<and>
      ''f2'' \<in> fee_id ` set (bk_fees part_paid)"
    by code_simp
  then obtain f where f: "f \<in> set (bk_fees part_paid)" "open_accrual ''l'' f" "settled f = 100"
    by (auto simp: list_all_iff)
  have "open_accrual (ac_loanId sweep_of_300) f" using f(2) by (simp add: sweep_of_300_def overdue_loan_def)
  from sweep_drifts_by_settled [OF part_paid_ok sweep_300_fits f(1) this run] f(3) show ?thesis
    by (simp add: sweep_of_300_def overdue_loan_def)
qed

section \<open>The till\<close>

text \<open>
  C34. A close records the count and then agrees with it: it returns and stores what the journal
  expected, the variance is the count minus that, the variance is journalled exactly when it is
  not zero, and afterwards the journal expects what was counted.
\<close>

theorem close_records_the_count:
  assumes "books_ok db" "close i uuid u m now n db = Inr (db', r)"
  shows "expectedCents i db = Inr (cr_expectedCents r) \<and> cr_varianceCents r = n - cr_expectedCents r \<and>
    expectedCents i db' = Inr n \<and> (cr_transactionId r = None \<longleftrightarrow> n = cr_expectedCents r) \<and>
    (\<exists>d. find_drawer i db' = Some d \<and> cd_closedAt d = Some now \<and> cd_countedCents d = Some n \<and>
      cd_expectedCents d = Some (cr_expectedCents r) \<and> cd_varianceCents d = Some (cr_varianceCents r))"
  using close_agrees [OF assms] by blast

lemma till_open_ok: "books_ok till_open"
proof -
  have "case open_drawer ''d'' 1 ''desk'' ''EUR'' 5000 charged_240 of Inr db \<Rightarrow> True | Inl e \<Rightarrow> False" by code_simp
  then have "open_drawer ''d'' 1 ''desk'' ''EUR'' 5000 charged_240 = Inr till_open"
    by (simp add: till_open_def split: sum.splits)
  then show ?thesis by (rule open_drawer_books_ok [OF charged_240_ok])
qed

theorem close_records_the_count_witness: "expectedCents ''d'' till_counted = Inr 4970"
proof -
  have "\<exists>r. close ''d'' ''c'' None None 5 4970 till_open = Inr (till_counted, r)"
    unfolding till_counted_def by (rule ran_after) code_simp
  then show ?thesis using close_records_the_count [OF till_open_ok] by blast
qed

text \<open>
  Two counts of one till. \<open>close\<close> looks at the session before its transaction and does not
  look again under the lock: when two counts both passed that look, the second overwrites the
  first, and the stored row says the till was expected to hold what the first one counted.
\<close>

theorem second_count_overwrites:
  assumes "books_ok db" "close_probe i n db = Inr s" "close_probe i n2 db = Inr s"
    and "close_commit s uuid u m now n db = Inr (db1, r1)" "close_commit s uuid2 u2 m2 now2 n2 db1 = Inr (db2, r2)"
  shows "\<exists>d. find_drawer i db2 = Some d \<and> cd_countedCents d = Some n2 \<and> cd_expectedCents d = Some n \<and>
    cd_varianceCents d = Some (n2 - n)"
  by (rule close_overwritten [OF assms])

definition till_session :: cash_drawer_session where
  "till_session = hd (bk_drawers till_open)"

definition counted_twice :: books where
  "counted_twice = after (close_commit till_session ''c2'' None None 6 4990
     (after (close_commit till_session ''c1'' None None 5 4970 till_open)))"

theorem second_count_overwrites_witness:
  "\<exists>d. find_drawer ''d'' counted_twice = Some d \<and> cd_countedCents d = Some 4990 \<and> cd_expectedCents d = Some 4970"
proof -
  have "length (bk_drawers till_open) = 1 \<and> list_all (\<lambda>d. cd_id d = ''d'' \<and> cd_closedAt d = None) (bk_drawers till_open)" by code_simp
  then have "bk_drawers till_open = [till_session]" "cd_id till_session = ''d''" "cd_closedAt till_session = None"
    by (auto simp: till_session_def length_Suc_conv)
  then have probe: "close_probe ''d'' 4970 till_open = Inr till_session" "close_probe ''d'' 4990 till_open = Inr till_session"
    by (simp_all add: close_probe_def find_drawer_def)
  have first: "\<exists>r. close_commit till_session ''c1'' None None 5 4970 till_open =
      Inr (after (close_commit till_session ''c1'' None None 5 4970 till_open), r)"
    by (rule ran_after) code_simp
  have second: "\<exists>r. close_commit till_session ''c2'' None None 6 4990 (after (close_commit till_session ''c1'' None None 5 4970 till_open)) =
      Inr (counted_twice, r)"
    unfolding counted_twice_def by (rule ran_after) code_simp
  show ?thesis using second_count_overwrites [OF till_open_ok probe] first second by blast
qed

end
