(* ===== verification/Iso2709.thy ===== *)
theory Iso2709
  imports Marc_Record
begin

text \<open>
  The binary MARC container, read and written (\<open>packages/marc/src/iso2709.ts\<close>). The MARC-8
  transcoder (\<open>marc8.ts\<close>, a state machine over eleven code tables) and Unicode normalization (\<open>norm_text\<close>) are
  parameters; the UTF-8 path uses neither. The byte offsets of an anomaly are kept.
\<close>

datatype iso_encoding = Utf8 | Marc8

datatype norm_form = Nfc | Nfd

record 's marc8_codec =
  m8_new :: 's
  m8_decode :: "byte list \<Rightarrow> 's \<Rightarrow> utext \<times> anomaly_code list \<times> 's"
  m8_encode :: "utext \<Rightarrow> marc_error + byte list"

definition MAX_FIELD_BYTES :: nat where "MAX_FIELD_BYTES = 9999"
definition MAX_RECORD_BYTES :: nat where "MAX_RECORD_BYTES = 99999"

section \<open>Splitting a stream\<close>

fun implied_loop :: "byte list \<Rightarrow> nat list \<Rightarrow> nat \<Rightarrow> nat option" where
  "implied_loop bs [] furthest = Some furthest"
| "implied_loop bs (e # es) furthest =
     (case (fst (readUint bs (24 + e * 12 + 3) 4), fst (readUint bs (24 + e * 12 + 7) 5)) of
        (Some len, Some start) \<Rightarrow> implied_loop bs es (max furthest (start + len))
      | _ \<Rightarrow> None)"

text \<open>The length the directory implies, of the record at the front of \<open>bs\<close>; \<open>-1\<close> is \<open>None\<close>.\<close>

definition impliedLength :: "byte list \<Rightarrow> nat option" where
  "impliedLength bs = (case fst (readUint bs 12 5) of None \<Rightarrow> None
     | Some base \<Rightarrow> if base < 25 \<or> length bs < base then None
         else let entries = (base - 1 - 24) div entryWidth DEFAULT_ENTRY_MAP in
           if entries < 1 then None
           else map_option (\<lambda>furthest. base + furthest + 1) (implied_loop bs [0..<entries] 0))"

definition is_separator :: "byte \<Rightarrow> bool" where
  "is_separator b \<longleftrightarrow> b = 0x0A \<or> b = 0x0D \<or> b = 0x1A \<or> b = 0x00"

fun first_index :: "byte \<Rightarrow> byte list \<Rightarrow> nat option" where
  "first_index b [] = None"
| "first_index b (c # cs) = (if c = b then Some 0 else map_option Suc (first_index b cs))"

text \<open>Where the record at the front of \<open>bs\<close> ends: by its declared length, or by the scan.\<close>

definition record_end :: "byte list \<Rightarrow> nat option" where
  "record_end bs =
     (let scanned = map_option Suc (first_index RECORD_TERMINATOR bs) in
      case fst (readUint bs 0 5) of None \<Rightarrow> scanned
      | Some declared \<Rightarrow>
          if 24 \<le> declared \<and> declared \<le> length bs \<and> at_index bs (declared - 1) = Some RECORD_TERMINATOR \<and>
            (case impliedLength bs of None \<Rightarrow> True | Some implied \<Rightarrow> implied = declared)
          then Some declared else scanned)"

lemma first_index_less: "first_index b bs = Some i \<Longrightarrow> i < length bs"
  by (induction bs arbitrary: i) (auto split: if_splits)

lemma record_end_bounds: "record_end bs = Some n \<Longrightarrow> 0 < n \<and> n \<le> length bs"
  by (auto simp: record_end_def Let_def dest: first_index_less split: option.splits if_splits)

function splitIso2709 :: "byte list \<Rightarrow> byte list list" where
  "splitIso2709 bs =
     (case bs of [] \<Rightarrow> []
      | b # rest \<Rightarrow> if is_separator b then splitIso2709 rest
          else (case record_end bs of
              None \<Rightarrow> if 24 < length bs then [bs] else []
            | Some n \<Rightarrow> take n bs # splitIso2709 (drop n bs)))"
  by pat_completeness auto

termination
  by (relation "measure length") (use record_end_bounds in fastforce)+

declare splitIso2709.simps [simp del]

section \<open>Reading a field\<close>

text \<open>What a field's reading adds to the log, in order; its \<open>x\<close> is the codes, each once.\<close>

definition anomaly_in :: "utext \<Rightarrow> nat \<Rightarrow> anomaly_code \<Rightarrow> marc_anomaly" where
  "anomaly_in tag occurrence c = \<lparr>an_code = c, an_tag = Some tag, an_occurrence = Some occurrence,
     an_at = None, an_saw = None\<rparr>"

definition anomaly_at :: "anomaly_code \<Rightarrow> nat option \<Rightarrow> utext option \<Rightarrow> marc_anomaly" where
  "anomaly_at c i saw = \<lparr>an_code = c, an_tag = None, an_occurrence = None, an_at = i, an_saw = saw\<rparr>"

definition codes_once :: "marc_anomaly list \<Rightarrow> anomaly_code list" where
  "codes_once notes = rev (remdups (rev (map an_code notes)))"

definition digitAt :: "utext \<Rightarrow> nat \<Rightarrow> nat \<Rightarrow> nat" where
  "digitAt ldr i fallback = (case digit_of ldr i of None \<Rightarrow> fallback | Some d \<Rightarrow> d)"

definition reads_unicode :: "iso_encoding option \<Rightarrow> utext \<Rightarrow> bool" where
  "reads_unicode opts ldr = (case opts of
     None \<Rightarrow> leaderAt ldr LdrCharacterCodingScheme = text_of ''a'' | Some e \<Rightarrow> e = Utf8)"

definition decodeFieldData :: "'s marc8_codec \<Rightarrow> iso_encoding option \<Rightarrow> utext \<Rightarrow> byte list \<Rightarrow> 's \<Rightarrow>
    utext \<times> anomaly_code list \<times> 's" where
  "decodeFieldData m8 opts ldr bs st =
     (if reads_unicode opts ldr
      then (dc_text (decodeUtf8 bs), if dc_valid (decodeUtf8 bs) then [] else [InvalidUtf8], st)
      else m8_decode m8 bs st)"

text \<open>The subfields of a field, from a delimiter on. \<open>off\<close> is where the list starts in the record.\<close>

function read_subfields :: "(byte list \<Rightarrow> 's \<Rightarrow> utext \<times> anomaly_code list \<times> 's) \<Rightarrow> (anomaly_code \<Rightarrow> marc_anomaly) \<Rightarrow>
    nat \<Rightarrow> nat \<Rightarrow> 's \<Rightarrow> byte list \<Rightarrow> subfield list \<times> marc_anomaly list" where
  "read_subfields decode here codeWidth off st [] = ([], [])"
| "read_subfields decode here codeWidth off st (b # bs) =
     (if length bs < codeWidth then ([], [(here SubfieldCodeTruncated)\<lparr>an_at := Some off\<rparr>])
      else let rest = drop codeWidth bs;
               val = takeWhile (\<lambda>c. c \<noteq> SUBFIELD_DELIMITER) rest;
               (t, codes, st') = decode val st;
               (sfs, notes) = read_subfields decode here codeWidth (off + 1 + codeWidth + length val) st'
                 (dropWhile (\<lambda>c. c \<noteq> SUBFIELD_DELIMITER) rest)
           in ((take codeWidth bs, t) # sfs, map here codes @ notes))"
  by pat_completeness auto

termination
proof (relation "measure (\<lambda>(d, h, w, o1, s, bs). length bs)", simp_all)
  fix bs :: "byte list" and w :: nat
  have "length (dropWhile (\<lambda>c. c \<noteq> SUBFIELD_DELIMITER) (drop w bs)) \<le> length (drop w bs)"
    by (rule length_dropWhile_le)
  then show "length (dropWhile (\<lambda>c. c \<noteq> SUBFIELD_DELIMITER) (drop w bs)) < Suc (length bs)" by simp
qed

definition pad_two :: "utext \<Rightarrow> utext" where
  "pad_two t = take 2 (t @ replicate (2 - length t) 0x20)"

definition control_field :: "(byte list \<Rightarrow> 's \<Rightarrow> utext \<times> anomaly_code list \<times> 's) \<Rightarrow> (anomaly_code \<Rightarrow> marc_anomaly) \<Rightarrow>
    's \<Rightarrow> utext \<Rightarrow> byte list \<Rightarrow> marc_field \<times> marc_anomaly list" where
  "control_field decode here st tag bs =
     (let marks = (if SUBFIELD_DELIMITER \<in> set bs then [here ControlFieldHasSubfields] else []);
          (v, codes, st') = decode bs st;
          notes = marks @ map here codes
      in (ControlField tag v (codes_once notes), notes))"

definition data_field :: "(byte list \<Rightarrow> 's \<Rightarrow> utext \<times> anomaly_code list \<times> 's) \<Rightarrow> (anomaly_code \<Rightarrow> marc_anomaly) \<Rightarrow>
    's \<Rightarrow> nat \<Rightarrow> nat \<Rightarrow> nat \<Rightarrow> utext \<Rightarrow> byte list \<Rightarrow> marc_field \<times> marc_anomaly list" where
  "data_field decode here st codeWidth declared from1 tag bs =
     (let (inds, skip, notes1) =
        (if bs = [] then (pad_two [], 0, [here DataFieldHasNoSubfields])
         else if hd bs = SUBFIELD_DELIMITER then (pad_two [], 0, [here DataFieldHasNoIndicators])
         else let n = min declared (length bs) in (pad_two (take n bs), n, []));
        rest = drop skip bs;
        before = takeWhile (\<lambda>c. c \<noteq> SUBFIELD_DELIMITER) rest;
        marked = dropWhile (\<lambda>c. c \<noteq> SUBFIELD_DELIMITER) rest in
      if marked = [] then
        (let notes2 = (if rest \<noteq> [] then (let (t, codes, st') = decode rest st in
              map here codes @ [(here DataBeforeFirstSubfield)\<lparr>an_saw := Some t\<rparr>])
            else if bs \<noteq> [] then [here DataFieldHasNoSubfields] else []) in
         (DataField tag inds [] (codes_once (notes1 @ notes2)), notes1 @ notes2))
      else
        (let (notes2, st1) = (if before \<noteq> [] then (let (t, codes, st') = decode before st in
              (map here codes @ [(here DataBeforeFirstSubfield)\<lparr>an_saw := Some t\<rparr>], st')) else ([], st));
             (sfs, notes3) = read_subfields decode here codeWidth (from1 + skip + length before) st1 marked;
             notes4 = (if sfs = [] then [here DataFieldHasNoSubfields] else []);
             notes = notes1 @ notes2 @ notes3 @ notes4
         in (DataField tag inds sfs (codes_once notes), notes)))"

definition readField :: "'s marc8_codec \<Rightarrow> iso_encoding option \<Rightarrow> utext \<Rightarrow> nat \<Rightarrow> byte list \<Rightarrow> nat \<Rightarrow> nat \<Rightarrow> utext \<Rightarrow>
    nat \<Rightarrow> marc_field \<times> marc_anomaly list" where
  "readField m8 opts ldr codeWidth bytes from1 to1 tag occurrence =
     (let here = anomaly_in tag occurrence; decode = decodeFieldData m8 opts ldr; bs = slice from1 to1 bytes in
      if isControlTag tag then control_field decode here (m8_new m8) tag bs
      else data_field decode here (m8_new m8) codeWidth (digitAt ldr (fst (LEADER LdrIndicatorCount)) 2) from1 tag bs)"

section \<open>Reading a record\<close>

definition tag_printable :: "utext \<Rightarrow> bool" where
  "tag_printable t \<longleftrightarrow> length t = 3 \<and> list_all (\<lambda>c. 0x21 \<le> c \<and> c \<le> 0x7E) t"

text \<open>One directory entry: what it adds to the log, and the field if it is readable. \<open>previous\<close>
  is the start position of the last readable entry, \<open>-1\<close> before the first.\<close>

definition read_entry :: "'s marc8_codec \<Rightarrow> iso_encoding option \<Rightarrow> utext \<Rightarrow> entry_map \<Rightarrow> nat \<Rightarrow> nat \<Rightarrow> byte list \<Rightarrow>
    nat \<Rightarrow> nat \<Rightarrow> int \<Rightarrow> marc_anomaly list \<times> (marc_field \<times> int) option" where
  "read_entry m8 opts ldr m codeWidth baseAddress bytes entry occurrence previous =
     (let tag = decodeLatin1 bytes entry (entry + tagWidth m);
          here = anomaly_in tag occurrence;
          notes1 = (if tag_printable tag then []
            else [(here TagMalformed)\<lparr>an_at := Some entry, an_saw := Some tag\<rparr>]) in
      case (fst (readUint bytes (entry + tagWidth m) (fieldLengthWidth m)),
            fst (readUint bytes (entry + tagWidth m + fieldLengthWidth m) (startPositionWidth m))) of
        (Some len, Some start) \<Rightarrow>
          (let notes2 = (if int start < previous then [here FieldsOutOfOrder] else []);
               from0 = baseAddress + start; to0 = from0 + len;
               out = length bytes < from0 \<or> length bytes < to0;
               notes3 = (if out then [(here DirectoryEntryOutOfRange)\<lparr>an_at := Some from0\<rparr>] else []);
               from1 = (if out then min from0 (length bytes) else from0);
               to1 = (if out then min to0 (length bytes) else to0);
               closed = from1 < to1 \<and> at_index bytes (to1 - 1) = Some FIELD_TERMINATOR;
               notes4 = (if closed then [] else [(here MissingFieldTerminator)\<lparr>an_at := Some to1\<rparr>]);
               (f, notes5) = readField m8 opts ldr codeWidth bytes from1 (if closed then to1 - 1 else to1) tag occurrence
           in (notes1 @ notes2 @ notes3 @ notes4 @ notes5, Some (f, int start)))
      | _ \<Rightarrow> (notes1 @ [(here DirectoryEntryNotNumeric)\<lparr>an_at := Some entry\<rparr>], None))"

text \<open>The directory loop. \<open>seen\<close> lists the tags met, for the occurrence counts.\<close>

fun read_entries :: "(nat \<Rightarrow> nat \<Rightarrow> int \<Rightarrow> marc_anomaly list \<times> (marc_field \<times> int) option) \<Rightarrow> (nat \<Rightarrow> utext) \<Rightarrow>
    nat list \<Rightarrow> utext list \<Rightarrow> int \<Rightarrow> marc_field list \<times> marc_anomaly list" where
  "read_entries entry_at tag_at [] seen previous = ([], [])"
| "read_entries entry_at tag_at (e # es) seen previous =
     (let tag = tag_at e;
          (notes, r) = entry_at e (count_list seen tag + 1) previous in
      case r of
        None \<Rightarrow> (let (fs, more) = read_entries entry_at tag_at es (tag # seen) previous in (fs, notes @ more))
      | Some (f, start) \<Rightarrow>
          (let (fs, more) = read_entries entry_at tag_at es (tag # seen) start in (f # fs, notes @ more)))"

definition readIso2709Record :: "'s marc8_codec \<Rightarrow> iso_encoding option \<Rightarrow> byte list \<Rightarrow> marc_error + parsed_record" where
  "readIso2709Record m8 opts input =
     (let ended = input \<noteq> [] \<and> last input = RECORD_TERMINATOR;
          bytes = (if ended then butlast input else input);
          notes1 = (if ended then [] else [anomaly_at MissingRecordTerminator None None]) in
      if length bytes < 24 then Inl RecordTooShort
      else
       (let ldr = decodeLatin1 bytes 0 24;
            notes2 = (case fst (readUint bytes 0 5) of None \<Rightarrow> []
              | Some declared \<Rightarrow> if declared \<noteq> length input
                  then [anomaly_at LeaderLengthWrong (Some 0) (Some (take 5 ldr))] else []);
            (m, standard) = readEntryMap ldr;
            notes3 = (if standard then [] else [anomaly_at NonStandardEntryMap (Some 20) (Some (leaderAt ldr LdrEntryMap))]);
            indicatorCount = digitAt ldr 10 2;
            subfieldCodeCount = digitAt ldr 11 2;
            notes4 = (if indicatorCount \<noteq> 2 \<or> subfieldCodeCount \<noteq> 2
              then [anomaly_at NonStandardCounts (Some 10) (Some (slice 10 12 ldr))] else []);
            codeWidth = max 1 (subfieldCodeCount - 1);
            firstTerminator = map_option (\<lambda>i. 24 + i) (first_index FIELD_TERMINATOR (drop 24 bytes));
            wrong = [anomaly_at BaseAddressWrong (Some 12) (Some (slice 12 17 ldr))];
            after_first = (case firstTerminator of None \<Rightarrow> length bytes | Some i \<Rightarrow> i + 1);
            (baseAddress, notes5) = (case fst (readUint bytes 12 5) of
                None \<Rightarrow> (after_first, wrong)
              | Some declaredBase \<Rightarrow> if 24 \<le> declaredBase \<and> declaredBase \<le> length bytes
                  then (declaredBase, if firstTerminator \<noteq> None \<and> firstTerminator \<noteq> Some (declaredBase - 1) then wrong else [])
                  else (after_first, wrong));
            directoryEnd0 = max (baseAddress - 1) 24;
            ended_directory = at_index bytes directoryEnd0 = Some FIELD_TERMINATOR;
            notes6 = (if ended_directory then [] else [anomaly_at MissingDirectoryTerminator (Some directoryEnd0) None]);
            directoryEnd = (if ended_directory then directoryEnd0
              else case firstTerminator of None \<Rightarrow> directoryEnd0
                | Some i \<Rightarrow> if i < baseAddress then i else directoryEnd0);
            width = entryWidth m;
            dirBytes = directoryEnd - 24;
            notes7 = (if dirBytes mod width \<noteq> 0
              then [anomaly_at DirectoryLengthRagged (Some 24) (Some (text_of (show_nat dirBytes)))] else []);
            (fs, notes8) = read_entries
              (\<lambda>e occurrence previous. read_entry m8 opts ldr m codeWidth baseAddress bytes (24 + e * width) occurrence previous)
              (\<lambda>e. decodeLatin1 bytes (24 + e * width) (24 + e * width + tagWidth m))
              [0..<dirBytes div width] [] (- 1)
        in Inr \<lparr>pr_record = \<lparr>mr_leader = ldr, mr_fields = fs\<rparr>,
             pr_anomalies = notes1 @ notes2 @ notes3 @ notes4 @ notes5 @ notes6 @ notes7 @ notes8\<rparr>))"

definition readIso2709 :: "'s marc8_codec \<Rightarrow> iso_encoding option \<Rightarrow> byte list \<Rightarrow> marc_error + parsed_record list" where
  "readIso2709 m8 opts bs = map_res (readIso2709Record m8 opts) (splitIso2709 bs)"

section \<open>Writing\<close>

record write_options =
  wo_encoding :: "iso_encoding option"
  wo_normalization :: "norm_form option"

definition write_encoding :: "write_options \<Rightarrow> iso_encoding" where
  "write_encoding opts = (case wo_encoding opts of None \<Rightarrow> Utf8 | Some e \<Rightarrow> e)"

definition assertStructural :: "utext \<Rightarrow> marc_error + unit" where
  "assertStructural t = (if list_ex (\<lambda>c. 0xFF < c) t then Inl StructureNotEncodable else Inr ())"

definition encode_data :: "'s marc8_codec \<Rightarrow> (norm_form \<Rightarrow> utext \<Rightarrow> utext) \<Rightarrow> write_options \<Rightarrow> utext \<Rightarrow> marc_error + byte list" where
  "encode_data m8 norm_text opts t =
     (if list_ex (\<lambda>c. c = SUBFIELD_DELIMITER \<or> c = FIELD_TERMINATOR \<or> c = RECORD_TERMINATOR) t then Inl DataNotEncodable
      else let u = (case wo_normalization opts of None \<Rightarrow> t | Some n \<Rightarrow> norm_text n t) in
        if write_encoding opts = Utf8 then Inr (encodeUtf8 u) else m8_encode m8 u)"

definition latin1 :: "utext \<Rightarrow> marc_error + byte list" where
  "latin1 t = (case encodeLatin1 t of None \<Rightarrow> Inl RangeError | Some bs \<Rightarrow> Inr bs)"

definition write_subfield :: "(utext \<Rightarrow> marc_error + byte list) \<Rightarrow> subfield \<Rightarrow> marc_error + byte list" where
  "write_subfield encode sf =
     (if length (fst sf) \<noteq> 1 then Inl SubfieldCodeInvalid
      else bind_res (assertStructural (fst sf)) (\<lambda>u.
        bind_res (latin1 (fst sf)) (\<lambda>code.
        bind_res (encode (snd sf)) (\<lambda>val. Inr (SUBFIELD_DELIMITER # code @ val)))))"

definition write_field :: "(utext \<Rightarrow> marc_error + byte list) \<Rightarrow> marc_field \<Rightarrow> marc_error + byte list" where
  "write_field encode f =
     (if length (field_tag f) \<noteq> 3 then Inl TagInvalid
      else bind_res (assertStructural (field_tag f)) (\<lambda>u.
        bind_res (case f of
            ControlField t v x \<Rightarrow> encode v
          | DataField t i sfs x \<Rightarrow>
              bind_res (assertStructural (pad_two i)) (\<lambda>u.
              bind_res (latin1 (pad_two i)) (\<lambda>inds.
              bind_res (map_res (write_subfield encode) sfs) (\<lambda>subs. Inr (inds @ concat subs)))))
          (\<lambda>body. if MAX_FIELD_BYTES < length body + 1 then Inl FieldTooLong else Inr (body @ [FIELD_TERMINATOR]))))"

definition pad_number :: "nat \<Rightarrow> nat \<Rightarrow> marc_error + utext" where
  "pad_number n w = (case padUint n w of None \<Rightarrow> Inl RangeError | Some t \<Rightarrow> Inr t)"

text \<open>The loop over the fields: the directory entries, the bodies, and where the next would start.\<close>

fun write_fields :: "(utext \<Rightarrow> marc_error + byte list) \<Rightarrow> nat \<Rightarrow> marc_field list \<Rightarrow>
    marc_error + utext list \<times> byte list list \<times> nat" where
  "write_fields encode start [] = Inr ([], [], start)"
| "write_fields encode start (f # fs) =
     bind_res (write_field encode f) (\<lambda>body.
     bind_res (pad_number (length body) 4) (\<lambda>len.
     bind_res (pad_number start 5) (\<lambda>pos.
     if MAX_RECORD_BYTES < start + length body then Inl RecordTooLong
     else bind_res (write_fields encode (start + length body) fs) (\<lambda>(dir, bodies, end_at).
       Inr ((field_tag f @ len @ pos) # dir, body # bodies, end_at)))))"

definition put_at :: "nat \<Rightarrow> utext \<Rightarrow> utext \<Rightarrow> utext" where
  "put_at i t l = take i l @ t @ drop (i + length t) l"

definition writeLeader :: "utext \<Rightarrow> nat \<Rightarrow> nat \<Rightarrow> iso_encoding \<Rightarrow> marc_error + utext" where
  "writeLeader source total_bytes baseAddress encoding =
     (let l = (if 24 \<le> length source then take 24 source else source @ replicate (24 - length source) 0x20);
          l1 = map (\<lambda>c. if c < 0x20 \<or> 0x7E < c then 0x20 else c) l in
      bind_res (pad_number total_bytes 5) (\<lambda>len.
      bind_res (pad_number baseAddress 5) (\<lambda>base.
      Inr (put_at 20 (text_of ''4500'') (put_at 11 (text_of ''2'') (put_at 10 (text_of ''2'')
        (put_at 9 (if encoding = Utf8 then text_of ''a'' else text_of '' '')
        (put_at 12 base (put_at 0 len l1)))))))))"

definition writeIso2709 :: "'s marc8_codec \<Rightarrow> (norm_form \<Rightarrow> utext \<Rightarrow> utext) \<Rightarrow> write_options \<Rightarrow> marc_record \<Rightarrow> marc_error + byte list" where
  "writeIso2709 m8 norm_text opts r =
     bind_res (write_fields (encode_data m8 norm_text opts) 0 (mr_fields r)) (\<lambda>(dir, bodies, start).
     let baseAddress = 24 + length dir * entryWidth DEFAULT_ENTRY_MAP + 1;
         total_bytes = baseAddress + start + 1 in
     if MAX_RECORD_BYTES < total_bytes then Inl RecordTooLong
     else bind_res (writeLeader (mr_leader r) total_bytes baseAddress (write_encoding opts)) (\<lambda>ldr.
       bind_res (latin1 ldr) (\<lambda>ldr_bytes.
       bind_res (latin1 (concat dir)) (\<lambda>dir_bytes.
       Inr (concatBytes ([ldr_bytes, dir_bytes, [FIELD_TERMINATOR]] @ bodies @ [[RECORD_TERMINATOR]]))))))"

end
