(* ===== verification/Iso2709_Round_Trip.thy ===== *)
theory Iso2709_Round_Trip
  imports Iso2709
begin

text \<open>
  What \<open>writeIso2709\<close> writes in UTF-8, \<open>readIso2709Record\<close> reads back, field by field and without an
  anomaly, and \<open>splitIso2709\<close> finds where each record of a stream ends. \<open>writable_field\<close> lists what
  the writer does not check itself.
\<close>

definition clean_value :: "utext \<Rightarrow> bool" where
  "clean_value t \<longleftrightarrow> well_formed t \<and> no_bom t"

definition writable_field :: "marc_field \<Rightarrow> bool" where
  "writable_field f \<longleftrightarrow> tag_printable (field_tag f) \<and> field_x f = [] \<and>
     (case f of
        ControlField t v x \<Rightarrow> isControlTag t \<and> clean_value v
      | DataField t i sfs x \<Rightarrow> \<not> isControlTag t \<and> length i = 2 \<and> hd i \<noteq> SUBFIELD_DELIMITER \<and> sfs \<noteq> [] \<and>
          list_all (\<lambda>sf. clean_value (snd sf)) sfs)"

definition utf8_options :: "write_options \<Rightarrow> bool" where
  "utf8_options opts \<longleftrightarrow> write_encoding opts = Utf8 \<and> wo_normalization opts = None"

definition utf8_decode :: "byte list \<Rightarrow> 's \<Rightarrow> utext \<times> anomaly_code list \<times> 's" where
  "utf8_decode bs st = (dc_text (decodeUtf8 bs), if dc_valid (decodeUtf8 bs) then [] else [InvalidUtf8], st)"

section \<open>Values and subfields\<close>

lemma latin1_Inr [simp]: "latin1 t = Inr bs \<longleftrightarrow> bs = t \<and> list_all (\<lambda>c. c \<le> 0xFF) t"
  by (auto simp: latin1_def encodeLatin1_def)

lemma encode_data_utf8:
  assumes "encode_data m8 nf opts t = Inr bs" "utf8_options opts"
  shows "bs = encodeUtf8 t" "SUBFIELD_DELIMITER \<notin> set bs" "FIELD_TERMINATOR \<notin> set bs" "RECORD_TERMINATOR \<notin> set bs"
proof -
  have t: "bs = encodeUtf8 t" "\<not> list_ex (\<lambda>c. c = SUBFIELD_DELIMITER \<or> c = FIELD_TERMINATOR \<or> c = RECORD_TERMINATOR) t"
    using assms by (auto simp: encode_data_def utf8_options_def Let_def split: if_splits)
  then show "bs = encodeUtf8 t" by simp
  show "SUBFIELD_DELIMITER \<notin> set bs" "FIELD_TERMINATOR \<notin> set bs" "RECORD_TERMINATOR \<notin> set bs"
    using t encodeUtf8_ascii [of _ t] by (auto simp: list_ex_iff delimiters)
qed

lemma utf8_decode_encode: "clean_value t \<Longrightarrow> utf8_decode (encodeUtf8 t) st = (t, [], st)"
  by (simp add: utf8_decode_def clean_value_def decodeUtf8_encodeUtf8)

lemma write_subfield_Inr:
  assumes "write_subfield (encode_data m8 nf opts) sf = Inr bs" "utf8_options opts"
  shows "\<exists>c. fst sf = [c] \<and> bs = SUBFIELD_DELIMITER # c # encodeUtf8 (snd sf) \<and>
    SUBFIELD_DELIMITER \<notin> set (encodeUtf8 (snd sf)) \<and> c \<le> 0xFF"
proof -
  from assms(1) obtain code val where v: "length (fst sf) = 1" "latin1 (fst sf) = Inr code"
      "encode_data m8 nf opts (snd sf) = Inr val" "bs = SUBFIELD_DELIMITER # code @ val"
    by (auto simp: write_subfield_def bind_res_Inr_iff split: if_splits)
  from v(1) obtain c where "fst sf = [c]" by (auto simp: length_Suc_conv)
  then show ?thesis using v encode_data_utf8 [OF v(3) assms(2)] by auto
qed

definition marked :: "byte list \<Rightarrow> bool" where
  "marked bs \<longleftrightarrow> bs = [] \<or> hd bs = SUBFIELD_DELIMITER"

lemma until_marked:
  assumes "SUBFIELD_DELIMITER \<notin> set val" "marked rest"
  shows "takeWhile (\<lambda>c. c \<noteq> SUBFIELD_DELIMITER) (val @ rest) = val"
    "dropWhile (\<lambda>c. c \<noteq> SUBFIELD_DELIMITER) (val @ rest) = rest"
proof -
  have "\<forall>c \<in> set val. c \<noteq> SUBFIELD_DELIMITER" using assms(1) by auto
  then show "takeWhile (\<lambda>c. c \<noteq> SUBFIELD_DELIMITER) (val @ rest) = val"
    "dropWhile (\<lambda>c. c \<noteq> SUBFIELD_DELIMITER) (val @ rest) = rest"
    using assms(2) by (cases rest; simp add: marked_def takeWhile_append2 dropWhile_append2)+
qed

lemma read_subfields_written:
  assumes "map_res (write_subfield (encode_data m8 nf opts)) sfs = Inr subs" "utf8_options opts"
    "list_all (\<lambda>sf. clean_value (snd sf)) sfs"
  shows "read_subfields utf8_decode here 1 off st (concat subs) = (sfs, []) \<and> marked (concat subs)"
  using assms(1,3)
proof (induction sfs arbitrary: subs off)
  case Nil
  then show ?case by (simp add: marked_def)
next
  case (Cons sf sfs)
  from Cons.prems obtain b subs' where w: "write_subfield (encode_data m8 nf opts) sf = Inr b"
      "map_res (write_subfield (encode_data m8 nf opts)) sfs = Inr subs'" "subs = b # subs'"
    by (auto simp: bind_res_Inr_iff)
  from write_subfield_Inr [OF w(1) assms(2)] obtain c where c: "fst sf = [c]"
      "b = SUBFIELD_DELIMITER # c # encodeUtf8 (snd sf)" "SUBFIELD_DELIMITER \<notin> set (encodeUtf8 (snd sf))" by auto
  have ih: "read_subfields utf8_decode here 1 o' st (concat subs') = (sfs, [])" "marked (concat subs')" for o'
    using Cons.IH [OF w(2)] Cons.prems(2) by auto
  have clean: "utf8_decode (encodeUtf8 (snd sf)) st = (snd sf, [], st)"
    using Cons.prems(2) by (simp add: utf8_decode_encode)
  have whole: "([c], snd sf) = sf" using c(1) by (simp add: prod_eq_iff)
  show ?case
    by (simp add: w(3) c(2) until_marked [OF c(3) ih(2)] clean ih(1) [unfolded One_nat_def] whole marked_def Let_def)
qed

section \<open>One field\<close>

lemma isControlTag_length: "tag_printable t \<Longrightarrow> length t = 3"
  by (simp add: tag_printable_def)

lemma control_field_written:
  assumes "encode_data m8 nf opts v = Inr bs" "utf8_options opts" "clean_value v"
  shows "control_field utf8_decode here st t bs = (ControlField t v [], [])"
  using encode_data_utf8 [OF assms(1,2)] assms(3)
  by (simp add: control_field_def utf8_decode_encode codes_once_def)

lemma data_field_read:
  assumes "\<And>off. read_subfields utf8_decode here 1 off st body = (sfs, [])" "marked body" "sfs \<noteq> []"
    "length i = 2" "hd i \<noteq> SUBFIELD_DELIMITER"
  shows "data_field utf8_decode here st 1 2 from1 t (i @ body) = (DataField t i sfs [], [])"
proof -
  note until = until_marked [of "[]" body, simplified, OF assms(2)]
  have some: "body \<noteq> []" using assms(1) [of 0] assms(3) by auto
  obtain a b where i: "i = [a, b]" "a \<noteq> SUBFIELD_DELIMITER"
    using assms(4,5) by (auto simp: length_Suc_conv numeral_2_eq_2)
  have two: "pad_two [a, b] = [a, b]" "take (min 2 (Suc (Suc (length body)))) (a # b # body) = [a, b]"
      "min 2 (Suc (Suc (length body))) = 2" "drop 2 (a # b # body) = body"
    by (simp_all add: pad_two_def)
  show ?thesis
    using i(2) by (simp add: data_field_def i(1) two until some assms(1) [unfolded One_nat_def] assms(3) codes_once_def Let_def
        del: dropWhile_eq_Nil_conv)
qed

lemma data_field_written:
  assumes "map_res (write_subfield (encode_data m8 nf opts)) sfs = Inr subs" "utf8_options opts"
    "list_all (\<lambda>sf. clean_value (snd sf)) sfs" "sfs \<noteq> []" "length i = 2" "hd i \<noteq> SUBFIELD_DELIMITER"
  shows "data_field utf8_decode here st 1 2 from1 t (i @ concat subs) = (DataField t i sfs [], [])"
  using read_subfields_written [OF assms(1-3), where here = here and st = st] assms(4-6) by (intro data_field_read) auto

text \<open>The two counts the writer forces into a leader, and the scheme it sets for UTF-8.\<close>

definition utf8_leader :: "utext \<Rightarrow> bool" where
  "utf8_leader ldr \<longleftrightarrow> length ldr = 24 \<and> leaderAt ldr LdrCharacterCodingScheme = text_of ''a'' \<and>
     digit_of ldr 10 = Some 2 \<and> digit_of ldr 11 = Some 2 \<and> leaderAt ldr LdrEntryMap = text_of ''4500''"

lemma decodeFieldData_utf8: "utf8_leader ldr \<Longrightarrow> decodeFieldData m8 None ldr = utf8_decode"
  by (simp add: fun_eq_iff decodeFieldData_def utf8_decode_def reads_unicode_def utf8_leader_def)

lemma write_field_Inr:
  assumes "write_field encode f = Inr b"
  shows "\<exists>body. b = body @ [FIELD_TERMINATOR] \<and> length b \<le> 9999 \<and> length (field_tag f) = 3 \<and>
    list_all (\<lambda>c. c \<le> 0xFF) (field_tag f)"
  using assms by (auto simp: write_field_def bind_res_Inr_iff assertStructural_def MAX_FIELD_BYTES_def list_all_iff
      list_ex_iff not_less split: if_splits)

lemma readField_written:
  assumes w: "write_field (encode_data m8 nf opts) f = Inr (body @ [FIELD_TERMINATOR])" and opts: "utf8_options opts"
    and f: "writable_field f" and l: "utf8_leader ldr" and s: "slice from1 to1 bytes = body"
  shows "readField m8 None ldr 1 bytes from1 to1 (field_tag f) n = (f, [])"
proof (cases f)
  case (ControlField t v x)
  with w f have "encode_data m8 nf opts v = Inr body" "clean_value v" "isControlTag t" "x = []"
    by (auto simp: write_field_def writable_field_def bind_res_Inr_iff split: if_splits)
  then show ?thesis
    using control_field_written [OF _ opts, of m8 nf v body "anomaly_in t n" "m8_new m8" t] ControlField
    by (simp add: readField_def decodeFieldData_utf8 [OF l] s Let_def)
next
  case (DataField t i sfs x)
  with f have d: "\<not> isControlTag t" "length i = 2" "hd i \<noteq> SUBFIELD_DELIMITER" "sfs \<noteq> []"
      "list_all (\<lambda>sf. clean_value (snd sf)) sfs" "x = []"
    by (simp_all add: writable_field_def)
  have "pad_two i = i" using d(2) by (simp add: pad_two_def)
  with w DataField obtain subs where subs: "map_res (write_subfield (encode_data m8 nf opts)) sfs = Inr subs"
      "body = i @ concat subs"
    by (auto simp: write_field_def bind_res_Inr_iff split: if_splits)
  have two: "digitAt ldr 10 2 = 2"
    using l by (simp add: digitAt_def utf8_leader_def)
  show ?thesis
    using data_field_written [OF subs(1) opts d(5,4,2,3), of "anomaly_in t n" "m8_new m8" from1 t] d(1,6) DataField
    by (simp add: readField_def decodeFieldData_utf8 [OF l] s subs(2) two)
qed

section \<open>The directory\<close>

lemma decodeLatin1_middle: "length as = i \<Longrightarrow> length bs = w \<Longrightarrow> decodeLatin1 (as @ bs @ cs) i (i + w) = bs"
  by (simp add: decodeLatin1_def slice_def)

lemma at_index_middle: "length as = i \<Longrightarrow> at_index (as @ b # cs) i = Some b"
  by (simp add: at_index_def nth_append)

lemma pad_number_Inr [simp]: "pad_number n w = Inr t \<longleftrightarrow> padUint n w = Some t"
  by (simp add: pad_number_def split: option.split)

lemma padUint_length [simp]: "padUint v w = Some t \<Longrightarrow> length t = w"
  by (rule padUint_digits(1))

lemma read_entry_written:
  assumes w: "write_field (encode_data m8 nf opts) f = Inr b" and opts: "utf8_options opts"
    and f: "writable_field f" and l: "utf8_leader ldr"
    and len: "padUint (length b) 4 = Some len" and pos: "padUint start 5 = Some pos"
    and entry: "bytes = pre @ (field_tag f @ len @ pos) @ mid" and data: "bytes = ahead @ b @ rest"
    and at: "length ahead = base + start" and prev: "prev \<le> int start"
  shows "read_entry m8 None ldr DEFAULT_ENTRY_MAP 1 base bytes (length pre) n prev = ([], Some (f, int start))"
proof -
  from write_field_Inr [OF w] obtain body where body: "b = body @ [FIELD_TERMINATOR]" "length (field_tag f) = 3" by auto
  have tag: "decodeLatin1 bytes (length pre) (length pre + 3) = field_tag f"
    unfolding entry using body(2) decodeLatin1_middle [of pre _ "field_tag f" 3 "len @ pos @ mid"] by simp
  have "readUint ((pre @ field_tag f) @ len @ (pos @ mid)) (length pre + 3) 4 = (Some (length b), False)"
    using body(2) by (intro readUint_padUint [OF len]) simp_all
  then have rlen: "readUint bytes (length pre + 3) 4 = (Some (length b), False)" by (simp add: entry)
  have "readUint ((pre @ field_tag f @ len) @ pos @ mid) (length pre + 7) 5 = (Some start, False)"
    using body(2) len by (intro readUint_padUint [OF pos]) simp_all
  then have rpos: "readUint bytes (length pre + 3 + 4) 5 = (Some start, False)" by (simp add: entry add.assoc)
  have inside: "base + start + length b \<le> length bytes" using data at by simp
  have last: "at_index bytes (base + start + length b - 1) = Some FIELD_TERMINATOR"
    using at_index_middle [of "ahead @ body" "base + start + length b - 1" FIELD_TERMINATOR rest] data at by (simp add: body(1))
  have cut: "slice (base + start) (base + start + length b - 1) bytes = body"
    using at by (simp add: data body(1) slice_def)
  have read: "readField m8 None ldr 1 bytes (base + start) (base + start + length b - 1) (field_tag f) n = (f, [])"
    using w by (intro readField_written [OF _ opts f l cut]) (simp add: body(1))
  have "tag_printable (field_tag f)" using f by (simp add: writable_field_def)
  moreover have "\<not> int start < prev" using prev by simp
  moreover have "\<not> length bytes < base + start" "\<not> length bytes < base + start + length b" using inside by simp_all
  moreover have "base + start < base + start + length b" by (simp add: body(1))
  ultimately show ?thesis
    by (simp only: read_entry_def Let_def entryWidth_default tag rlen rpos last read fst_conv option.case if_True if_False
        prod.case append_Nil simp_thms)
qed

lemma write_fields_shape:
  assumes "write_fields encode start fs = Inr (dir, bodies, end_at)"
  shows "end_at = start + length (concat bodies) \<and> length dir = length fs \<and> (\<forall>e \<in> set dir. length e = 12) \<and>
    (start \<le> MAX_RECORD_BYTES \<longrightarrow> end_at \<le> MAX_RECORD_BYTES)"
  using assms
proof (induction fs arbitrary: start dir bodies)
  case (Cons f fs)
  from Cons.prems obtain b len pos dir' bodies' where w: "write_field encode f = Inr b"
      "padUint (length b) 4 = Some len" "padUint start 5 = Some pos" "start + length b \<le> MAX_RECORD_BYTES"
      "write_fields encode (start + length b) fs = Inr (dir', bodies', end_at)"
      "dir = (field_tag f @ len @ pos) # dir'" "bodies = b # bodies'"
    by (auto simp: bind_res_Inr_iff split: if_splits)
  from write_field_Inr [OF w(1)] have "length (field_tag f) = 3" by auto
  then show ?case using Cons.IH [OF w(5)] w by auto
qed simp

lemma concat_length_12: "\<forall>e \<in> set dir. length e = 12 \<Longrightarrow> length (concat dir) = length dir * 12"
  by (induction dir) auto

lemma read_entries_written:
  assumes "write_fields (encode_data m8 nf opts) (length (concat bodies0)) fs = Inr (dir, bodies, end_at)"
    and "utf8_options opts" "list_all writable_field fs" "utf8_leader ldr" "\<forall>e \<in> set dir0. length e = 12"
    and "base = 24 + length (dir0 @ dir) * 12 + 1" "prev \<le> int (length (concat bodies0))"
    and "bytes = ldr @ concat (dir0 @ dir) @ [FIELD_TERMINATOR] @ concat (bodies0 @ bodies)"
  shows "read_entries (\<lambda>e n prev. read_entry m8 None ldr DEFAULT_ENTRY_MAP 1 base bytes (24 + e * 12) n prev) tag_at
    [length dir0..<length dir0 + length dir] seen prev = (fs, [])"
  using assms
proof (induction fs arbitrary: dir bodies dir0 bodies0 seen prev)
  case Nil
  then show ?case by simp
next
  case (Cons f fs)
  from Cons.prems(1) obtain b len pos dir' bodies' where w: "write_field (encode_data m8 nf opts) f = Inr b"
      "padUint (length b) 4 = Some len" "padUint (length (concat bodies0)) 5 = Some pos"
      "write_fields (encode_data m8 nf opts) (length (concat bodies0) + length b) fs = Inr (dir', bodies', end_at)"
      "dir = (field_tag f @ len @ pos) # dir'" "bodies = b # bodies'"
    by (auto simp: bind_res_Inr_iff split: if_splits)
  from write_field_Inr [OF w(1)] have t: "length (field_tag f) = 3" by auto
  have entry12: "\<forall>e \<in> set (dir0 @ [field_tag f @ len @ pos]). length e = 12"
    using Cons.prems(5) w(2,3) t by auto
  have dir'12: "\<forall>e \<in> set dir'. length e = 12" using write_fields_shape [OF w(4)] by blast
  have ldr: "length ldr = 24" using Cons.prems(4) by (simp add: utf8_leader_def)
  let ?pre = "ldr @ concat dir0"
  let ?ahead = "ldr @ concat (dir0 @ dir) @ [FIELD_TERMINATOR] @ concat bodies0"
  have pre: "length ?pre = 24 + length dir0 * 12" using ldr concat_length_12 [OF Cons.prems(5)] by simp
  have "read_entry m8 None ldr DEFAULT_ENTRY_MAP 1 base bytes (length ?pre) n prev = ([], Some (f, int (length (concat bodies0))))" for n
  proof (rule read_entry_written [OF w(1) Cons.prems(2) _ Cons.prems(4) w(2,3)])
    show "writable_field f" using Cons.prems(3) by simp
    show "bytes = ?pre @ (field_tag f @ len @ pos) @ concat dir' @ [FIELD_TERMINATOR] @ concat (bodies0 @ bodies)"
      by (simp add: Cons.prems(8) w(5))
    show "bytes = ?ahead @ b @ concat bodies'" by (simp add: Cons.prems(8) w(6))
    show "length ?ahead = base + length (concat bodies0)"
      using ldr t w(2,3) by (simp add: Cons.prems(6) w(5) concat_length_12 [OF Cons.prems(5)] concat_length_12 [OF dir'12]
          del: length_concat)
    show "prev \<le> int (length (concat bodies0))" by (rule Cons.prems(7))
  qed
  note here = this [unfolded pre]
  have rest: "read_entries (\<lambda>e n prev. read_entry m8 None ldr DEFAULT_ENTRY_MAP 1 base bytes (24 + e * 12) n prev) tag_at
      [length (dir0 @ [field_tag f @ len @ pos])..<length (dir0 @ [field_tag f @ len @ pos]) + length dir'] seen'
      (int (length (concat bodies0))) = (fs, [])" for seen'
  proof (rule Cons.IH [where bodies = bodies' and ?bodies0.0 = "bodies0 @ [b]"])
    show "write_fields (encode_data m8 nf opts) (length (concat (bodies0 @ [b]))) fs = Inr (dir', bodies', end_at)"
      using w(4) by simp
    show "list_all writable_field fs" using Cons.prems(3) by simp
    show "base = 24 + length ((dir0 @ [field_tag f @ len @ pos]) @ dir') * 12 + 1" using Cons.prems(6) w(5) by simp
    show "bytes = ldr @ concat ((dir0 @ [field_tag f @ len @ pos]) @ dir') @ [FIELD_TERMINATOR] @ concat ((bodies0 @ [b]) @ bodies')"
      by (simp add: Cons.prems(8) w(5,6))
  qed (use Cons.prems(2,4) entry12 in simp_all)
  have "[length dir0..<length dir0 + length dir] = length dir0 # [Suc (length dir0)..<Suc (length dir0) + length dir']"
    by (simp add: w(5) upt_rec [of "length dir0"] del: upt_Suc)
  then show ?case using rest by (simp add: here [unfolded One_nat_def] Let_def del: upt_Suc)
qed

section \<open>The leader\<close>

lemma length_put_at [simp]: "i + length t \<le> length l \<Longrightarrow> length (put_at i t l) = length l"
  by (simp add: put_at_def)

lemma slice_put_same: "i + length t \<le> length l \<Longrightarrow> slice i (i + length t) (put_at i t l) = t"
  by (simp add: slice_def put_at_def)

lemma slice_put_before: "j \<le> i \<Longrightarrow> i \<le> length l \<Longrightarrow> slice a j (put_at i t l) = slice a j l"
  by (cases "a \<le> j") (simp_all add: slice_def put_at_def drop_take min_def)

lemma slice_put_after: "i + length t \<le> a \<Longrightarrow> i + length t \<le> length l \<Longrightarrow> slice a j (put_at i t l) = slice a j l"
  by (simp add: slice_def put_at_def)

lemma at_index_slice: "slice i (Suc i) l = [c] \<Longrightarrow> at_index l i = Some c"
  by (cases "i < length l") (simp_all add: slice_def at_index_def take_Suc_conv_app_nth)

lemma slice_readUint: "slice i (i + w) l = t \<Longrightarrow> length t = w \<Longrightarrow> padUint v w = Some t \<Longrightarrow> 0 < w \<Longrightarrow> i + w \<le> length l \<Longrightarrow>
    readUint (l @ rest) i w = (Some v, False)"
proof -
  assume a: "slice i (i + w) l = t" "length t = w" "padUint v w = Some t" "0 < w" "i + w \<le> length l"
  have "l = take i l @ t @ drop (i + w) l"
    using a(1,2,5) by (simp add: slice_def) (metis add.commute append.assoc append_take_drop_id drop_drop)
  then have whole: "l @ rest = take i l @ t @ (drop (i + w) l @ rest)" by (metis append.assoc)
  show ?thesis
    unfolding whole by (rule readUint_padUint [OF a(3,4)]) (use a(5) in simp)
qed

lemma list_all_put_at: "list_all P l \<Longrightarrow> list_all P t \<Longrightarrow> list_all P (put_at i t l)"
  by (auto simp: put_at_def list_all_iff dest: in_set_takeD in_set_dropD)

lemma padUint_byte: "padUint v w = Some t \<Longrightarrow> list_all (\<lambda>c. c \<le> 0xFF) t"
  using padUint_ascii by (fastforce simp: list_all_iff)

text \<open>The leader of \<open>writeLeader\<close>, over the source leader made printable.\<close>

definition put_leader :: "utext \<Rightarrow> utext \<Rightarrow> utext \<Rightarrow> utext" where
  "put_leader n5 b5 l = put_at 20 (text_of ''4500'') (put_at 11 (text_of ''2'') (put_at 10 (text_of ''2'')
     (put_at 9 (text_of ''a'') (put_at 12 b5 (put_at 0 n5 l)))))"

lemma put_leader_parts:
  assumes "length l = 24" "length n5 = 5" "length b5 = 5"
  shows "length (put_leader n5 b5 l) = 24" "slice 0 5 (put_leader n5 b5 l) = n5" "slice 12 17 (put_leader n5 b5 l) = b5"
    "slice 9 10 (put_leader n5 b5 l) = text_of ''a''" "slice 10 11 (put_leader n5 b5 l) = text_of ''2''"
    "slice 11 12 (put_leader n5 b5 l) = text_of ''2''" "slice 20 24 (put_leader n5 b5 l) = text_of ''4500''"
proof -
  define l1 l2 l3 l4 l5 where d: "l1 = put_at 0 n5 l" "l2 = put_at 12 b5 l1" "l3 = put_at 9 (text_of ''a'') l2"
    "l4 = put_at 10 (text_of ''2'') l3" "l5 = put_at 11 (text_of ''2'') l4"
  have len: "length l1 = 24" "length l2 = 24" "length l3 = 24" "length l4 = 24" "length l5 = 24"
    using assms by (simp_all add: d)
  have whole: "put_leader n5 b5 l = put_at 20 (text_of ''4500'') l5" by (simp add: put_leader_def d)
  show "length (put_leader n5 b5 l) = 24" by (simp add: whole len)
  show "slice 20 24 (put_leader n5 b5 l) = text_of ''4500''"
    using slice_put_same [of 20 "text_of ''4500''" l5] by (simp add: whole len)
  have below20: "slice a j (put_leader n5 b5 l) = slice a j l5" if "j \<le> 20" for a j
    using that by (simp add: whole slice_put_before len)
  show "slice 11 12 (put_leader n5 b5 l) = text_of ''2''"
    using slice_put_same [of 11 "text_of ''2''" l4] by (simp add: below20 d(5) len)
  show "slice 10 11 (put_leader n5 b5 l) = text_of ''2''"
    using slice_put_same [of 10 "text_of ''2''" l3] by (simp add: below20 d(4,5) len slice_put_before)
  show "slice 9 10 (put_leader n5 b5 l) = text_of ''a''"
    using slice_put_same [of 9 "text_of ''a''" l2] by (simp add: below20 d(3,4,5) len slice_put_before)
  show "slice 12 17 (put_leader n5 b5 l) = b5"
    using slice_put_same [of 12 b5 l1] assms(3) by (simp add: below20 d(2,3,4,5) len slice_put_after)
  show "slice 0 5 (put_leader n5 b5 l) = n5"
    using slice_put_same [of 0 n5 l] assms by (simp add: below20 d(1,2,3,4,5) len slice_put_before)
qed

lemma writeLeader_utf8:
  assumes "writeLeader source n base Utf8 = Inr ldr"
  shows "utf8_leader ldr \<and> list_all (\<lambda>c. c \<le> 0xFF) ldr \<and> fst (readUint (ldr @ rest) 0 5) = Some n \<and>
    fst (readUint (ldr @ rest) 12 5) = Some base"
proof -
  define l where "l = map (\<lambda>c. if c < 0x20 \<or> 0x7E < c then 0x20 else c)
    (if 24 \<le> length source then take 24 source else source @ replicate (24 - length source) 0x20)"
  have l: "length l = 24" "list_all (\<lambda>c. c \<le> 0xFF) l" by (auto simp: l_def list_all_iff)
  from assms obtain n5 b5 where p: "padUint n 5 = Some n5" "padUint base 5 = Some b5" and ldr: "ldr = put_leader n5 b5 l"
    by (auto simp: writeLeader_def l_def Let_def bind_res_Inr_iff put_leader_def)
  have len: "length n5 = 5" "length b5 = 5" using p by simp_all
  note at = put_leader_parts [OF l(1) len, folded ldr]
  have "at_index ldr 10 = Some 50" "at_index ldr 11 = Some 50"
    using at(5,6) by (auto intro!: at_index_slice simp: text_of_def)
  then have "utf8_leader ldr"
    using at(1,4,7) by (simp add: utf8_leader_def leaderAt_def digit_of_def)
  moreover have "list_all (\<lambda>c. c \<le> 0xFF) ldr"
    unfolding ldr put_leader_def by (intro list_all_put_at l(2) p [THEN padUint_byte]) (simp_all add: text_of_def)
  moreover have "fst (readUint (ldr @ rest) 0 5) = Some n"
    using slice_readUint [of 0 5 ldr n5 n rest] at(1,2) len p by simp
  moreover have "fst (readUint (ldr @ rest) 12 5) = Some base"
    using slice_readUint [of 12 5 ldr b5 base rest] at(1,3) len p by simp
  ultimately show ?thesis by blast
qed

section \<open>One record\<close>

lemma first_index_append: "b \<notin> set xs \<Longrightarrow> first_index b (xs @ b # ys) = Some (length xs)"
  by (induction xs) auto

lemma directory_no_terminator:
  "write_fields encode start fs = Inr (dir, bodies, end_at) \<Longrightarrow> list_all writable_field fs \<Longrightarrow>
     FIELD_TERMINATOR \<notin> set (concat dir)"
proof (induction fs arbitrary: start dir bodies)
  case (Cons f fs)
  from Cons.prems(1) obtain b len pos dir' bodies' where w: "padUint (length b) 4 = Some len" "padUint start 5 = Some pos"
      "write_fields encode (start + length b) fs = Inr (dir', bodies', end_at)" "dir = (field_tag f @ len @ pos) # dir'"
      "bodies = b # bodies'"
    by (auto simp: bind_res_Inr_iff split: if_splits)
  have "FIELD_TERMINATOR \<notin> set (field_tag f)"
    using Cons.prems(2) by (auto simp: writable_field_def tag_printable_def list_all_iff delimiters)
  moreover have "FIELD_TERMINATOR \<notin> set len" "FIELD_TERMINATOR \<notin> set pos"
    using padUint_ascii [OF w(1), of FIELD_TERMINATOR] padUint_ascii [OF w(2), of FIELD_TERMINATOR] by (auto simp: delimiters)
  ultimately show ?case using Cons.IH [OF w(3)] Cons.prems(2) w(4) by simp
qed simp

lemma writeIso2709_Inr:
  assumes "writeIso2709 m8 nf opts r = Inr bs"
  obtains dir bodies start ldr where
    "write_fields (encode_data m8 nf opts) 0 (mr_fields r) = Inr (dir, bodies, start)"
    "writeLeader (mr_leader r) (length bs) (24 + length dir * 12 + 1) (write_encoding opts) = Inr ldr"
    "bs = ldr @ concat dir @ [FIELD_TERMINATOR] @ concat bodies @ [RECORD_TERMINATOR]" "length ldr = 24" "length bs \<le> 99999"
proof -
  from assms obtain dir bodies start ldr where
    w: "write_fields (encode_data m8 nf opts) 0 (mr_fields r) = Inr (dir, bodies, start)"
    and l: "writeLeader (mr_leader r) (24 + length dir * 12 + 1 + start + 1) (24 + length dir * 12 + 1) (write_encoding opts) = Inr ldr"
    and bs: "bs = ldr @ concat dir @ [FIELD_TERMINATOR] @ concat bodies @ [RECORD_TERMINATOR]"
    and total: "24 + length dir * 12 + 1 + start + 1 \<le> 99999"
    by (auto simp: writeIso2709_def bind_res_Inr_iff Let_def concatBytes_def MAX_RECORD_BYTES_def split: if_splits)
  from l have "length ldr = 24"
    by (auto simp: writeLeader_def Let_def bind_res_Inr_iff text_of_def)
  then have "length bs = 24 + length dir * 12 + 1 + start + 1"
    using write_fields_shape [OF w] by (simp add: bs concat_length_12 del: length_concat)
  with l total have "writeLeader (mr_leader r) (length bs) (24 + length dir * 12 + 1) (write_encoding opts) = Inr ldr"
      "length bs \<le> 99999" by simp_all
  with w bs \<open>length ldr = 24\<close> show ?thesis by (intro that)
qed

theorem written_record_reads_back:
  assumes w: "writeIso2709 m8 nf opts r = Inr bs" and opts: "utf8_options opts"
    and f: "list_all writable_field (mr_fields r)"
  shows "\<exists>ldr. readIso2709Record m8 None bs = Inr \<lparr>pr_record = \<lparr>mr_leader = ldr, mr_fields = mr_fields r\<rparr>, pr_anomalies = []\<rparr> \<and>
    writeLeader (mr_leader r) (length bs) (25 + length (mr_fields r) * 12) Utf8 = Inr ldr"
proof -
  from w obtain dir bodies start ldr where
    fields: "write_fields (encode_data m8 nf opts) 0 (mr_fields r) = Inr (dir, bodies, start)" and
    ldr: "writeLeader (mr_leader r) (length bs) (24 + length dir * 12 + 1) (write_encoding opts) = Inr ldr" and
    bs: "bs = ldr @ concat dir @ [FIELD_TERMINATOR] @ concat bodies @ [RECORD_TERMINATOR]"
    by (rule writeIso2709_Inr) blast
  have ldr8: "writeLeader (mr_leader r) (length bs) (24 + length dir * 12 + 1) Utf8 = Inr ldr"
    using ldr opts by (simp add: utf8_options_def)
  note lw = writeLeader_utf8 [OF ldr8]
  have l: "utf8_leader ldr" "length ldr = 24" using lw by (auto simp: utf8_leader_def)
  have shape: "length (concat dir) = length dir * 12" "length dir = length (mr_fields r)"
    using write_fields_shape [OF fields] concat_length_12 [of dir] by blast+
  define bytes where "bytes = ldr @ concat dir @ [FIELD_TERMINATOR] @ concat bodies"
  have input: "bs = bytes @ [RECORD_TERMINATOR]" using bs by (simp add: bytes_def)
  let ?base = "24 + length dir * 12 + 1"
  have long: "\<not> length bytes < 24" "?base \<le> length bytes"
    using l(2) shape(1) by (simp_all add: bytes_def del: length_concat)
  have latin: "decodeLatin1 bytes 0 24 = ldr" using l(2) by (simp add: decodeLatin1_def slice_def bytes_def)
  have declared: "fst (readUint bytes 0 5) = Some (length bs)" "fst (readUint bytes 12 5) = Some ?base"
    using lw [of "concat dir @ [FIELD_TERMINATOR] @ concat bodies"] by (simp_all add: bytes_def)
  have entry_map: "readEntryMap ldr = (DEFAULT_ENTRY_MAP, True)"
    using l(1) by (simp add: readEntryMap_def utf8_leader_def)
  have counts: "digitAt ldr 10 2 = 2" "digitAt ldr 11 2 = 2" using l(1) by (simp_all add: digitAt_def utf8_leader_def)
  have "first_index FIELD_TERMINATOR (drop 24 bytes) = Some (length dir * 12)"
    using first_index_append [OF directory_no_terminator [OF fields f], of "concat bodies"] l(2) shape(1)
    by (simp add: bytes_def del: length_concat)
  then have terminator: "map_option (\<lambda>i. 24 + i) (first_index FIELD_TERMINATOR (drop 24 bytes)) = Some (24 + length dir * 12)" by simp
  have mark: "at_index bytes (24 + length dir * 12) = Some FIELD_TERMINATOR"
    using at_index_middle [of "ldr @ concat dir" "24 + length dir * 12" FIELD_TERMINATOR "concat bodies"] l(2) shape(1)
    by (simp add: bytes_def del: length_concat)
  have entries: "read_entries (\<lambda>e n prev. read_entry m8 None ldr DEFAULT_ENTRY_MAP 1 ?base bytes (24 + e * 12) n prev) tag_at
      [0..<length dir] [] (- 1) = (mr_fields r, [])" for tag_at
    using read_entries_written [of m8 nf opts "[]" "mr_fields r" dir bodies start ldr "[]" ?base "- 1" bytes tag_at "[]"] fields opts f l(1)
    by (simp add: bytes_def)
  have base25: "?base = 25 + length dir * 12" by simp
  have parts: "\<not> length bytes < 24" "bs \<noteq> []" "last bs = RECORD_TERMINATOR" "butlast bs = bytes"
      "max (?base - 1) 24 = 24 + length dir * 12" "24 + length dir * 12 - 24 = length dir * 12"
      "length dir * 12 mod 12 = 0" "length dir * 12 div 12 = length dir" "max 1 (2 - 1) = (1::nat)"
      "24 \<le> ?base \<and> ?base \<le> length bytes" "?base - 1 = 24 + length dir * 12"
    using long by (simp_all add: input)
  have "readIso2709Record m8 None bs = Inr \<lparr>pr_record = \<lparr>mr_leader = ldr, mr_fields = mr_fields r\<rparr>, pr_anomalies = []\<rparr>"
    unfolding readIso2709Record_def Let_def parts
    by (simp add: latin declared entry_map counts terminator mark entries [unfolded One_nat_def base25 [unfolded One_nat_def]]
        parts long(2) [unfolded base25] del: length_concat)
  moreover have "writeLeader (mr_leader r) (length bs) (25 + length (mr_fields r) * 12) Utf8 = Inr ldr"
    using ldr8 by (simp add: shape(2) algebra_simps)
  ultimately show ?thesis by blast
qed

section \<open>A stream of records\<close>

lemma implied_loop_written:
  fixes bodies0 :: "byte list list"
  assumes "write_fields encode (length (concat bodies0)) fs = Inr (dir, bodies, end_at)"
    and "length ldr = 24" "\<forall>e \<in> set dir0. length e = 12" "bytes = ldr @ concat (dir0 @ dir) @ rest"
  shows "implied_loop bytes [length dir0..<length dir0 + length dir] (length (concat bodies0)) = Some end_at"
  using assms
proof (induction fs arbitrary: dir bodies dir0 bodies0)
  case (Cons f fs)
  from Cons.prems(1) obtain b len pos dir' bodies' where w: "write_field encode f = Inr b"
      "padUint (length b) 4 = Some len" "padUint (length (concat bodies0)) 5 = Some pos"
      "write_fields encode (length (concat bodies0) + length b) fs = Inr (dir', bodies', end_at)"
      "dir = (field_tag f @ len @ pos) # dir'" "bodies = b # bodies'"
    by (auto simp: bind_res_Inr_iff split: if_splits)
  from write_field_Inr [OF w(1)] have t: "length (field_tag f) = 3" by auto
  let ?pre = "ldr @ concat dir0"
  have pre: "length ?pre = 24 + length dir0 * 12" using Cons.prems(2) concat_length_12 [OF Cons.prems(3)] by simp
  have "readUint ((?pre @ field_tag f) @ len @ (pos @ concat dir' @ rest)) (24 + length dir0 * 12 + 3) 4 = (Some (length b), False)"
    using pre t by (intro readUint_padUint [OF w(2)]) simp_all
  then have rlen: "readUint bytes (24 + length dir0 * 12 + 3) 4 = (Some (length b), False)" by (simp add: Cons.prems(4) w(5))
  have "readUint ((?pre @ field_tag f @ len) @ pos @ (concat dir' @ rest)) (24 + length dir0 * 12 + 7) 5 = (Some (length (concat bodies0)), False)"
    using pre t w(2) by (intro readUint_padUint [OF w(3)]) simp_all
  then have rpos: "readUint bytes (24 + length dir0 * 12 + 7) 5 = (Some (length (concat bodies0)), False)"
    by (simp add: Cons.prems(4) w(5))
  have reads: "readUint bytes (27 + length dir0 * 12) 4 = (Some (length b), False)"
      "readUint bytes (31 + length dir0 * 12) 5 = (Some (length (concat bodies0)), False)"
    using rlen rpos by (simp_all add: algebra_simps)
  have ih: "implied_loop bytes [length (dir0 @ [field_tag f @ len @ pos])..<length (dir0 @ [field_tag f @ len @ pos]) + length dir']
      (length (concat (bodies0 @ [b]))) = Some end_at"
    by (rule Cons.IH [where bodies = bodies']) (use Cons.prems w t in auto)
  have "[length dir0..<length dir0 + length dir] = length dir0 # [Suc (length dir0)..<Suc (length dir0) + length dir']"
    by (simp add: w(5) upt_rec [of "length dir0"] del: upt_Suc)
  then show ?case using ih by (simp add: reads del: upt_Suc length_concat)
qed simp

lemma starts_with_number: "fst (readUint (b # bs) 0 5) = Some n \<Longrightarrow> \<not> is_separator b"
  by (auto simp: readUint_def slice_def is_separator_def split: if_splits)

lemma record_end_written:
  assumes w: "writeIso2709 m8 nf opts r = Inr bs" and opts: "write_encoding opts = Utf8"
  shows "record_end (bs @ rest) = Some (length bs)" "\<exists>b bs'. bs = b # bs' \<and> \<not> is_separator b"
proof -
  from w obtain dir bodies start ldr where
    fields: "write_fields (encode_data m8 nf opts) 0 (mr_fields r) = Inr (dir, bodies, start)" and
    ldr: "writeLeader (mr_leader r) (length bs) (24 + length dir * 12 + 1) (write_encoding opts) = Inr ldr" and
    bs: "bs = ldr @ concat dir @ [FIELD_TERMINATOR] @ concat bodies @ [RECORD_TERMINATOR]" and l: "length ldr = 24"
    by (rule writeIso2709_Inr) blast
  note lw = writeLeader_utf8 [OF ldr [unfolded opts], of "drop 24 bs @ rest"]
  have whole: "bs @ rest = ldr @ (drop 24 bs @ rest)" using l by (simp add: bs)
  have shape: "length (concat dir) = length dir * 12" "start = length (concat bodies)" "\<forall>e \<in> set dir. length e = 12"
    using write_fields_shape [OF fields] concat_length_12 [of dir] by (simp_all del: length_concat)
  have total: "length bs = 24 + length dir * 12 + 1 + start + 1" using l shape(1,2) by (simp add: bs del: length_concat)
  have declared: "fst (readUint (bs @ rest) 0 5) = Some (length bs)" "fst (readUint (bs @ rest) 12 5) = Some (25 + length dir * 12)"
    using lw by (simp_all add: whole [symmetric])
  have "implied_loop (bs @ rest) [length ([]::utext list)..<length ([]::utext list) + length dir] (length (concat ([]::byte list list))) = Some start"
    by (rule implied_loop_written [where bodies = bodies and ldr = ldr and encode = "encode_data m8 nf opts"])
      (use fields l in \<open>auto simp: bs\<close>)
  then have "impliedLength (bs @ rest) = None \<or> impliedLength (bs @ rest) = Some (length bs)"
    using declared(2) total by (simp add: impliedLength_def Let_def)
  moreover have "at_index (bs @ rest) (length bs - 1) = Some RECORD_TERMINATOR"
    using at_index_middle [of "butlast bs" "length bs - 1" RECORD_TERMINATOR rest] by (simp add: bs butlast_append)
  moreover have "24 \<le> length bs" using total by simp
  ultimately show "record_end (bs @ rest) = Some (length bs)"
    using declared(1) by (auto simp: record_end_def Let_def)
  show "\<exists>b bs'. bs = b # bs' \<and> \<not> is_separator b"
    using starts_with_number declared(1) \<open>24 \<le> length bs\<close> by (cases bs) auto
qed

definition self_delimiting :: "byte list \<Rightarrow> bool" where
  "self_delimiting bs \<longleftrightarrow> (\<forall>rest. record_end (bs @ rest) = Some (length bs)) \<and> (\<exists>b bs'. bs = b # bs' \<and> \<not> is_separator b)"

lemma splitIso2709_concat: "list_all self_delimiting records \<Longrightarrow> splitIso2709 (concat records) = records"
proof (induction records)
  case Nil
  then show ?case by (simp add: splitIso2709.simps)
next
  case (Cons bs records)
  then obtain b bs' where b: "bs = b # bs'" "\<not> is_separator b" by (auto simp: self_delimiting_def)
  have "record_end (bs @ concat records) = Some (length bs)" using Cons.prems by (simp add: self_delimiting_def)
  then have "splitIso2709 (bs @ concat records) = take (length bs) (bs @ concat records) # splitIso2709 (drop (length bs) (bs @ concat records))"
    using b by (subst splitIso2709.simps) simp
  then show ?case using Cons by simp
qed

text \<open>A whole stream: what is written record by record is read record by record.\<close>

theorem written_stream_reads_back:
  assumes w: "map_res (writeIso2709 m8 nf opts) rs = Inr written" and opts: "utf8_options opts"
    and f: "list_all (\<lambda>r. list_all writable_field (mr_fields r)) rs"
  shows "\<exists>parsed. readIso2709 m8 None (concatBytes written) = Inr parsed \<and>
    map (mr_fields \<circ> pr_record) parsed = map mr_fields rs \<and> list_all (\<lambda>p. pr_anomalies p = []) parsed"
proof -
  have w2: "list_all2 (\<lambda>r bs. writeIso2709 m8 nf opts r = Inr bs) rs written" using w by (simp add: map_res_Inr_iff)
  have "list_all self_delimiting written"
    using w2
  proof (induction rule: list_all2_induct)
    case (Cons r rs bs written)
    have "write_encoding opts = Utf8" using opts by (simp add: utf8_options_def)
    then have "self_delimiting bs" using record_end_written [OF Cons.hyps(1)] by (simp add: self_delimiting_def)
    then show ?case using Cons.IH by simp
  qed simp
  then have split: "splitIso2709 (concat written) = written" by (rule splitIso2709_concat)
  have "\<exists>parsed. map_res (readIso2709Record m8 None) written = Inr parsed \<and>
      map (mr_fields \<circ> pr_record) parsed = map mr_fields rs \<and> list_all (\<lambda>p. pr_anomalies p = []) parsed"
    using w2 f
  proof (induction rule: list_all2_induct)
    case (Cons r rs bs written)
    have "list_all (\<lambda>r. list_all writable_field (mr_fields r)) rs" using Cons.prems by simp
    from Cons.IH [OF this] obtain parsed where "map_res (readIso2709Record m8 None) written = Inr parsed"
        "map (mr_fields \<circ> pr_record) parsed = map mr_fields rs" "list_all (\<lambda>p. pr_anomalies p = []) parsed" by blast
    moreover obtain p where "readIso2709Record m8 None bs = Inr p" "mr_fields (pr_record p) = mr_fields r" "pr_anomalies p = []"
      using written_record_reads_back [OF Cons.hyps(1) opts] Cons.prems by auto
    ultimately show ?case by (intro exI [of _ "p # parsed"]) (simp add: comp_def)
  qed simp
  then show ?thesis by (simp add: readIso2709_def concatBytes_def split)
qed

end
