(* ===== verification/Marc_Cases.thy ===== *)
theory Marc_Cases
  imports Iso2709_Round_Trip "HOL-Library.Code_Target_Nat"
begin

text \<open>
  The MARC codec on concrete records: the inputs at which the round trips are applied, and two at
  which they end. The MARC-8 codec is not called on the UTF-8 path; \<open>no_marc8\<close> stands for it.
\<close>

definition no_marc8 :: "unit marc8_codec" where
  "no_marc8 = \<lparr>m8_new = (), m8_decode = (\<lambda>bs st. (bs, [], st)), m8_encode = (\<lambda>t. Inr t)\<rparr>"

definition as_it_is :: "norm_form \<Rightarrow> utext \<Rightarrow> utext" where
  "as_it_is n t = t"

definition plain_utf8 :: write_options where
  "plain_utf8 = \<lparr>wo_encoding = None, wo_normalization = None\<rparr>"

text \<open>A control field and a data field, with Greek letters and a character outside the basic plane.\<close>

definition sample_record :: marc_record where
  "sample_record = \<lparr>mr_leader = [], mr_fields =
     [ControlField (text_of ''001'') (text_of ''42'') [],
      DataField (text_of ''245'') (text_of ''10'') [(text_of ''a'', [0x3A6, 0x03CE, 0x20]), (text_of ''c'', [0xD83D, 0xDCD6])] []]\<rparr>"

definition written :: "marc_record \<Rightarrow> byte list" where
  "written r = (case writeIso2709 no_marc8 as_it_is plain_utf8 r of Inr bs \<Rightarrow> bs | Inl e \<Rightarrow> [])"

definition read_back :: "marc_record \<Rightarrow> (marc_field list \<times> anomaly_code list) option" where
  "read_back r = (case readIso2709Record no_marc8 None (written r) of Inl e \<Rightarrow> None
     | Inr p \<Rightarrow> Some (mr_fields (pr_record p), map an_code (pr_anomalies p)))"

lemma sample_written: "writeIso2709 no_marc8 as_it_is plain_utf8 sample_record = Inr (written sample_record)"
  by code_simp

lemma sample_options: "utf8_options plain_utf8" "list_all writable_field (mr_fields sample_record)"
  by code_simp+

text \<open>The writer checks that structure is one byte, not that it is no delimiter: a first indicator
  \<open>0x1F\<close> is written, and read back as a field without indicators and one more subfield.\<close>

definition forged_record :: marc_record where
  "forged_record = \<lparr>mr_leader = [], mr_fields =
     [DataField (text_of ''500'') [0x1F, 0x78] [(text_of ''a'', text_of ''y'')] []]\<rparr>"

lemma delimiter_in_indicators:
  "read_back forged_record = Some ([DataField (text_of ''500'') (text_of ''  '')
     [(text_of ''x'', []), (text_of ''a'', text_of ''y'')] [DataFieldHasNoIndicators]], [DataFieldHasNoIndicators])"
  by code_simp

text \<open>A value that begins with U+FEFF loses it, and nothing is logged.\<close>

lemma leading_feff_lost:
  "read_back \<lparr>mr_leader = [], mr_fields = [ControlField (text_of ''001'') [0xFEFF, 0x41] []]\<rparr> =
     Some ([ControlField (text_of ''001'') [0x41] []], [])"
  by code_simp

end
