(* ===== verification/Marc_Properties.thy ===== *)
theory Marc_Properties
  imports Marc_Cases
begin

text \<open>What the binary MARC codec guarantees: the round trips, the writer's limits, the splitter.\<close>





section \<open>The writer's limits\<close>

lemma write_fields_iff:
  "start \<le> MAX_RECORD_BYTES \<Longrightarrow> (\<exists>dir bodies end_at. write_fields encode start fs = Inr (dir, bodies, end_at) \<and> P (length (concat bodies))) \<longleftrightarrow>
     (\<exists>bodies. map_res (write_field encode) fs = Inr bodies \<and> start + length (concat bodies) \<le> MAX_RECORD_BYTES \<and> P (length (concat bodies)))"
proof (induction fs arbitrary: start P)
  case Nil
  then show ?case by auto
next
  case (Cons f fs)
  show ?case
  proof (cases "write_field encode f")
    case (Inr b)
    from write_field_Inr [OF Inr] have "length b \<le> 9999" by blast
    then obtain len where len: "padUint (length b) 4 = Some len" using padUint_Some [of "length b" 4] by auto
    obtain pos where pos: "padUint start 5 = Some pos"
      using padUint_Some [of start 5] Cons.prems by (auto simp: MAX_RECORD_BYTES_def)
    show ?thesis
    proof (cases "start + length b \<le> MAX_RECORD_BYTES")
      case True
      show ?thesis
        using Cons.IH [OF True, of "\<lambda>n. P (length b + n)"] True
        by (auto simp: Inr len pos bind_res_Inr_iff add.assoc simp del: length_concat)
    next
      case False
      then show ?thesis by (auto simp: Inr len pos bind_res_Inr_iff)
    qed
  qed (simp add: bind_res_Inr_iff)
qed

lemma directory_latin1:
  "write_fields encode start fs = Inr (dir, bodies, end_at) \<Longrightarrow> list_all (\<lambda>c. c \<le> 0xFF) (concat dir)"
proof (induction fs arbitrary: start dir bodies)
  case (Cons f fs)
  from Cons.prems obtain b len pos dir' bodies' where w: "write_field encode f = Inr b"
      "padUint (length b) 4 = Some len" "padUint start 5 = Some pos"
      "write_fields encode (start + length b) fs = Inr (dir', bodies', end_at)" "dir = (field_tag f @ len @ pos) # dir'"
      "bodies = b # bodies'"
    by (auto simp: bind_res_Inr_iff split: if_splits)
  from write_field_Inr [OF w(1)] have "list_all (\<lambda>c. c \<le> 0xFF) (field_tag f)" by blast
  then show ?case using Cons.IH [OF w(4)] padUint_byte [OF w(2)] padUint_byte [OF w(3)] by (simp add: w(5))
qed simp

lemma writeLeader_total:
  assumes "n \<le> 99999" "base \<le> 99999"
  shows "\<exists>ldr. writeLeader source n base Utf8 = Inr ldr"
proof -
  obtain a where "padUint n 5 = Some a" using padUint_Some [of n 5] assms by auto
  moreover obtain b where "padUint base 5 = Some b" using padUint_Some [of base 5] assms by auto
  ultimately show ?thesis by (simp add: writeLeader_def Let_def pad_number_def)
qed

text \<open>
  C27. Nothing is truncated: in UTF-8 the writer succeeds exactly when every field can be written
  (one-byte tags, indicators and codes, no delimiter in a value, at most 9,999 bytes) and the
  record, directory and terminators included, is at most 99,999 bytes long.
\<close>

theorem writer_succeeds_iff:
  assumes "write_encoding opts = Utf8"
  shows "(\<exists>bs. writeIso2709 m8 nf opts r = Inr bs) \<longleftrightarrow>
    (\<exists>bodies. map_res (write_field (encode_data m8 nf opts)) (mr_fields r) = Inr bodies \<and>
       26 + 12 * length (mr_fields r) + length (concat bodies) \<le> 99999)"
    (is "?w \<longleftrightarrow> ?fits")
proof -
  let ?enc = "encode_data m8 nf opts"
  let ?long = "\<lambda>k. 26 + 12 * length (mr_fields r) + k \<le> 99999"
  have finish: "writeIso2709 m8 nf opts r = Inr (the_bs :: byte list) \<Longrightarrow> ?long k"
    if w: "write_fields ?enc 0 (mr_fields r) = Inr (dir, bodies, e)" and k: "k = length (concat bodies)" for dir bodies e k the_bs
    using write_fields_shape [OF w] by (auto simp: k writeIso2709_def w Let_def MAX_RECORD_BYTES_def split: if_splits)
  have start: "\<exists>bs. writeIso2709 m8 nf opts r = Inr bs"
    if w: "write_fields ?enc 0 (mr_fields r) = Inr (dir, bodies, e)" and k: "?long (length (concat bodies))" for dir bodies e
  proof -
    have shape: "e = length (concat bodies)" "length dir = length (mr_fields r)"
      using write_fields_shape [OF w] by auto
    obtain ldr where ldr: "writeLeader (mr_leader r) (24 + length dir * 12 + 1 + e + 1) (24 + length dir * 12 + 1) Utf8 = Inr ldr"
      using writeLeader_total [of "24 + length dir * 12 + 1 + e + 1" "24 + length dir * 12 + 1"] k shape by auto
    have "list_all (\<lambda>c. c \<le> 0xFF) ldr" using writeLeader_utf8 [OF ldr] by blast
    then show ?thesis
      using k shape ldr directory_latin1 [OF w]
      by (simp add: writeIso2709_def w Let_def MAX_RECORD_BYTES_def assms bind_res_Inr_iff del: length_concat)
  qed
  have fields: "(\<exists>dir bodies e. write_fields ?enc 0 (mr_fields r) = Inr (dir, bodies, e) \<and> ?long (length (concat bodies))) \<longleftrightarrow> ?fits"
    using write_fields_iff [of 0 ?enc "mr_fields r" ?long] by (auto simp: MAX_RECORD_BYTES_def)
  show ?thesis
  proof
    assume ?w
    then obtain dir bodies e where "write_fields ?enc 0 (mr_fields r) = Inr (dir, bodies, e)"
      by (auto simp: writeIso2709_def bind_res_Inr_iff)
    with finish \<open>?w\<close> show ?fits unfolding fields [symmetric] by blast
  next
    assume ?fits
    with start show ?w unfolding fields [symmetric] by blast
  qed
qed

theorem writer_succeeds_iff_witness:
  "\<exists>bodies. map_res (write_field (encode_data no_marc8 as_it_is plain_utf8)) (mr_fields sample_record) = Inr bodies \<and>
     26 + 12 * length (mr_fields sample_record) + length (concat bodies) \<le> 99999"
  using writer_succeeds_iff [of plain_utf8 no_marc8 as_it_is sample_record] sample_written sample_options(1)
  by (simp add: utf8_options_def)

section \<open>The splitter\<close>




end
