(* ===== verification/Locks.thy ===== *)
theory Locks
  imports Prelude
begin

text \<open>
  Advisory locks taken in one order (\<open>apps/api/src/platform/locks.ts\<close>): the order, the list a
  transaction acquires, and what the order is for: transactions that all take their locks by
  \<open>acquireLocks\<close> never wait for each other in a circle.
\<close>

section \<open>The order\<close>

datatype lock_domain = PolicyLock | PatronLock | BibLock | ItemLock | DrawerLock

primrec LOCK_DOMAIN_RANK :: "lock_domain \<Rightarrow> int" where
  "LOCK_DOMAIN_RANK PolicyLock = 0"
| "LOCK_DOMAIN_RANK PatronLock = 1"
| "LOCK_DOMAIN_RANK BibLock = 2"
| "LOCK_DOMAIN_RANK ItemLock = 3"
| "LOCK_DOMAIN_RANK DrawerLock = 4"

primrec domain_name :: "lock_domain \<Rightarrow> string" where
  "domain_name PolicyLock = ''policy''"
| "domain_name PatronLock = ''patron''"
| "domain_name BibLock = ''bib''"
| "domain_name ItemLock = ''item''"
| "domain_name DrawerLock = ''drawer''"

datatype lock_key = LockKey (lock_domain_of: lock_domain) (lock_id: string)

definition lockToken :: "lock_key \<Rightarrow> string" where
  "lockToken k = domain_name (lock_domain_of k) @ '':'' @ lock_id k"

definition compareLocks :: "lock_key \<Rightarrow> lock_key \<Rightarrow> int" where
  "compareLocks a b =
     (let r = LOCK_DOMAIN_RANK (lock_domain_of a) - LOCK_DOMAIN_RANK (lock_domain_of b) in
      if r \<noteq> 0 then r else if lock_id a < lock_id b then - 1 else if lock_id b < lock_id a then 1 else 0)"

fun unique_keys :: "string list \<Rightarrow> lock_key list \<Rightarrow> lock_key list" where
  "unique_keys seen [] = []"
| "unique_keys seen (k # ks) = (if lockToken k \<in> set seen then unique_keys seen ks
     else k # unique_keys (lockToken k # seen) ks)"

definition orderLocks :: "lock_key list \<Rightarrow> lock_key list" where
  "orderLocks keys = js_sort compareLocks (unique_keys [] keys)"

text \<open>The tokens of the one statement, in the order the function scan yields them.\<close>

definition acquireLocks :: "lock_key list \<Rightarrow> string list" where
  "acquireLocks keys = map lockToken (orderLocks keys)"

section \<open>A linear order on keys\<close>

lemma LOCK_DOMAIN_RANK_inj: "LOCK_DOMAIN_RANK a = LOCK_DOMAIN_RANK b \<longleftrightarrow> a = b"
  by (cases a; cases b) simp_all

lemma compareLocks_le:
  "compareLocks a b \<le> 0 \<longleftrightarrow> LOCK_DOMAIN_RANK (lock_domain_of a) < LOCK_DOMAIN_RANK (lock_domain_of b) \<or>
     lock_domain_of a = lock_domain_of b \<and> lock_id a \<le> lock_id b"
  using LOCK_DOMAIN_RANK_inj [of "lock_domain_of a" "lock_domain_of b"]
  by (auto simp: compareLocks_def Let_def not_less)

instantiation lock_key :: linorder
begin

definition less_eq_lock_key :: "lock_key \<Rightarrow> lock_key \<Rightarrow> bool" where
  "less_eq_lock_key a b \<longleftrightarrow> compareLocks a b \<le> 0"

definition less_lock_key :: "lock_key \<Rightarrow> lock_key \<Rightarrow> bool" where
  "less_lock_key a b \<longleftrightarrow> compareLocks a b \<le> 0 \<and> \<not> compareLocks b a \<le> 0"

instance
proof
  fix a b c :: lock_key
  show "a < b \<longleftrightarrow> a \<le> b \<and> \<not> b \<le> a" by (simp add: less_lock_key_def less_eq_lock_key_def)
  show "a \<le> a" by (simp add: less_eq_lock_key_def compareLocks_le)
  show "a \<le> b \<Longrightarrow> b \<le> c \<Longrightarrow> a \<le> c" by (auto simp: less_eq_lock_key_def compareLocks_le)
  show "a \<le> b \<Longrightarrow> b \<le> a \<Longrightarrow> a = b" by (cases a; cases b) (auto simp: less_eq_lock_key_def compareLocks_le)
  show "a \<le> b \<or> b \<le> a"
    using LOCK_DOMAIN_RANK_inj by (fastforce simp: less_eq_lock_key_def compareLocks_le not_less)
qed

end

interpretation locks: keyed_comparator compareLocks "\<lambda>k. k"
proof
  fix a b c :: lock_key
  show "compareLocks b a < 0 \<longleftrightarrow> 0 < compareLocks a b"
    by (auto simp: compareLocks_def Let_def)
  show "compareLocks a b \<le> 0 \<Longrightarrow> compareLocks b c \<le> 0 \<Longrightarrow> compareLocks a c \<le> 0"
    by (auto simp: compareLocks_le)
  show "compareLocks a b = 0 \<Longrightarrow> a = b"
    by (cases a; cases b) (auto simp: compareLocks_def Let_def LOCK_DOMAIN_RANK_inj split: if_splits)
qed

section \<open>What a transaction acquires\<close>

lemma domain_name_prefix:
  "domain_name a @ CHR '':'' # s = domain_name b @ CHR '':'' # t \<longleftrightarrow> a = b \<and> s = t"
  by (cases a; cases b) simp_all

lemma lockToken_inj: "lockToken a = lockToken b \<longleftrightarrow> a = b"
  by (cases a; cases b) (simp add: lockToken_def domain_name_prefix)

lemma set_unique_keys: "set (unique_keys seen ks) = {k \<in> set ks. lockToken k \<notin> set seen}"
  by (induction ks arbitrary: seen) (auto simp: lockToken_inj)

lemma distinct_unique_keys: "distinct (unique_keys seen ks)"
  by (induction ks arbitrary: seen) (auto simp: set_unique_keys)

lemma orderLocks_sorted: "sorted (orderLocks ks)" "distinct (orderLocks ks)" "set (orderLocks ks) = set ks"
proof -
  have "(\<lambda>a b. compareLocks a b \<le> 0) = (\<le>)" by (simp add: fun_eq_iff less_eq_lock_key_def)
  then show "sorted (orderLocks ks)"
    using locks.sorted_js_sort [of "unique_keys [] ks"] by (simp add: orderLocks_def)
  show "distinct (orderLocks ks)" "set (orderLocks ks) = set ks"
    by (simp_all add: orderLocks_def distinct_unique_keys set_unique_keys)
qed

lemma orderLocks_set: "orderLocks ks = sorted_list_of_set (set ks)"
  using sorted_list_of_set.idem_if_sorted_distinct [OF orderLocks_sorted(1,2), of ks]
  by (simp add: orderLocks_sorted(3))

section \<open>Waiting\<close>

text \<open>
  Transactions by number: the locks each still has to take, in order, and the ones it holds.
  A lock is the hash of a token, given as a parameter. \<open>finish\<close> releases all at once, as a
  commit, a rollback or a disconnect does.
\<close>

record lock_table =
  waiting :: "nat \<Rightarrow> string list"
  holding :: "nat \<Rightarrow> string list"

inductive lock_step :: "(string \<Rightarrow> 'h) \<Rightarrow> lock_table \<Rightarrow> lock_table \<Rightarrow> bool" for hash :: "string \<Rightarrow> 'h" where
  take_lock: "waiting s i = t # ts \<Longrightarrow> (\<forall>j u. j \<noteq> i \<and> u \<in> set (holding s j) \<longrightarrow> hash u \<noteq> hash t) \<Longrightarrow>
    lock_step hash s (s\<lparr>waiting := (waiting s)(i := ts), holding := (holding s)(i := t # holding s i)\<rparr>)"
| finish: "waiting s i = [] \<Longrightarrow> lock_step hash s (s\<lparr>holding := (holding s)(i := [])\<rparr>)"

definition lock_start :: "(nat \<Rightarrow> lock_key list) \<Rightarrow> lock_table" where
  "lock_start keys = \<lparr>waiting = (\<lambda>i. acquireLocks (keys i)), holding = (\<lambda>i. [])\<rparr>"

definition rank_of_token :: "string \<Rightarrow> lock_key" where
  "rank_of_token t = (THE k. lockToken k = t)"

lemma rank_of_lockToken [simp]: "rank_of_token (lockToken k) = k"
  by (simp add: rank_of_token_def lockToken_inj)

text \<open>What a transaction holds comes before what it waits for.\<close>

definition ordered_table :: "(nat \<Rightarrow> lock_key list) \<Rightarrow> lock_table \<Rightarrow> bool" where
  "ordered_table keys s \<longleftrightarrow> (\<forall>i. \<exists>hs ws. holding s i = map lockToken hs \<and> waiting s i = map lockToken ws \<and>
     sorted ws \<and> distinct ws \<and> (\<forall>h \<in> set hs. \<forall>w \<in> set ws. h < w) \<and> set hs \<union> set ws \<subseteq> set (keys i))"

lemma ordered_start: "ordered_table keys (lock_start keys)"
  unfolding ordered_table_def
proof
  fix i
  show "\<exists>hs ws. holding (lock_start keys) i = map lockToken hs \<and> waiting (lock_start keys) i = map lockToken ws \<and>
     sorted ws \<and> distinct ws \<and> (\<forall>h \<in> set hs. \<forall>w \<in> set ws. h < w) \<and> set hs \<union> set ws \<subseteq> set (keys i)"
    by (rule exI [of _ "[]"], rule exI [of _ "orderLocks (keys i)"])
      (simp add: lock_start_def acquireLocks_def orderLocks_sorted)
qed

lemma ordered_step:
  assumes "lock_step hash s s'" "ordered_table keys s"
  shows "ordered_table keys s'"
  using assms
proof (induction rule: lock_step.induct)
  case (take_lock s i t ts)
  show ?case
    unfolding ordered_table_def
  proof
    fix j
    from take_lock.prems obtain hs ws where j: "holding s j = map lockToken hs" "waiting s j = map lockToken ws"
      "sorted ws" "distinct ws" "\<forall>h \<in> set hs. \<forall>w \<in> set ws. h < w" "set hs \<union> set ws \<subseteq> set (keys j)"
      unfolding ordered_table_def by blast
    show "\<exists>hs ws. holding (s\<lparr>waiting := (waiting s)(i := ts), holding := (holding s)(i := t # holding s i)\<rparr>) j = map lockToken hs \<and>
        waiting (s\<lparr>waiting := (waiting s)(i := ts), holding := (holding s)(i := t # holding s i)\<rparr>) j = map lockToken ws \<and>
        sorted ws \<and> distinct ws \<and> (\<forall>h \<in> set hs. \<forall>w \<in> set ws. h < w) \<and> set hs \<union> set ws \<subseteq> set (keys j)"
    proof (cases "j = i")
      case True
      with j(2) take_lock.hyps(1) obtain w vs where ws: "ws = w # vs" "t = lockToken w" "ts = map lockToken vs"
        by (cases ws) auto
      have "\<forall>v \<in> set vs. w < v" using j(3,4) ws(1) by (auto simp: less_le)
      then show ?thesis
        using True j ws by (intro exI [of _ "w # hs"] exI [of _ vs]) auto
    next
      case False
      then show ?thesis using j by (intro exI [of _ hs] exI [of _ ws]) auto
    qed
  qed
next
  case (finish s i)
  then show ?case
    unfolding ordered_table_def
    by (auto simp: fun_upd_def)
qed

lemma ordered_reachable: "(lock_step hash)\<^sup>*\<^sup>* (lock_start keys) s \<Longrightarrow> ordered_table keys s"
  by (induction rule: rtranclp_induct) (auto intro: ordered_start ordered_step)

section \<open>No circle of waiting\<close>

definition all_keys :: "nat \<Rightarrow> (nat \<Rightarrow> lock_key list) \<Rightarrow> lock_key set" where
  "all_keys n keys = (\<Union>i < n. set (keys i))"

lemma someone_moves:
  assumes table: "ordered_table keys s" and few: "\<forall>i \<ge> n. keys i = []"
    and hash: "inj_on hash (lockToken ` all_keys n keys)" and some: "waiting s i0 \<noteq> []"
  shows "(\<exists>i t ts. waiting s i = t # ts \<and> (\<forall>j u. j \<noteq> i \<and> u \<in> set (holding s j) \<longrightarrow> hash u \<noteq> hash t)) \<or>
    (\<exists>i. waiting s i = [] \<and> holding s i \<noteq> [])"
proof (rule ccontr)
  assume stuck: "\<not> ?thesis"
  define N where "N = {w. \<exists>i ts. waiting s i = lockToken w # ts}"
  have parts: "\<exists>hs ws. holding s i = map lockToken hs \<and> waiting s i = map lockToken ws \<and>
      (\<forall>h \<in> set hs. \<forall>w \<in> set ws. h < w) \<and> set hs \<union> set ws \<subseteq> all_keys n keys" for i
  proof -
    have "set (keys i) \<subseteq> all_keys n keys" using few by (cases "i < n") (auto simp: all_keys_def)
    then show ?thesis using table unfolding ordered_table_def by (meson order_trans)
  qed
  have known: "w \<in> all_keys n keys" if w: "waiting s i = lockToken w # ts" for i w ts
  proof -
    obtain hs ws where ws: "waiting s i = map lockToken ws" "set hs \<union> set ws \<subseteq> all_keys n keys" using parts by blast
    with w obtain v where "v \<in> set ws" "lockToken v = lockToken w" by (cases ws) auto
    then show ?thesis using ws(2) lockToken_inj by auto
  qed
  then have "N \<subseteq> all_keys n keys" unfolding N_def by blast
  then have fin: "finite N" by (rule finite_subset) (simp add: all_keys_def)
  have "N \<noteq> {}"
  proof -
    obtain ws where "waiting s i0 = map lockToken ws" using parts by blast
    with some show ?thesis unfolding N_def by (cases ws) auto
  qed
  then have "Max N \<in> N" using fin by simp
  then obtain i ts where i: "waiting s i = lockToken (Max N) # ts" unfolding N_def by blast
  with stuck obtain j u where j: "u \<in> set (holding s j)" "hash u = hash (lockToken (Max N))" by blast
  obtain hs ws where h: "holding s j = map lockToken hs" "waiting s j = map lockToken ws"
    "\<forall>h \<in> set hs. \<forall>w \<in> set ws. h < w" "set hs \<union> set ws \<subseteq> all_keys n keys" using parts by blast
  from j(1) h(1) obtain k where k: "k \<in> set hs" "u = lockToken k" by auto
  have "u = lockToken (Max N)"
    using hash j(2) k h(4) known [OF i] by (auto dest: inj_onD)
  then have "k = Max N" using k(2) by (simp add: lockToken_inj)
  have "waiting s j \<noteq> []" using stuck j(1) by force
  then obtain w vs where w: "ws = w # vs" using h(2) by (cases ws) auto
  then have "w \<in> N" using h(2) unfolding N_def by auto
  moreover have "Max N < w" using h(3) k(1) w \<open>k = Max N\<close> by auto
  ultimately show False using fin by (meson Max_ge leD)
qed

lemma no_deadlock:
  assumes "(lock_step hash)\<^sup>*\<^sup>* (lock_start keys) s" "\<forall>i \<ge> n. keys i = []"
    and "inj_on hash (lockToken ` all_keys n keys)" "waiting s i \<noteq> []"
  shows "\<exists>s'. lock_step hash s s' \<and> s' \<noteq> s"
  using someone_moves [OF ordered_reachable [OF assms(1)] assms(2,3,4)]
proof (elim disjE exE conjE)
  fix j t ts
  assume j: "waiting s j = t # ts" and free: "\<forall>k u. k \<noteq> j \<and> u \<in> set (holding s k) \<longrightarrow> hash u \<noteq> hash t"
  let ?s = "s\<lparr>waiting := (waiting s)(j := ts), holding := (holding s)(j := t # holding s j)\<rparr>"
  have "waiting ?s j \<noteq> waiting s j" using j by simp
  then have "?s \<noteq> s" by metis
  with take_lock [of s j t ts hash, OF j free] show ?thesis by blast
next
  fix j assume j: "waiting s j = []" "holding s j \<noteq> []"
  have "holding (s\<lparr>holding := (holding s)(j := [])\<rparr>) j \<noteq> holding s j" using j(2) by simp
  then have "s\<lparr>holding := (holding s)(j := [])\<rparr> \<noteq> s" by metis
  with finish [of s j hash, OF j(1)] show ?thesis by blast
qed

text \<open>Every step that changes the table brings its end closer.\<close>

definition table_size :: "nat \<Rightarrow> lock_table \<Rightarrow> nat" where
  "table_size n s = (\<Sum>i < n. 2 * length (waiting s i) + (if holding s i = [] then 0 else 1))"

lemma table_size_upd:
  fixes g h :: "nat \<Rightarrow> nat"
  assumes "i < n" "g i < h i" "\<And>j. j \<noteq> i \<Longrightarrow> g j = h j"
  shows "(\<Sum>j < n. g j) < (\<Sum>j < n. h j)"
proof (rule sum_strict_mono_ex1)
  show "\<forall>j \<in> {..<n}. g j \<le> h j" using assms(2,3) by (metis order_refl less_imp_le)
qed (use assms(1,2) in auto)

lemma table_size_step:
  assumes "lock_step hash s s'" "s' \<noteq> s" "\<forall>i \<ge> n. waiting s i = [] \<and> holding s i = []"
  shows "table_size n s' < table_size n s"
  using assms
proof (induction rule: lock_step.induct)
  case (take_lock s i t ts)
  then have "i < n" by (metis linorder_not_le list.distinct(1))
  then show ?case unfolding table_size_def by (rule table_size_upd) (use take_lock.hyps in auto)
next
  case (finish s i)
  have "holding s i \<noteq> []"
  proof
    assume "holding s i = []"
    then have "(holding s)(i := []) = holding s" by (simp add: fun_upd_idem)
    with finish.prems(1) show False by simp
  qed
  then have "i < n" using finish.prems(2) by (metis linorder_not_le)
  then show ?case unfolding table_size_def
    by (rule table_size_upd) (use \<open>holding s i \<noteq> []\<close> in auto)
qed

section \<open>What callers rely on\<close>

lemma step_keeps_few:
  "lock_step hash s s' \<Longrightarrow> \<forall>i \<ge> n. waiting s i = [] \<and> holding s i = [] \<Longrightarrow> \<forall>i \<ge> n. waiting s' i = [] \<and> holding s' i = []"
  by (induction rule: lock_step.induct) auto

lemma reachable_few:
  assumes "(lock_step hash)\<^sup>*\<^sup>* (lock_start keys) s" "\<forall>i \<ge> n. keys i = []"
  shows "\<forall>i \<ge> n. waiting s i = [] \<and> holding s i = []"
  using assms(1)
proof (induction rule: rtranclp_induct)
  case base
  then show ?case using assms(2) by (simp add: lock_start_def acquireLocks_def orderLocks_def js_sort_def)
qed (rule step_keeps_few)

lemma runs_to_the_end:
  assumes "(lock_step hash)\<^sup>*\<^sup>* (lock_start keys) s" "\<forall>i \<ge> n. keys i = []"
    and "inj_on hash (lockToken ` all_keys n keys)"
  shows "\<exists>s'. (lock_step hash)\<^sup>*\<^sup>* s s' \<and> (\<forall>i. waiting s' i = [])"
  using assms(1)
proof (induction "table_size n s" arbitrary: s rule: less_induct)
  case less
  show ?case
  proof (cases "\<forall>i. waiting s i = []")
    case False
    then obtain i where "waiting s i \<noteq> []" by blast
    from no_deadlock [OF less.prems assms(2,3) this] obtain s1 where s1: "lock_step hash s s1" "s1 \<noteq> s" by blast
    have "table_size n s1 < table_size n s"
      by (rule table_size_step [OF s1 reachable_few [OF less.prems assms(2)]])
    then obtain s2 where "(lock_step hash)\<^sup>*\<^sup>* s1 s2" "\<forall>i. waiting s2 i = []"
      using less.hyps [of s1] less.prems s1(1) by (meson rtranclp.rtrancl_into_rtrancl)
    then show ?thesis using s1(1) by (meson converse_rtranclp_into_rtranclp)
  qed blast
qed

text \<open>
  \<open>orderLocks\<close> depends only on which locks are asked for: it is the sorted list of the set,
  so duplicates and the order of the request make no difference.
\<close>

theorem lock_order_is_canonical: "orderLocks ks = sorted_list_of_set (set ks)"
  by (rule orderLocks_set)

text \<open>
  C10. Transactions that take all their locks by \<open>acquireLocks\<close> do not block each other for good:
  wherever finitely many of them have got to, there is a way on in which every one of them gets
  all its locks, as long as no two of their tokens have the same hash.
\<close>

theorem every_transaction_gets_its_locks:
  assumes "(lock_step hash)\<^sup>*\<^sup>* (lock_start keys) s" "\<forall>i \<ge> n. keys i = []"
    and "inj_on hash (lockToken ` all_keys n keys)"
  shows "\<exists>s'. (lock_step hash)\<^sup>*\<^sup>* s s' \<and> (\<forall>i. waiting s' i = [])"
  by (rule runs_to_the_end [OF assms])

definition two_merges :: "nat \<Rightarrow> lock_key list" where
  "two_merges = (\<lambda>i. [])(0 := [LockKey PatronLock ''p'', LockKey PatronLock ''q''],
     1 := [LockKey ItemLock ''i'', LockKey PatronLock ''q'', LockKey PatronLock ''p''])"

theorem every_transaction_gets_its_locks_witness:
  "\<exists>s'. (lock_step id)\<^sup>*\<^sup>* (lock_start two_merges) s' \<and> (\<forall>i. waiting s' i = [])"
  by (rule every_transaction_gets_its_locks [where keys = two_merges and n = 2])
    (auto simp: two_merges_def)

end
