(* ===== verification/Spec2Isabelle.thy ===== *)
theory Spec2Isabelle
  imports Greek_Calendar Fines Pinning Policy_Rows Editing_Properties
    Money_Properties Time_Properties Policy_Properties Ledger_Properties Marc_Properties Locks
begin

text \<open>
  Libriant is a multi-tenant library system written in TypeScript: a NestJS API over one database
  per tenant, a web client, and packages of pure code they share. This development models the
  code that decides: what a loan costs and when it is due, who may borrow, where money goes, in
  which order locks are taken, and how a catalogue record is written, read,
  edited and compared.

  \<^bold>\<open>How the parts interact.\<close> A loan, renewal or hold is judged by the policy package
  (\<open>packages/circ-policy\<close>): rules are ranked and one is chosen, the policies it names are read from
  rows, a due date is computed on the branch's calendar, blocks are collected, and the policies
  are frozen as JSON on the loan or hold. The fees module (\<open>apps/api/src/fees\<close>) turns overdue days
  into charges, spreads payments over charges, and posts every movement to a double-entry journal
  under the patron's lock (\<open>apps/api/src/platform/locks.ts\<close>). The catalogue reads and writes binary
  MARC, addresses places in a record by paths, applies batches of edits to it, keeps its linked
  fields in order and compares its versions (\<open>packages/marc\<close>).

  \<^bold>\<open>Theories and sources.\<close>
  \<^item> \<open>Prelude\<close>: fallible results as sums (\<open>Inl\<close> a thrown error, \<open>Inr\<close> a value), the pieces of the
    JavaScript library the sources call, and the locales \<open>comparator\<close> and \<open>keyed_comparator\<close>: what a
    comparison function has to satisfy for \<open>Array.prototype.sort\<close> to mean anything. They are
    interpreted on the comparators of money, instants, rules, templates, holidays, fees, locks,
    insertions, and the pairs and indices of a comparison.
  \<^item> \<open>Currencies\<close>, \<open>Money\<close>: \<open>packages/shared/src\<close>. \<open>Policy_Types\<close>: \<open>types.ts\<close>.
  \<^item> \<open>Civil_Time\<close>, \<open>Calendar\<close>: \<open>calendar.ts\<close>, days and instants, then opening hours. The browser's
    \<open>Intl.DateTimeFormat\<close> is a parameter; \<open>wall_clock\<close> states what the code relies on: a zone has an
    offset at each instant. \<open>Greek_Calendar\<close>: \<open>greek-calendar.ts\<close>. \<open>Due_Date\<close>: \<open>duedate.ts\<close>.
  \<^item> \<open>Fines\<close>: \<open>fines.ts\<close>. \<open>Rank\<close>, \<open>Resolve\<close>: \<open>rank.ts\<close>, \<open>resolve.ts\<close>. \<open>Blocks\<close>: \<open>blocks.ts\<close>.
    \<open>Pinning\<close>: \<open>pinning.ts\<close> and \<open>hold-pinning.ts\<close>. \<open>Policy_Rows\<close>: \<open>policy-rows.ts\<close>.
  \<^item> \<open>Ledger\<close> (\<open>ledger.ts\<close> and the trigger of the \<open>fees_ledger\<close> migration), \<open>Settlement\<close>
    (\<open>fee-settlement.ts\<close>), \<open>Fee_Service\<close> (\<open>fees.service.ts\<close>; the tables are the record \<open>books\<close>),
    \<open>Identities\<close> (\<open>ledger-identities.ts\<close> and the invariant \<open>books_ok\<close>), \<open>Fee_Invariant\<close> (every operation
    keeps it), \<open>Fee_Accrual\<close> (\<open>fee-accrual.ts\<close>), \<open>Cash_Drawer\<close> (\<open>cash-drawer.service.ts\<close>; the step
    relation \<open>ledger_step\<close> of the whole module), \<open>Ledger_Cases\<close> (concrete days at the desk).
  \<^item> \<open>Locks\<close>: \<open>locks.ts\<close>, with transactions waiting for each other as the step relation \<open>lock_step\<close>.
  \<^item> \<open>Marc_Bytes\<close>, \<open>Marc_Record\<close>, \<open>Iso2709\<close>: \<open>bytes.ts\<close>, \<open>types.ts\<close>, \<open>iso2709.ts\<close>;
    \<open>Iso2709_Round_Trip\<close> and \<open>Marc_Cases\<close> the proofs and examples.
  \<^item> \<open>Marc_Path\<close>: \<open>path.ts\<close>, how a place in a record is named. \<open>Linkage\<close>: \<open>linkage.ts\<close>, the links between
    a field and its form in another script. \<open>Marc_Ops\<close>: \<open>ops.ts\<close>, the eight edits and applying a batch
    of them; \<open>Marc_Inverse\<close> shows when an edit is taken back and \<open>Marc_Batch\<close> what a batch does.
  \<^item> \<open>Increasing\<close>, \<open>Marc_Diff\<close>: \<open>diff.ts\<close>, what changed between two versions; \<open>Diff_Subfields\<close> and
    \<open>Diff_Fields\<close> show what the comparison of subfields and of records means.
  \<^item> \<open>Money_Properties\<close>, \<open>Time_Properties\<close>, \<open>Policy_Properties\<close>, \<open>Ledger_Properties\<close>,
    \<open>Marc_Properties\<close>, \<open>Editing_Properties\<close>, the end of \<open>Locks\<close>, and this theory: the properties, each with a witness at a
    concrete input where it has hypotheses.

  \<^bold>\<open>Conventions.\<close> Definitions keep the source's names; where two records would share a field, one has
  a prefix. A \<open>bigint\<close> and an integral \<open>number\<close> are \<open>int\<close>; the interval counts of fines, which the code
  computes as doubles, and the scores of a comparison are rationals. \<open>undefined\<close> and \<open>null\<close> are \<open>None\<close>. An instant is its count of
  milliseconds. A byte is a natural number below 256, a text of the catalogue the list of its UTF-16
  code units. A database transaction is one step; the ids the database draws are arguments.

  \<^bold>\<open>Bounds.\<close> The calendar searches look at 45 days, as the code does (\<open>ROLL_HORIZON_DAYS\<close>); this is a
  limit of the program and not fuel. Loops over
  lists and byte strings recurse on them, \<open>splitIso2709\<close> ends because every record it takes has a byte,
  and the binary search of \<open>Increasing\<close> because its interval shrinks. The one definition with fuel is
  the walk \<open>follow\<close> along the predecessors of a run: it has one more step than there are values, and
  \<open>lis_correct\<close> shows that the whole run is returned.

  \<^bold>\<open>Not modelled.\<close> Queries that only shape rows for a screen; the loans, holds, items and patrons
  services, which wrap the policy decisions in transactions over some twenty tables; the MARC-8
  transcoder, MARCXML and the schema-driven checks; import, export, billing, authentication, jobs,
  email, storage and the user interfaces. A \<open>number\<close> beyond \<open>2^53\<close>, \<open>NaN\<close> and infinities are not
  modelled except where a conversion reads them.
\<close>

section \<open>A small library\<close>

text \<open>The snapshot the witnesses resolve against: one wildcard rule and one for a category.\<close>

definition free_hold :: hold_policy where
  "free_hold = \<lparr>hp_id = ''hp'', hp_name = ''hold'', holdsAllowed = True, requestTypes = [Hold],
     onShelfHolds = ShelfAllow, itemLevelHolds = LevelAllow, maxHoldsPerRecord = None, maxHoldsTotal = Some 5,
     pickupPolicy = OwningBranch, pickupBranchIds = [], holdShelfExpiry = \<lparr>dur_value = 7, dur_unit = Days\<rparr>,
     shelfExpiryUsesCalendar = True, unfilledRequestExpiry = None, suspensionAllowed = True,
     maxSuspension = None, placementFee = None, notPickedUpFee = None, transitAllowed = True,
     maxTransitDays = None\<rparr>"

definition euro :: "int \<Rightarrow> money_json" where
  "euro n = \<lparr>minorUnits = n, mj_currency = ''EUR''\<rparr>"

definition lost_terms :: lost_item_fee_policy where
  "lost_terms = \<lparr>lif_id = ''lf'', lif_name = ''lost'', chargeBasis = FixedAmount, fixedAmount = Some (euro 2000),
     processingFee = euro 500, agedToLostAfter = \<lparr>dur_value = 30, dur_unit = Days\<rparr>,
     refundReplacementOnReturn = True, refundProcessingFeeOnReturn = False, refundWindow = None,
     stopOverdueAccrualOnLost = True, chargeOverdueUpToLost = True\<rparr>"

definition wildcard_rule :: circulation_rule where
  "wildcard_rule = \<lparr>rs_patronCategoryId = None, rs_itemTypeId = None, rs_owningBranchId = None,
     rs_shelvingLocationId = None, rs_checkoutBranchId = None, rs_pickupBranchId = None,
     rule_id = ''r1'', rule_name = ''default'', loanPolicyId = ''lp'', overdueFinePolicyId = ''of'',
     lostItemFeePolicyId = ''lf'', holdPolicyId = ''hp'', noticePolicyId = ''np'', maxLoansForRule = Some 10,
     maxHoldsForRule = None, ageRestrictionMinYears = None, priority = 0, enabled = True,
     effectiveFrom = None, effectiveTo = None\<rparr>"

definition child_rule :: circulation_rule where
  "child_rule = wildcard_rule\<lparr>rs_patronCategoryId := Some ''child'', rule_id := ''r2''\<rparr>"

definition small_library :: policy_snapshot where
  "small_library = \<lparr>version = 7, rules = [wildcard_rule, child_rule], loanPolicies = [''lp'' \<mapsto> base_loan],
     overdueFinePolicies = [''of'' \<mapsto> hourly_fine], lostItemFeePolicies = [''lf'' \<mapsto> lost_terms],
     holdPolicies = [''hp'' \<mapsto> free_hold],
     noticePolicies = [''np'' \<mapsto> \<lparr>np_id = ''np'', np_name = ''notices'', templates = []\<rparr>],
     fixedDueDateSets = Map.empty, patronCategoryLimits = Map.empty, calendars = Map.empty\<rparr>"

definition child_at_desk :: resolve_context where
  "child_at_desk = \<lparr>cx_patronCategoryId = Some ''child'', cx_itemTypeId = None, cx_owningBranchId = None,
     cx_shelvingLocationId = None, cx_checkoutBranchId = None, cx_pickupBranchId = None, cx_at = 0\<rparr>"

lemma small_library_resolves:
  "\<exists>a. resolveCirculationPolicy small_library child_at_desk = Inr a \<and> rp_rule a = child_rule"
  by (simp add: resolveCirculationPolicy_def candidates_def small_library_def child_at_desk_def child_rule_def
      wildcard_rule_def isInForce_def matchesSelectors_def SELECTOR_WEIGHTS_def compareRank_def specificity_def
      need_def Let_def)

definition small_answer :: resolved_policy where
  "small_answer = (case resolveCirculationPolicy small_library child_at_desk of Inr a \<Rightarrow> a)"

lemma small_answer:
  "resolveCirculationPolicy small_library child_at_desk = Inr small_answer" "rp_rule small_answer = child_rule"
  using small_library_resolves by (auto simp: small_answer_def)

section \<open>Resolution\<close>

text \<open>
  C1. The resolver answers with one rule of the snapshot that is in force and matches, that no
  other such rule outranks, and with exactly the five policies this rule names.
\<close>

theorem resolve_one_rule:
  assumes "resolveCirculationPolicy s ctx = Inr a"
  shows "best_rule s ctx (rp_rule a) \<and> answer_of s (rp_rule a) a"
  using resolve_best [OF assms] by blast

theorem resolve_one_rule_witness:
  "best_rule small_library child_at_desk child_rule"
  using resolve_one_rule [OF small_answer(1)] small_answer(2) by simp

text \<open>
  C6. The order in which the database returned the rules does not matter: with distinct ids,
  every permutation of them resolves to the same answer or the same error.
\<close>

theorem resolve_order_independent:
  assumes "mset (rules s) = mset rs" "inj_on rule_id (set rs)"
  shows "resolveCirculationPolicy (s\<lparr>rules := rs\<rparr>) ctx = resolveCirculationPolicy s ctx"
  by (rule resolve_permutation [OF assms])

theorem resolve_order_independent_witness:
  "resolveCirculationPolicy (small_library\<lparr>rules := [child_rule, wildcard_rule]\<rparr>) child_at_desk = Inr small_answer"
  using resolve_order_independent [of small_library "[child_rule, wildcard_rule]" child_at_desk] small_answer(1)
  by (simp add: small_library_def child_rule_def wildcard_rule_def)



text \<open>
  The weights are the precedence librarians carry in their heads: between two rules, the one
  that pins the first selector on which they differ is the more specific, whatever the rest.
\<close>

theorem specificity_is_precedence: "specificity b < specificity a \<longleftrightarrow> pins_first a b"
  by (rule specificity_precedence)

section \<open>Due dates\<close>





text \<open>
  C23. Every movement of a rolling due date is in the trace: the rolls lead, each starting where
  the one before ended, from the plain due date of the period in force to the one returned.
\<close>

theorem due_date_is_explained:
  assumes "computeDueDate intl inp = Inr (Some due, rolls)" "profile (ddi_policy inp) = Rolling"
  shows "\<exists>d plain. period_in_force (ddi_policy inp) (hasOutstandingHold inp = Some True) = Some d \<and>
    addDuration intl (timezone (ddi_calendar inp)) (ddi_from inp) d (dueTimeOfDay (ddi_policy inp)) = Inr plain \<and>
    rolls_path plain rolls due"
  using computeDueDate_rolling_path [OF assms] by metis

definition sunday_loan :: due_date_input where
  "sunday_loan = \<lparr>ddi_policy = base_loan\<lparr>closedDayHandling := StartOfNextOpenDay\<rparr>, ddi_calendar = split_days,
     ddi_from = 1777802400000, fixedDueDateSet = None, hasOutstandingHold = None\<rparr>"

lemma sunday_loan_due: "\<exists>rolls. computeDueDate athens sunday_loan = Inr (Some 1779080400000, rolls)"
  by (simp add: sunday_loan_def computeDueDate_def rollingDue_def base_loan_def applyMaxPeriod_def
      applyClosedDayHandling_def moveTo_def Let_def split_zone example_sunday example_closed_sunday
      truncate_at_time js_rem_def example_monday opening_minute_def)

theorem due_date_is_explained_witness: "\<exists>rolls. rolls_path 1779012000000 rolls 1779080400000"
proof -
  obtain rolls where "computeDueDate athens sunday_loan = Inr (Some 1779080400000, rolls)"
    using sunday_loan_due by blast
  from due_date_is_explained [OF this] show ?thesis
    by (auto simp: sunday_loan_def base_loan_def period_in_force_def split_zone example_sunday)
qed




end
